(* ===== verification/Prelude.thy ===== *)
theory Prelude
  imports "HOL-Library.Word" "HOL-Library.Multiset" "HOL-Library.Monad_Syntax"
begin

text \<open>
  What the components share: names for the machine types of the sources, the little-endian
  byte layout of machine words (the file system keeps its structures as raw bytes and words
  in CXL memory), C string comparison, and the generic lemmas on words, lists and optional
  results that the component proofs use.  An operation that can end abnormally (process exit
  on memory exhaustion, an access outside the memory pool, a write past a fixed buffer)
  returns an \<open>option\<close>, with \<open>None\<close> for the abnormal end.
\<close>

unbundle bit_operations_syntax

type_synonym u8 = "8 word"
type_synonym u16 = "16 word"
type_synonym u32 = "32 word"
type_synonym u64 = "64 word"
type_synonym byte = "8 word"
type_synonym cstring = "byte list"

section \<open>Little-endian byte layout: definitions\<close>

fun le_bytes :: "nat \<Rightarrow> 'a::len word \<Rightarrow> byte list" where
  "le_bytes 0 w = []"
| "le_bytes (Suc n) w = ucast w # le_bytes n (drop_bit 8 w)"

fun le_word :: "byte list \<Rightarrow> 'a::len word" where
  "le_word [] = 0"
| "le_word (b # bs) = ucast b OR push_bit 8 (le_word bs)"

section \<open>Words\<close>

lemma unat_lt_exp64 [simp]: "unat (w :: 64 word) < 18446744073709551616"
  using unsigned_less [of w, where 'a=nat] by simp

lemma unat_ucast_up [simp]:
  "LENGTH('a) \<le> LENGTH('b) \<Longrightarrow> unat (ucast (w :: 'a::len word) :: 'b::len word) = unat w"
proof -
  assume "LENGTH('a) \<le> LENGTH('b)"
  then have "(2::nat) ^ LENGTH('a) \<le> 2 ^ LENGTH('b)" by simp
  then have "unat w < 2 ^ LENGTH('b)" using unsigned_less [of w, where 'a = nat] by linarith
  then show ?thesis by (simp add: unsigned_ucast_eq take_bit_nat_eq_self)
qed

lemma unat_of_nat_u64: "n < 2 ^ 64 \<Longrightarrow> unat (of_nat n :: u64) = n"
  by (simp add: unsigned_of_nat take_bit_nat_eq_self)

lemma unat_push_bit_small:
  fixes w :: "'a::len word"
  assumes "unat w < 2 ^ (LENGTH('a) - n)" "n < LENGTH('a)"
  shows "unat (push_bit n w) = unat w * 2 ^ n"
proof -
  have "unat w * 2 ^ n < 2 ^ (LENGTH('a) - n) * 2 ^ n"
    using assms by simp
  also have "\<dots> = 2 ^ LENGTH('a)"
    using assms by (simp flip: power_add)
  finally have lt: "unat w * 2 ^ n < 2 ^ LENGTH('a)" .
  have "unat (push_bit n w) = take_bit LENGTH('a) (push_bit n (unat w))"
    by (rule unsigned_push_bit_eq)
  with lt show ?thesis by (simp add: take_bit_nat_eq_self push_bit_eq_mult)
qed

lemma unat_drop_bit: "unat (drop_bit n (w :: 'a::len word)) = unat w div 2 ^ n"
  by (subst unat_drop_bit_eq) (rule drop_bit_eq_div)

lemma or_eq_plus_disjoint:
  fixes a b :: "'a::len word"
  assumes "a AND b = 0"
  shows "a OR b = a + b"
  using disjunctive_add_eq_or [OF assms] by simp

lemma unat_or_disjoint:
  fixes a b :: "'a::len word"
  assumes "a AND b = 0"
  shows "unat (a OR b) = unat a + unat b"
proof -
  have "unat a AND unat b = 0"
    using assms unsigned_and_eq [of a b, where 'a=nat] by simp
  then have "unat a OR unat b = unat a + unat b"
    by (simp add: disjunctive_add_eq_or)
  then show ?thesis by (simp add: unsigned_or_eq)
qed

lemma small_not_bit: "\<not> bit (b::'a::len word) k" if "unat b < 2 ^ n" "n \<le> k"
proof -
  have "unat b < 2 ^ k" using that by (meson less_le_trans one_le_numeral power_increasing)
  then have "\<not> bit (unat b) k" by (simp add: bit_nat_def)
  then show ?thesis by (auto simp: bit_unsigned_iff dest: bit_imp_le_length)
qed

lemma small_bit_lt: "bit (b::'a::len word) k \<Longrightarrow> unat b < 2 ^ n \<Longrightarrow> k < n"
  by (meson not_le_imp_less small_not_bit)

lemma small_and_push_bit:
  fixes a b :: "'a::len word"
  assumes "unat b < 2 ^ n"
  shows "push_bit n a AND b = 0"
  by (rule bit_word_eqI) (auto simp: bit_simps dest: small_not_bit [OF assms])

section \<open>Little-endian byte layout: round trips\<close>

lemma length_le_bytes [simp]: "length (le_bytes n w) = n"
  by (induction n arbitrary: w) auto

lemma le_word_le_bytes_take: "le_word (le_bytes n w) = take_bit (8 * n) w"
proof (induction n arbitrary: w)
  case 0 show ?case by simp
next
  case (Suc n)
  show ?case
    by (rule bit_word_eqI) (auto simp: Suc bit_simps)
qed

lemma le_word_le_bytes [simp]:
  "LENGTH('a) \<le> 8 * n \<Longrightarrow> le_word (le_bytes n w) = (w :: 'a::len word)"
  by (simp add: le_word_le_bytes_take take_bit_word_eq_self)

lemma le_bytes_le_word [simp]:
  "8 * length bs \<le> LENGTH('a) \<Longrightarrow> le_bytes (length bs) (le_word bs :: 'a::len word) = bs"
proof (induction bs)
  case Nil show ?case by simp
next
  case (Cons b bs)
  have 1: "ucast (le_word (b # bs) :: 'a word) = b"
    using Cons.prems by (intro bit_word_eqI) (auto simp: bit_simps)
  have *: "\<not> bit (le_word bs :: 'a word) n" if "8 * length bs \<le> n" "8 * length bs \<le> LENGTH('a)" for n bs
    using that by (induction bs arbitrary: n) (auto simp: bit_simps dest: bit_imp_le_length)
  have 2: "drop_bit 8 (le_word (b # bs)) = (le_word bs :: 'a word)"
    using Cons.prems * [of bs]
    by (intro bit_word_eqI) (auto simp: bit_simps dest: bit_imp_le_length)
  from Cons 1 2 show ?case by simp
qed

section \<open>Runs of a component and of its specification\<close>

text \<open>
  A component is a function \<open>exec\<close> from commands and states to a result and a new state, or \<open>None\<close>
  when the code ends abnormally; a specification does the same on an abstract state and never fails.
  \<open>run_ops\<close> and \<open>run_spec\<close> run a list of commands. The locale says what it means that a component
  refines a specification command by command; its lemma lifts that to runs.
\<close>

primrec run_ops :: "('c \<Rightarrow> 's \<Rightarrow> ('r \<times> 's) option) \<Rightarrow> 'c list \<Rightarrow> 's \<Rightarrow> ('r list \<times> 's) option" where
  "run_ops f [] s = Some ([], s)"
| "run_ops f (c # cs) s =
    (case f c s of None \<Rightarrow> None
     | Some (r, s') \<Rightarrow> (case run_ops f cs s' of None \<Rightarrow> None | Some (rs, t) \<Rightarrow> Some (r # rs, t)))"

primrec run_spec :: "('c \<Rightarrow> 'm \<Rightarrow> 'r \<times> 'm) \<Rightarrow> 'c list \<Rightarrow> 'm \<Rightarrow> 'r list \<times> 'm" where
  "run_spec f [] m = ([], m)"
| "run_spec f (c # cs) m = (case f c m of (r, m') \<Rightarrow> case run_spec f cs m' of (rs, t) \<Rightarrow> (r # rs, t))"

primrec run_ok :: "('c \<Rightarrow> 's \<Rightarrow> ('r \<times> 's) option) \<Rightarrow> ('s \<Rightarrow> 'c \<Rightarrow> bool) \<Rightarrow> 'c list \<Rightarrow> 's \<Rightarrow> bool" where
  "run_ok f ok [] s = True"
| "run_ok f ok (c # cs) s =
    (ok s c \<and> (case f c s of None \<Rightarrow> True | Some (r, s') \<Rightarrow> run_ok f ok cs s'))"

locale refinement =
  fixes inv :: "'s \<Rightarrow> bool" and abs :: "'s \<Rightarrow> 'm" and ok :: "'s \<Rightarrow> 'c \<Rightarrow> bool"
    and exec :: "'c \<Rightarrow> 's \<Rightarrow> ('r \<times> 's) option" and spec :: "'c \<Rightarrow> 'm \<Rightarrow> 'r \<times> 'm"
  assumes exec_inv: "inv s \<Longrightarrow> ok s c \<Longrightarrow> exec c s = Some (r, s') \<Longrightarrow> inv s'"
    and exec_spec: "inv s \<Longrightarrow> ok s c \<Longrightarrow> exec c s = Some (r, s') \<Longrightarrow> spec c (abs s) = (r, abs s')"
begin

lemma run_refines:
  "inv s \<Longrightarrow> run_ok exec ok cs s \<Longrightarrow> run_ops exec cs s = Some (rs, t) \<Longrightarrow>
    inv t \<and> run_spec spec cs (abs s) = (rs, abs t)"
proof (induction cs arbitrary: s rs)
  case (Cons c cs)
  then obtain r s' rs' where e: "exec c s = Some (r, s')" "run_ops exec cs s' = Some (rs', t)" "rs = r # rs'"
    by (auto split: option.splits)
  have ok: "ok s c" "run_ok exec ok cs s'" using Cons.prems(2) e(1) by auto
  show ?case
    using Cons.IH [OF exec_inv [OF Cons.prems(1) ok(1) e(1)] ok(2) e(2)] exec_spec [OF Cons.prems(1) ok(1) e(1)] e(3)
    by simp
qed simp

end

text \<open>
  A component whose allowed commands always return, while some resource \<open>room\<close> of the state is not
  used up: each command takes at most one unit of it.
\<close>

locale total_refinement = refinement +
  fixes room :: "'a \<Rightarrow> nat"
  assumes exec_total: "inv s \<Longrightarrow> ok s c \<Longrightarrow> 0 < room s \<Longrightarrow> \<exists>r s'. exec c s = Some (r, s') \<and> room s \<le> Suc (room s')"
begin

lemma run_total:
  "inv s \<Longrightarrow> run_ok exec ok cs s \<Longrightarrow> length cs \<le> room s \<Longrightarrow>
    \<exists>rs t. run_ops exec cs s = Some (rs, t) \<and> inv t \<and> run_spec spec cs (abs s) = (rs, abs t)"
proof -
  assume h: "inv s" "run_ok exec ok cs s" "length cs \<le> room s"
  then have "\<exists>rs t. run_ops exec cs s = Some (rs, t)"
  proof (induction cs arbitrary: s)
    case (Cons c cs)
    then obtain r s' where e: "exec c s = Some (r, s')" "room s \<le> Suc (room s')"
      using exec_total [of s c] by auto
    then have "inv s'" "run_ok exec ok cs s'" "length cs \<le> room s'"
      using exec_inv [of s c] Cons.prems by auto
    from Cons.IH [OF this] show ?case using e by auto
  qed simp
  with run_refines [OF h(1,2)] show ?thesis by blast
qed

end

text \<open>
  A specification may leave a choice to the component: then it says which results it permits, and what a
  result means for the abstract state. It promises nothing after a command whose precondition fails.
\<close>

primrec permitted :: "('c \<Rightarrow> 'm \<Rightarrow> bool) \<Rightarrow> ('c \<Rightarrow> 'r \<Rightarrow> 'm \<Rightarrow> 'm option) \<Rightarrow> 'c list \<Rightarrow> 'r list \<Rightarrow> 'm \<Rightarrow> bool" where
  "permitted pre spec [] rs M = (rs = [])"
| "permitted pre spec (c # cs) rs M =
    (pre c M \<longrightarrow> (\<exists>r rs' M'. rs = r # rs' \<and> spec c r M = Some M' \<and> permitted pre spec cs rs' M'))"

locale permitted_runs =
  fixes inv :: "'s \<Rightarrow> bool" and abs :: "'s \<Rightarrow> 'm" and exec :: "'c \<Rightarrow> 's \<Rightarrow> ('r \<times> 's) option"
    and pre :: "'c \<Rightarrow> 'm \<Rightarrow> bool" and spec :: "'c \<Rightarrow> 'r \<Rightarrow> 'm \<Rightarrow> 'm option"
  assumes exec_permitted: "inv s \<Longrightarrow> pre c (abs s) \<Longrightarrow> exec c s = Some (r, s') \<Longrightarrow> inv s' \<and> spec c r (abs s) = Some (abs s')"
begin

lemma run_permitted: "inv s \<Longrightarrow> run_ops exec cs s = Some (rs, t) \<Longrightarrow> permitted pre spec cs rs (abs s)"
proof (induction cs arbitrary: s rs)
  case (Cons c cs)
  then obtain r s' rs' where e: "exec c s = Some (r, s')" "run_ops exec cs s' = Some (rs', t)" "rs = r # rs'"
    by (auto split: option.splits)
  then show ?case using Cons.IH [of s' rs'] exec_permitted [OF Cons.prems(1) _ e(1)] by auto
qed simp

end

end
