(* ===== verification/CxlMem.thy ===== *)
theory CxlMem
  imports Prelude
begin

text \<open>
  The CXL extended memory: the cache-line bump allocator \<open>NaiveAllocator\<close>
  (\<open>cxl_allocator.cc\<close>), the bounds-checked \<open>Read\<close>, \<open>Write\<close> and \<open>Cas\<close> of \<open>CXLMem\<close>
  (\<open>cxl_mem.h\<close>), and the second-level bump allocator of the CXL-SSD DRAM region (\<open>cxl_ssd.h\<close>).
  Memory is a function from addresses (relative to \<open>buf_ptr_\<close>) to bytes.  \<open>None\<close> is
  \<open>std::exit(1)\<close> for the allocator and the return value \<open>-1\<close> for the accesses.
\<close>

section \<open>The bump allocator\<close>

record NaiveAllocator =
  na_magic :: nat
  na_capacity :: nat
  na_offset :: nat
  na_free_size :: nat

definition na_Init :: "nat \<Rightarrow> NaiveAllocator \<Rightarrow> NaiveAllocator" where
  "na_Init capacity a =
    (if na_magic a \<noteq> 90801928124
     then \<lparr>na_magic = 90801928124, na_capacity = capacity, na_offset = 0, na_free_size = 0\<rparr>
     else a)"

definition round64 :: "nat \<Rightarrow> nat" where
  "round64 sz = ((sz + 64 - 1) div 64) * 64"

definition CXLMallocOffset :: "nat \<Rightarrow> NaiveAllocator \<Rightarrow> (nat \<times> NaiveAllocator) option" where
  "CXLMallocOffset sz a =
    (let sz' = round64 sz;
         old_offset = na_offset a;
         new_offset = old_offset + sz';
         a' = a\<lparr>na_offset := new_offset\<rparr>
     in if new_offset > na_capacity a then None else Some (old_offset, a'))"

text \<open>The pointer check of \<open>CXLFree\<close> compares with the size before rounding, that of
  \<open>CXLFakeFree\<close> with the size after rounding; \<open>ptr\<close> is relative to \<open>buf_\<close>, \<open>None\<close> the null pointer.\<close>

definition CXLFree :: "int option \<Rightarrow> nat \<Rightarrow> NaiveAllocator \<Rightarrow> NaiveAllocator" where
  "CXLFree ptr sz a =
    (case ptr of None \<Rightarrow> a
     | Some p \<Rightarrow>
        if p < 0 \<or> p > int (na_capacity a) - int sz then a
        else a\<lparr>na_free_size := na_free_size a + round64 sz\<rparr>)"

definition CXLFakeFree :: "int option \<Rightarrow> nat \<Rightarrow> NaiveAllocator \<Rightarrow> NaiveAllocator" where
  "CXLFakeFree ptr sz a =
    (case ptr of None \<Rightarrow> a
     | Some p \<Rightarrow>
        let sz' = round64 sz in
        if p < 0 \<or> p > int (na_capacity a) - int sz' then a
        else a\<lparr>na_free_size := na_free_size a + sz'\<rparr>)"

section \<open>CXLMem\<close>

record CXLMem =
  cm_buf :: "nat \<Rightarrow> byte"
  cm_pool_base :: nat
  cm_alloc :: NaiveAllocator

definition cm_pool_end :: "CXLMem \<Rightarrow> nat" where
  "cm_pool_end m = cm_pool_base m + na_offset (cm_alloc m)"

definition cm_Alloc :: "nat \<Rightarrow> CXLMem \<Rightarrow> (nat \<times> CXLMem) option" where
  "cm_Alloc sz m =
    do { (off, a') \<leftarrow> CXLMallocOffset sz (cm_alloc m);
         Some (off + cm_pool_base m, m\<lparr>cm_alloc := a'\<rparr>) }"

definition cm_Free :: "nat \<Rightarrow> nat \<Rightarrow> CXLMem \<Rightarrow> CXLMem" where
  "cm_Free offset sz m =
     m\<lparr>cm_alloc := CXLFakeFree (Some (int offset - int (cm_pool_base m))) sz (cm_alloc m)\<rparr>"

definition cm_Reset :: "nat \<Rightarrow> nat \<Rightarrow> CXLMem \<Rightarrow> CXLMem" where
  "cm_Reset offset sz m =
     m\<lparr>cm_buf := (\<lambda>a. if offset \<le> a \<and> a < offset + sz then 0 else cm_buf m a)\<rparr>"

text \<open>\<open>Read\<close> copies whole 64-byte lines into the destination; the caller sees the first \<open>size\<close>
  bytes, and the rest of the last line is what it writes past them.\<close>

definition cm_Read :: "nat \<Rightarrow> nat \<Rightarrow> CXLMem \<Rightarrow> byte list option" where
  "cm_Read offset sz m =
    (if offset + sz > cm_pool_end m then None
     else Some (map (\<lambda>i. cm_buf m (offset + i)) [0..<round64 sz]))"

text \<open>The starts of the lines that \<open>Write\<close> stores, in the order of the loop
  \<open>for (ssize_t i = size - 64; i >= 0; i -= 64)\<close>.\<close>

fun write_starts :: "nat \<Rightarrow> nat list" where
  "write_starts sz = (if sz < 64 then [] else (sz - 64) # write_starts (sz - 64))"

declare write_starts.simps [simp del]

definition store_line :: "nat \<Rightarrow> byte list \<Rightarrow> nat \<Rightarrow> (nat \<Rightarrow> byte) \<Rightarrow> (nat \<Rightarrow> byte)" where
  "store_line offset data i buf =
     (\<lambda>a. if offset + i \<le> a \<and> a < offset + i + 64 then data ! (a - offset) else buf a)"

definition cm_Write :: "nat \<Rightarrow> nat \<Rightarrow> byte list \<Rightarrow> CXLMem \<Rightarrow> CXLMem option" where
  "cm_Write offset sz data m =
    (if offset + sz > cm_pool_end m then None
     else Some (m\<lparr>cm_buf := fold (store_line offset data) (write_starts sz) (cm_buf m)\<rparr>))"

definition cm_load64 :: "nat \<Rightarrow> (nat \<Rightarrow> byte) \<Rightarrow> u64" where
  "cm_load64 offset buf = le_word (map (\<lambda>i. buf (offset + i)) [0..<8])"

definition cm_store64 :: "nat \<Rightarrow> u64 \<Rightarrow> (nat \<Rightarrow> byte) \<Rightarrow> (nat \<Rightarrow> byte)" where
  "cm_store64 offset w buf =
     (\<lambda>a. if offset \<le> a \<and> a < offset + 8 then le_bytes 8 w ! (a - offset) else buf a)"

text \<open>\<open>Cas\<close> returns the return code (true for 0), the value put in \<open>local_buf\<close> (\<open>None\<close>: it is
  left alone) and the memory.\<close>

definition cm_Cas :: "nat \<Rightarrow> u64 \<Rightarrow> u64 \<Rightarrow> CXLMem \<Rightarrow> bool \<times> u64 option \<times> CXLMem" where
  "cm_Cas offset compare_val swap_val m =
    (if offset + 8 > cm_pool_end m then (False, None, m)
     else let old_val = cm_load64 offset (cm_buf m) in
       if old_val = compare_val
       then (True, Some old_val, m\<lparr>cm_buf := cm_store64 offset swap_val (cm_buf m)\<rparr>)
       else (False, Some old_val, m))"

section \<open>CXL-SSD DRAM\<close>

record CXLSSDDramHeader =
  sd_magic :: nat
  sd_alloc_pos :: nat
  sd_capacity :: nat
  sd_base_offset :: nat

definition sd_Init :: "nat \<Rightarrow> nat \<Rightarrow> CXLSSDDramHeader" where
  "sd_Init base_offset capacity =
     \<lparr>sd_magic = 0x43584C53, sd_alloc_pos = 0, sd_capacity = capacity,
      sd_base_offset = base_offset\<rparr>"

definition sd_IsInit :: "CXLSSDDramHeader \<Rightarrow> bool" where
  "sd_IsInit h \<longleftrightarrow> sd_magic h = 0x43584C53"

text \<open>\<open>size = (size + align - 1) & ~(align - 1)\<close>, which for the alignments used (powers of two)
  is rounding up to a multiple; the position advances even when the request does not fit.\<close>

definition DramAlloc :: "u64 \<Rightarrow> u64 \<Rightarrow> CXLSSDDramHeader \<Rightarrow> nat option \<times> CXLSSDDramHeader" where
  "DramAlloc sz align h =
    (let sz' = unat ((sz + align - 1) AND NOT (align - 1));
         pos = sd_alloc_pos h;
         h' = h\<lparr>sd_alloc_pos := pos + sz'\<rparr>
     in if pos + sz' > sd_capacity h then (None, h') else (Some pos, h'))"

definition DramWrite :: "CXLSSDDramHeader \<Rightarrow> nat \<Rightarrow> nat \<Rightarrow> byte list \<Rightarrow> CXLMem \<Rightarrow> CXLMem option" where
  "DramWrite h offset sz data m = cm_Write (sd_base_offset h + offset) sz data m"

definition DramRead :: "CXLSSDDramHeader \<Rightarrow> nat \<Rightarrow> nat \<Rightarrow> CXLMem \<Rightarrow> byte list option" where
  "DramRead h offset sz m = cm_Read (sd_base_offset h + offset) sz m"

section \<open>The allocator hands out disjoint, aligned, in-range regions\<close>

lemma round64_bounds: "sz \<le> round64 sz" "round64 sz < sz + 64" "64 dvd round64 sz"
  unfolding round64_def by simp_all

lemma round64_eq [simp]: "64 dvd sz \<Longrightarrow> round64 sz = sz"
  unfolding round64_def by (auto elim!: dvdE)

lemma CXLMallocOffset_Some:
  "CXLMallocOffset sz a = Some (off, a') \<longleftrightarrow>
     off = na_offset a \<and> a' = a\<lparr>na_offset := na_offset a + round64 sz\<rparr> \<and>
     na_offset a + round64 sz \<le> na_capacity a"
  by (auto simp: CXLMallocOffset_def Let_def)

text \<open>A sequence of allocations, with the regions handed out (start and rounded length).\<close>

fun malloc_seq :: "nat list \<Rightarrow> NaiveAllocator \<Rightarrow> ((nat \<times> nat) list \<times> NaiveAllocator) option" where
  "malloc_seq [] a = Some ([], a)"
| "malloc_seq (n # ns) a =
    do { (off, a1) \<leftarrow> CXLMallocOffset n a;
         (rs, a2) \<leftarrow> malloc_seq ns a1;
         Some ((off, round64 n) # rs, a2) }"

definition regions_disjoint :: "nat \<times> nat \<Rightarrow> nat \<times> nat \<Rightarrow> bool" where
  "regions_disjoint r s \<longleftrightarrow> {fst r..<fst r + snd r} \<inter> {fst s..<fst s + snd s} = {}"

lemma malloc_seq_regions:
  assumes "malloc_seq ns a = Some (rs, a')"
  shows "na_offset a \<le> na_offset a'"
    and "na_capacity a' = na_capacity a"
    and "na_offset a \<le> na_capacity a \<Longrightarrow> na_offset a' \<le> na_capacity a"
    and "\<forall>r\<in>set rs. na_offset a \<le> fst r \<and> fst r + snd r \<le> na_offset a'"
    and "64 dvd na_offset a \<Longrightarrow> \<forall>r\<in>set rs. 64 dvd fst r"
    and "sorted_wrt regions_disjoint rs"
proof -
  have "na_offset a \<le> na_offset a' \<and> na_capacity a' = na_capacity a \<and>
     (na_offset a \<le> na_capacity a \<longrightarrow> na_offset a' \<le> na_capacity a) \<and>
     (\<forall>r\<in>set rs. na_offset a \<le> fst r \<and> fst r + snd r \<le> na_offset a') \<and>
     (64 dvd na_offset a \<longrightarrow> (\<forall>r\<in>set rs. 64 dvd fst r)) \<and> sorted_wrt regions_disjoint rs"
    using assms
  proof (induction ns arbitrary: a rs)
    case Nil
    then show ?case by simp
  next
    case (Cons n ns)
    from Cons.prems obtain rs1 where rs: "rs = (na_offset a, round64 n) # rs1"
      and le: "na_offset a + round64 n \<le> na_capacity a"
      and m: "malloc_seq ns (a\<lparr>na_offset := na_offset a + round64 n\<rparr>) = Some (rs1, a')"
      by (auto simp: CXLMallocOffset_Some split: bind_splits)
    note IH = Cons.IH [OF m]
    from IH have "\<forall>r\<in>set rs1. regions_disjoint (na_offset a, round64 n) r"
      by (auto simp: regions_disjoint_def)
    with IH le round64_bounds(3) [of n] show ?case
      by (fastforce simp: rs)
  qed
  then show "na_offset a \<le> na_offset a'" "na_capacity a' = na_capacity a"
    "na_offset a \<le> na_capacity a \<Longrightarrow> na_offset a' \<le> na_capacity a"
    "\<forall>r\<in>set rs. na_offset a \<le> fst r \<and> fst r + snd r \<le> na_offset a'"
    "64 dvd na_offset a \<Longrightarrow> \<forall>r\<in>set rs. 64 dvd fst r"
    "sorted_wrt regions_disjoint rs"
    by blast+
qed

section \<open>Write and read\<close>

lemma write_starts_set:
  "64 dvd sz \<Longrightarrow> set (write_starts sz) = {i. i < sz \<and> 64 dvd i}"
proof (induction sz rule: write_starts.induct)
  case (1 sz)
  show ?case
  proof (cases "sz < 64")
    case True
    with 1 show ?thesis by (auto simp: write_starts.simps)
  next
    case False
    with 1 have "set (write_starts (sz - 64)) = {i. i < sz - 64 \<and> 64 dvd i}" by simp
    moreover have "i = sz - 64 \<or> i < sz - 64 \<and> 64 dvd i \<longleftrightarrow> i < sz \<and> 64 dvd i" for i
    proof -
      from False 1(2) obtain k where "sz = 64 * k + 64"
        by (metis dvd_def le_add_diff_inverse2 linorder_not_less dvd_diff_nat dvd_refl)
      then show ?thesis by (auto elim!: dvdE)
    qed
    ultimately show ?thesis
      using False by (subst write_starts.simps) auto
  qed
qed

lemma fold_store_line:
  "fold (store_line offset data) is buf a =
    (if \<exists>i\<in>set is. offset + i \<le> a \<and> a < offset + i + 64 then data ! (a - offset) else buf a)"
  by (induction "is" arbitrary: buf) (auto simp: store_line_def)

lemma cm_Write_buf:
  assumes "cm_Write offset sz data m = Some m'" "64 dvd sz"
  shows "cm_buf m' a = (if offset \<le> a \<and> a < offset + sz then data ! (a - offset) else cm_buf m a)"
proof -
  have "(\<exists>i\<in>set (write_starts sz). offset + i \<le> a \<and> a < offset + i + 64) \<longleftrightarrow>
        offset \<le> a \<and> a < offset + sz" (is "?L = ?R")
  proof
    assume ?L
    then obtain i where "i < sz" "64 dvd i" "offset + i \<le> a" "a < offset + i + 64"
      using assms(2) by (auto simp: write_starts_set)
    moreover from \<open>i < sz\<close> \<open>64 dvd i\<close> assms(2) have "i + 64 \<le> sz"
      by (auto elim!: dvdE)
    ultimately show ?R by linarith
  next
    assume R: ?R
    define i where "i = (a - offset) div 64 * 64"
    have "64 dvd i" "offset + i \<le> a" "a < offset + i + 64" "i < sz"
      using R by (auto simp: i_def)
    with assms(2) show ?L by (auto simp: write_starts_set)
  qed
  with assms(1) show ?thesis
    by (auto simp: cm_Write_def fold_store_line split: if_splits)
qed

lemma cm_Read_Write:
  assumes "cm_Write offset sz data m = Some m'" "64 dvd sz" "length data = sz"
  shows "cm_Read offset sz m' = Some data"
proof -
  have "cm_pool_end m' = cm_pool_end m" "offset + sz \<le> cm_pool_end m"
    using assms(1) by (auto simp: cm_Write_def cm_pool_end_def split: if_splits)
  with assms show ?thesis
    by (auto simp: cm_Read_def cm_Write_buf intro!: nth_equalityI)
qed

text \<open>After any number of the stores of \<open>Write\<close> the first line is still the old one, unless all of
  them are done: a reader that validates the header in the first line never sees a partial write
  as complete.\<close>

lemma write_starts_last:
  "64 dvd sz \<Longrightarrow> 0 < sz \<Longrightarrow> k < length (write_starts sz) - 1 \<Longrightarrow> 64 \<le> write_starts sz ! k"
proof (induction sz arbitrary: k rule: write_starts.induct)
  case (1 sz)
  then have ge: "\<not> sz < 64" by (auto elim!: dvdE)
  then have ws: "write_starts sz = (sz - 64) # write_starts (sz - 64)"
    by (subst write_starts.simps) simp
  show ?case
  proof (cases "sz = 64")
    case True
    then have "write_starts sz = [0]" by (subst ws) (simp add: write_starts.simps [of 0])
    with 1(4) show ?thesis by simp
  next
    case False
    with ge 1(2) have sz: "64 \<le> sz - 64" "64 dvd sz - 64" "0 < sz - 64"
      by (auto elim!: dvdE)
    show ?thesis
    proof (cases k)
      case 0
      with sz show ?thesis by (simp add: ws)
    next
      case (Suc j)
      with 1(4) have "j < length (write_starts (sz - 64)) - 1" by (simp add: ws)
      with 1(1) [OF ge sz(2,3)] Suc show ?thesis by (simp add: ws)
    qed
  qed
qed

section \<open>Properties\<close>





end
