(* ===== verification/MetadataTypes.thy ===== *)
theory MetadataTypes
  imports Prelude
begin

text \<open>
  The data types shared by servers and clients (\<open>metadata_types.h\<close>): inodes, directory entries,
  directory entry views and remote inode changes, with the 88-byte layout of an inode as eleven
  64-bit words.  A name held in a \<open>char[64]\<close> buffer is the C string it stores, a byte list
  without the terminating zero; a constructor whose \<open>strcpy\<close> would run past the buffer gives
  \<open>None\<close>.
\<close>

section \<open>Constants\<close>

definition kMaxFilenameLen :: nat where
  "kMaxFilenameLen = 63"

definition kRootId :: u64 where
  "kRootId = 2"

definition INODE_ID_RANGE :: nat where
  "INODE_ID_RANGE = 50"

text \<open>File type bits of \<open>mode_t\<close> and the \<open>DT_\<close> codes of \<open>dirent.h\<close>.\<close>

definition S_IFMT :: u32 where "S_IFMT = 0xF000"
definition S_IFSOCK :: u32 where "S_IFSOCK = 0xC000"
definition S_IFLNK :: u32 where "S_IFLNK = 0xA000"
definition S_IFREG :: u32 where "S_IFREG = 0x8000"
definition S_IFBLK :: u32 where "S_IFBLK = 0x6000"
definition S_IFDIR :: u32 where "S_IFDIR = 0x4000"
definition S_IFCHR :: u32 where "S_IFCHR = 0x2000"
definition S_IFIFO :: u32 where "S_IFIFO = 0x1000"

lemmas mode_consts =
  S_IFMT_def S_IFSOCK_def S_IFLNK_def S_IFREG_def S_IFBLK_def S_IFDIR_def S_IFCHR_def S_IFIFO_def

definition S_ISDIR :: "u32 \<Rightarrow> bool" where "S_ISDIR m \<longleftrightarrow> m AND S_IFMT = S_IFDIR"
definition S_ISREG :: "u32 \<Rightarrow> bool" where "S_ISREG m \<longleftrightarrow> m AND S_IFMT = S_IFREG"

definition DT_UNKNOWN :: u8 where "DT_UNKNOWN = 0"
definition DT_FIFO :: u8 where "DT_FIFO = 1"
definition DT_CHR :: u8 where "DT_CHR = 2"
definition DT_DIR :: u8 where "DT_DIR = 4"
definition DT_BLK :: u8 where "DT_BLK = 6"
definition DT_REG :: u8 where "DT_REG = 8"
definition DT_LNK :: u8 where "DT_LNK = 10"
definition DT_SOCK :: u8 where "DT_SOCK = 12"

lemmas dt_consts =
  DT_UNKNOWN_def DT_FIFO_def DT_CHR_def DT_DIR_def DT_BLK_def DT_REG_def DT_LNK_def DT_SOCK_def

definition InodeModeToDirentType :: "u32 \<Rightarrow> u8" where
  "InodeModeToDirentType mode =
    (let t = mode AND S_IFMT in
     if t = S_IFDIR then DT_DIR
     else if t = S_IFREG then DT_REG
     else if t = S_IFLNK then DT_LNK
     else if t = S_IFCHR then DT_CHR
     else if t = S_IFBLK then DT_BLK
     else if t = S_IFIFO then DT_FIFO
     else if t = S_IFSOCK then DT_SOCK
     else DT_UNKNOWN)"

section \<open>Structures\<close>

datatype RemoteInodeChangeOp =
    kRemoteInodeNoop | kRemoteInodeUnlink | kRemoteInodeLink | kRemoteInodeSetattr
  | kRemoteInodeTouchCtime | kRemoteParentBlocksDelta

record RemoteInodeChange =
  ric_op :: RemoteInodeChangeOp
  ric_inode_id :: u64
  ric_value :: int
  ric_version :: u64

record Inode =
  i_id :: u64
  i_nlink :: u64
  i_mode :: u32
  i_extra :: u32
  i_uid :: u32
  i_gid :: u32
  i_rdev :: u64
  i_size :: u64
  i_blksize :: u64
  i_blocks :: u64
  i_atime :: u64
  i_mtime :: u64
  i_ctime :: u64

text \<open>The constructor with \<open>size = 0\<close> and \<open>blocks = 0\<close>, as every caller uses it.\<close>

definition Inode_new ::
  "u64 \<Rightarrow> u64 \<Rightarrow> u32 \<Rightarrow> u32 \<Rightarrow> u32 \<Rightarrow> u64 \<Rightarrow> u64 \<Rightarrow> u64 \<Rightarrow> Inode" where
  "Inode_new ino nlink mode uid gid atime mtime ctime =
    \<lparr>i_id = ino, i_nlink = nlink, i_mode = mode, i_extra = 0, i_uid = uid, i_gid = gid,
     i_rdev = 0, i_size = 0, i_blksize = 0, i_blocks = 0,
     i_atime = atime, i_mtime = mtime, i_ctime = ctime\<rparr>"

definition Inode_zero :: Inode where
  "Inode_zero = Inode_new 0 0 0 0 0 0 0 0"

definition Inode_Clear :: "Inode \<Rightarrow> Inode" where
  "Inode_Clear i = i\<lparr>i_id := 0\<rparr>"

text \<open>The memory layout: two 32-bit fields share a word, the lower-addressed one in the low half.\<close>

definition pair32 :: "u32 \<Rightarrow> u32 \<Rightarrow> u64" where
  "pair32 lo hi = ucast lo OR push_bit 32 (ucast hi)"

definition inode_words :: "Inode \<Rightarrow> u64 list" where
  "inode_words i =
    [i_id i, i_nlink i, pair32 (i_mode i) (i_extra i), pair32 (i_uid i) (i_gid i),
     i_rdev i, i_size i, i_blksize i, i_blocks i, i_atime i, i_mtime i, i_ctime i]"

definition words_inode :: "u64 list \<Rightarrow> Inode" where
  "words_inode ws =
    \<lparr>i_id = ws ! 0, i_nlink = ws ! 1,
     i_mode = ucast (ws ! 2), i_extra = ucast (drop_bit 32 (ws ! 2)),
     i_uid = ucast (ws ! 3), i_gid = ucast (drop_bit 32 (ws ! 3)),
     i_rdev = ws ! 4, i_size = ws ! 5, i_blksize = ws ! 6, i_blocks = ws ! 7,
     i_atime = ws ! 8, i_mtime = ws ! 9, i_ctime = ws ! 10\<rparr>"

record Dirent =
  d_id :: u64
  d_pid :: u64
  d_reclen :: u16
  d_type :: u8
  d_name :: cstring

definition Dirent_new :: "u64 \<Rightarrow> u64 \<Rightarrow> u16 \<Rightarrow> cstring \<Rightarrow> Dirent option" where
  "Dirent_new ino pid ty name =
    (if length name > kMaxFilenameLen then None
     else Some \<lparr>d_id = ino, d_pid = pid, d_reclen = of_nat (19 + length name + 1),
                d_type = ucast ty, d_name = name\<rparr>)"

definition Dirent_zero :: Dirent where
  "Dirent_zero = \<lparr>d_id = 0, d_pid = 0, d_reclen = 0, d_type = 0, d_name = []\<rparr>"

definition Dirent_SetRecLen :: "Dirent \<Rightarrow> Dirent" where
  "Dirent_SetRecLen d = d\<lparr>d_reclen := of_nat (19 + length (d_name d) + 1)\<rparr>"

definition Dirent_Clear :: "Dirent \<Rightarrow> Dirent" where
  "Dirent_Clear d = d\<lparr>d_id := 0\<rparr>"

record DirHandle =
  dh_id :: u64
  dh_read_cutoff_version :: u64

record DentView =
  dv_id :: u64
  dv_pid :: u64
  dv_version :: u64
  dv_reclen :: u16
  dv_type :: u8
  dv_flags :: u8
  dv_name :: cstring

definition kFlagTombstone :: u8 where
  "kFlagTombstone = 1"

definition DentView_new ::
  "u64 \<Rightarrow> u64 \<Rightarrow> u64 \<Rightarrow> u16 \<Rightarrow> cstring \<Rightarrow> u8 \<Rightarrow> DentView option" where
  "DentView_new ino pid version ty name flags =
    (if length name > kMaxFilenameLen then None
     else Some \<lparr>dv_id = ino, dv_pid = pid, dv_version = version,
                dv_reclen = of_nat (28 + length name + 1),
                dv_type = ucast ty, dv_flags = flags, dv_name = name\<rparr>)"

definition DentView_IsDeleted :: "DentView \<Rightarrow> bool" where
  "DentView_IsDeleted v \<longleftrightarrow> dv_flags v AND kFlagTombstone \<noteq> 0"

section \<open>Ownership of inode ids\<close>

definition OwnerMetaForInode :: "u64 \<Rightarrow> nat" where
  "OwnerMetaForInode inode_id = unat (drop_bit INODE_ID_RANGE inode_id)"

section \<open>Lemmas\<close>

lemma pair32_parts [simp]:
  "ucast (pair32 lo hi) = lo" "ucast (drop_bit 32 (pair32 lo hi)) = hi"
  unfolding pair32_def
  by (rule bit_word_eqI, auto simp: bit_simps dest: bit_imp_le_length)+

lemma length_inode_words [simp]: "length (inode_words i) = 11"
  by (simp add: inode_words_def)

lemma words_inode_words [simp]: "words_inode (inode_words i) = i"
  by (simp add: words_inode_def inode_words_def)

lemma InodeModeToDirentType_dir [simp]: "InodeModeToDirentType m = DT_DIR \<longleftrightarrow> S_ISDIR m"
  by (simp add: InodeModeToDirentType_def Let_def S_ISDIR_def dt_consts)

lemma OwnerMetaForInode_eq: "OwnerMetaForInode i = unat i div 2 ^ 50"
  by (simp add: OwnerMetaForInode_def INODE_ID_RANGE_def unat_drop_bit)

end
