(* ===== verification/CompactWAL.thy ===== *)
theory CompactWAL
  imports MetadataTypes CxlMem
begin

text \<open>
  The compact write-ahead log (\<open>compact_wal.h\<close> and the \<open>Log\<close> and \<open>Extract\<close> helpers of
  \<open>cxl_persistence.cc\<close> and \<open>metadata.cc\<close>): the 64-byte entry and its byte layout, the overflow
  continuation slots of long names, the ring with its head and checkpoint positions, and the hybrid
  logical clock that stamps the entries.  Ring positions are natural numbers (the 64-bit counters
  only grow, by one per slot), the clock state and the versions are 64-bit words.  The compare-and-swap
  loops are modelled by the iteration that succeeds: the values it writes are a function of the
  value it found.  The clock reading is an argument.
\<close>

section \<open>Entries\<close>

datatype WALOp = kWALNoop | kWALCreate | kWALUnlink | kWALRename | kWALSetattr | kWALLink

fun walop_code :: "WALOp \<Rightarrow> u8" where
  "walop_code kWALNoop = 0"
| "walop_code kWALCreate = 1"
| "walop_code kWALUnlink = 2"
| "walop_code kWALRename = 3"
| "walop_code kWALSetattr = 4"
| "walop_code kWALLink = 5"

definition kContinuationDataMax :: nat where
  "kContinuationDataMax = 56"

definition kMaxContinuationSlots :: nat where
  "kMaxContinuationSlots = 3"

record CompactLogEntry =
  cle_seq :: u32
  cle_op :: u8
  cle_flags :: u8
  cle_name_len :: u8
  cle_aux_len :: u8
  cle_version :: u64
  cle_inode_id :: u64
  cle_parent_id :: u64
  cle_aux :: u64
  cle_mode :: u32
  cle_name :: "byte list"

definition kInlineMax :: nat where "kInlineMax = 20"
definition kSeqReadyMask :: u32 where "kSeqReadyMask = push_bit 31 1"
definition kSeqContShift :: nat where "kSeqContShift = 29"
definition kSeqContMask :: u32 where "kSeqContMask = push_bit 29 3"
definition kSeqLocalMask :: u32 where "kSeqLocalMask = push_bit 29 1 - 1"
definition kVersionMetaBits :: nat where "kVersionMetaBits = 8"
definition kVersionLogicalBits :: nat where "kVersionLogicalBits = 14"
definition kVersionPhysicalShift :: nat where
  "kVersionPhysicalShift = kVersionMetaBits + kVersionLogicalBits"

lemmas seq_consts = kSeqReadyMask_def kSeqContShift_def kSeqContMask_def kSeqLocalMask_def
lemmas version_consts = kVersionMetaBits_def kVersionLogicalBits_def kVersionPhysicalShift_def

definition entry_zero :: CompactLogEntry where
  "entry_zero =
    \<lparr>cle_seq = 0, cle_op = 0, cle_flags = 0, cle_name_len = 0, cle_aux_len = 0, cle_version = 0,
     cle_inode_id = 0, cle_parent_id = 0, cle_aux = 0, cle_mode = 0, cle_name = replicate 20 0\<rparr>"

definition seq_ready :: "u32 \<Rightarrow> bool" where
  "seq_ready s \<longleftrightarrow> s AND kSeqReadyMask \<noteq> 0"

definition IsReady :: "CompactLogEntry \<Rightarrow> bool" where
  "IsReady e = seq_ready (cle_seq e)"

definition ContCount :: "CompactLogEntry \<Rightarrow> nat" where
  "ContCount e = unat (ucast (drop_bit kSeqContShift (cle_seq e AND kSeqContMask)) :: u8)"

definition LocalSeq :: "CompactLogEntry \<Rightarrow> u32" where
  "LocalSeq e = cle_seq e AND kSeqLocalMask"

definition SlotCount :: "CompactLogEntry \<Rightarrow> nat" where
  "SlotCount e = 1 + ContCount e"

definition EncodeSeq :: "u32 \<Rightarrow> u8 \<Rightarrow> u32" where
  "EncodeSeq local_seq cont_count =
     kSeqReadyMask OR push_bit kSeqContShift (ucast cont_count) OR local_seq"

definition PackVersion :: "u64 \<Rightarrow> u16 \<Rightarrow> u8 \<Rightarrow> u64" where
  "PackVersion physical_ms logical meta_id =
     push_bit kVersionPhysicalShift physical_ms OR
     push_bit kVersionMetaBits (ucast logical) OR ucast meta_id"

definition VersionPhysicalMs :: "u64 \<Rightarrow> u64" where
  "VersionPhysicalMs version = drop_bit kVersionPhysicalShift version"

definition VersionSeconds :: "u64 \<Rightarrow> u64" where
  "VersionSeconds version = VersionPhysicalMs version div 1000"

definition PackCreateAux :: "u32 \<Rightarrow> u32 \<Rightarrow> u64" where
  "PackCreateAux uid gid = push_bit 32 (ucast uid) OR ucast gid"

definition GetUid :: "CompactLogEntry \<Rightarrow> u32" where
  "GetUid e = ucast (drop_bit 32 (cle_aux e))"

definition GetGid :: "CompactLogEntry \<Rightarrow> u32" where
  "GetGid e = ucast (cle_aux e)"

definition GetNewParent :: "CompactLogEntry \<Rightarrow> u64" where
  "GetNewParent e = (if cle_op e = walop_code kWALLink then cle_parent_id e else cle_aux e)"

definition GetDirentType :: "CompactLogEntry \<Rightarrow> u8" where
  "GetDirentType e =
    (if cle_op e = walop_code kWALCreate then cle_aux_len e
     else if cle_op e = walop_code kWALRename \<or> cle_op e = walop_code kWALLink
       then ucast (cle_mode e AND 0xff)
     else DT_UNKNOWN)"

text \<open>\<open>memcpy\<close> of the first bytes of a name into a zeroed buffer.\<close>

definition zpad :: "nat \<Rightarrow> byte list \<Rightarrow> byte list" where
  "zpad n bs = bs @ replicate (n - length bs) 0"

definition inline_part :: "cstring \<Rightarrow> u8 \<Rightarrow> byte list" where
  "inline_part name name_len = zpad 20 (take (min (unat name_len) kInlineMax) name)"

definition MakeCreate ::
  "u64 \<Rightarrow> u64 \<Rightarrow> u32 \<Rightarrow> u32 \<Rightarrow> u32 \<Rightarrow> u8 \<Rightarrow> cstring \<Rightarrow> u8 \<Rightarrow> CompactLogEntry" where
  "MakeCreate inode_id parent_id mode uid gid ty name name_len = entry_zero
    \<lparr>cle_op := walop_code kWALCreate, cle_inode_id := inode_id, cle_parent_id := parent_id,
     cle_mode := mode, cle_aux := PackCreateAux uid gid, cle_aux_len := ty,
     cle_name_len := name_len, cle_name := inline_part name name_len\<rparr>"

definition MakeUnlink :: "u64 \<Rightarrow> u64 \<Rightarrow> cstring \<Rightarrow> u8 \<Rightarrow> CompactLogEntry" where
  "MakeUnlink inode_id parent_id name name_len = entry_zero
    \<lparr>cle_op := walop_code kWALUnlink, cle_inode_id := inode_id, cle_parent_id := parent_id,
     cle_name_len := name_len, cle_name := inline_part name name_len\<rparr>"

definition MakeSetattr :: "u64 \<Rightarrow> u32 \<Rightarrow> CompactLogEntry" where
  "MakeSetattr inode_id mode = entry_zero
    \<lparr>cle_op := walop_code kWALSetattr, cle_inode_id := inode_id, cle_mode := mode\<rparr>"

definition MakeRename ::
  "u64 \<Rightarrow> u64 \<Rightarrow> u64 \<Rightarrow> cstring \<Rightarrow> u8 \<Rightarrow> cstring \<Rightarrow> u8 \<Rightarrow> u8 \<Rightarrow> CompactLogEntry" where
  "MakeRename inode_id old_parent new_parent old_name old_len new_name new_len ty =
    (let old_inline = min (unat old_len) kInlineMax;
         remaining = kInlineMax - old_inline;
         new_part = (if remaining > 0 \<and> new_len > 0
                     then take (min (unat new_len) remaining) new_name else [])
     in entry_zero
      \<lparr>cle_op := walop_code kWALRename, cle_inode_id := inode_id, cle_parent_id := old_parent,
       cle_aux := new_parent, cle_mode := ucast ty, cle_name_len := old_len, cle_aux_len := new_len,
       cle_name := zpad 20 (take old_inline old_name @ new_part)\<rparr>)"

definition MakeLink :: "u64 \<Rightarrow> u64 \<Rightarrow> cstring \<Rightarrow> u8 \<Rightarrow> u8 \<Rightarrow> CompactLogEntry" where
  "MakeLink inode_id new_parent new_name new_len ty = entry_zero
    \<lparr>cle_op := walop_code kWALLink, cle_inode_id := inode_id, cle_parent_id := new_parent,
     cle_mode := ucast ty, cle_name_len := new_len, cle_name := inline_part new_name new_len\<rparr>"

definition BuildOverflow :: "cstring \<Rightarrow> u8 \<Rightarrow> byte list" where
  "BuildOverflow name name_len =
    (if unat name_len \<le> kInlineMax then []
     else take (unat name_len - kInlineMax) (drop kInlineMax name))"

definition BuildRenameOverflow :: "cstring \<Rightarrow> u8 \<Rightarrow> cstring \<Rightarrow> u8 \<Rightarrow> byte list" where
  "BuildRenameOverflow old_name old_len new_name new_len =
    (let total = unat old_len + unat new_len in
     if total \<le> kInlineMax then []
     else let concat = take (unat old_len) old_name @ take (unat new_len) new_name
          in take (total - kInlineMax) (drop kInlineMax concat))"

record CompactLogOverflow =
  ov_magic :: u32
  ov_parent_seq :: u32
  ov_data :: "byte list"

definition kOverflowMagic :: u32 where
  "kOverflowMagic = 0x4F564652"

definition ov_IsValid :: "CompactLogOverflow \<Rightarrow> u32 \<Rightarrow> bool" where
  "ov_IsValid ov expected_local_seq \<longleftrightarrow>
     ov_magic ov = kOverflowMagic \<and> ov_parent_seq ov = expected_local_seq"

section \<open>Byte layout of a ring slot\<close>

definition entry_bytes :: "CompactLogEntry \<Rightarrow> byte list" where
  "entry_bytes e =
     le_bytes 4 (cle_seq e) @ [cle_op e, cle_flags e, cle_name_len e, cle_aux_len e] @
     le_bytes 8 (cle_version e) @ le_bytes 8 (cle_inode_id e) @ le_bytes 8 (cle_parent_id e) @
     le_bytes 8 (cle_aux e) @ le_bytes 4 (cle_mode e) @ cle_name e"

definition bytes_entry :: "byte list \<Rightarrow> CompactLogEntry" where
  "bytes_entry bs =
    \<lparr>cle_seq = le_word (take 4 bs), cle_op = bs ! 4, cle_flags = bs ! 5, cle_name_len = bs ! 6,
     cle_aux_len = bs ! 7, cle_version = le_word (take 8 (drop 8 bs)),
     cle_inode_id = le_word (take 8 (drop 16 bs)), cle_parent_id = le_word (take 8 (drop 24 bs)),
     cle_aux = le_word (take 8 (drop 32 bs)), cle_mode = le_word (take 4 (drop 40 bs)),
     cle_name = take 20 (drop 44 bs)\<rparr>"

definition overflow_bytes :: "CompactLogOverflow \<Rightarrow> byte list" where
  "overflow_bytes ov = le_bytes 4 (ov_magic ov) @ le_bytes 4 (ov_parent_seq ov) @ ov_data ov"

definition bytes_overflow :: "byte list \<Rightarrow> CompactLogOverflow" where
  "bytes_overflow bs =
    \<lparr>ov_magic = le_word (take 4 bs), ov_parent_seq = le_word (take 4 (drop 4 bs)),
     ov_data = take 56 (drop 8 bs)\<rparr>"

section \<open>The ring\<close>

record CompactWAL =
  wal_capacity :: nat
  wal_ring :: "nat \<Rightarrow> byte list"
  wal_head :: nat
  wal_checkpoint_pos :: nat
  wal_local_seq :: u32
  wal_hlc_state :: u64
  wal_mds_id :: nat

text \<open>The thread-local pending version and whether its owner is this log.\<close>

record wal_tls =
  tls_owner :: bool
  tls_version :: u64

definition slot_zero :: "byte list" where
  "slot_zero = replicate 64 0"

text \<open>\<open>Init\<close>: the ring is taken from the CXL-SSD DRAM region, which the server with number 0 zeroes
  before use; \<open>None\<close> is the return value \<open>-1\<close>.\<close>

definition wal_Init ::
  "CXLSSDDramHeader \<Rightarrow> nat \<Rightarrow> nat \<Rightarrow> CompactWAL option \<times> CXLSSDDramHeader" where
  "wal_Init ssd capacity_entries mds_id =
    (case DramAlloc (of_nat (capacity_entries * 64)) 64 ssd of
       (None, ssd') \<Rightarrow> (None, ssd')
     | (Some ring_dram_offset, ssd') \<Rightarrow>
        (Some \<lparr>wal_capacity = capacity_entries, wal_ring = (\<lambda>_. slot_zero), wal_head = 0,
               wal_checkpoint_pos = 0, wal_local_seq = 1, wal_hlc_state = 0,
               wal_mds_id = mds_id\<rparr>, ssd'))"

text \<open>A fresh log, as \<open>Init\<close> leaves it.\<close>

definition empty_wal :: "nat \<Rightarrow> nat \<Rightarrow> CompactWAL" where
  "empty_wal k mds_id =
     \<lparr>wal_capacity = 2 ^ k, wal_ring = (\<lambda>_. slot_zero), wal_head = 0, wal_checkpoint_pos = 0,
      wal_local_seq = 1, wal_hlc_state = 0, wal_mds_id = mds_id\<rparr>"

definition no_tls :: wal_tls where
  "no_tls = \<lparr>tls_owner = False, tls_version = 0\<rparr>"

definition ring_index :: "CompactWAL \<Rightarrow> nat \<Rightarrow> nat" where
  "ring_index w pos = pos AND (wal_capacity w - 1)"

definition wal_DramWrite :: "nat \<Rightarrow> byte list \<Rightarrow> CompactWAL \<Rightarrow> CompactWAL" where
  "wal_DramWrite slot_pos data w =
     w\<lparr>wal_ring := (wal_ring w)(ring_index w slot_pos := data)\<rparr>"

definition wal_At :: "CompactWAL \<Rightarrow> nat \<Rightarrow> CompactLogEntry" where
  "wal_At w pos = bytes_entry (wal_ring w (ring_index w pos))"

definition wal_OverflowAt :: "CompactWAL \<Rightarrow> nat \<Rightarrow> CompactLogOverflow" where
  "wal_OverflowAt w pos = bytes_overflow (wal_ring w (ring_index w pos))"

text \<open>\<open>None\<close> is the return value \<open>UINT64_MAX\<close>.\<close>

definition TryReserveSlots :: "nat \<Rightarrow> CompactWAL \<Rightarrow> nat option \<times> CompactWAL" where
  "TryReserveSlots slots_needed w =
    (let cur_head = wal_head w; cp = wal_checkpoint_pos w in
     if cur_head + slots_needed - cp \<ge> wal_capacity w then (None, w)
     else (Some cur_head, w\<lparr>wal_head := cur_head + slots_needed\<rparr>))"

function alloc_seq_loop :: "u32 \<Rightarrow> u32 \<times> u32" where
  "alloc_seq_loop counter =
    (let sq = counter AND kSeqLocalMask in
     if sq \<noteq> 0 then (sq, counter + 1) else alloc_seq_loop (counter + 1))"
  by pat_completeness auto

definition pending_logical :: "u64 \<Rightarrow> u16" where
  "pending_logical state = ucast (state AND (push_bit kVersionLogicalBits 1 - 1))"

definition MergeAndTick :: "u64 \<Rightarrow> u64 \<Rightarrow> CompactWAL \<Rightarrow> u64 \<times> CompactWAL" where
  "MergeAndTick now_ms observed_version w =
    (let old = wal_hlc_state w;
         old_physical = drop_bit kVersionLogicalBits old;
         old_logical = pending_logical old;
         observed_state = drop_bit kVersionMetaBits observed_version;
         observed_physical = drop_bit kVersionLogicalBits observed_state;
         observed_logical = pending_logical observed_state;
         (base_physical, base_logical) =
           (if observed_physical > old_physical \<or>
               (observed_physical = old_physical \<and> observed_logical > old_logical)
            then (observed_physical, observed_logical) else (old_physical, old_logical));
         next0 = max now_ms base_physical;
         (next_physical, next_logical) =
           (if next0 = base_physical
            then if base_logical = push_bit kVersionLogicalBits 1 - 1
                 then (base_physical + 1, 0) else (next0, base_logical + 1)
            else (next0, 0));
         next_state = push_bit kVersionLogicalBits next_physical OR ucast next_logical
     in (PackVersion next_physical next_logical (of_nat (wal_mds_id w)),
         w\<lparr>wal_hlc_state := next_state\<rparr>))"

definition BeginOperation :: "u64 \<Rightarrow> u64 \<Rightarrow> CompactWAL \<Rightarrow> u64 \<times> wal_tls \<times> CompactWAL" where
  "BeginOperation now observed_version w =
    (let (version, w') = MergeAndTick now observed_version w
     in (version, \<lparr>tls_owner = True, tls_version = version\<rparr>, w'))"

definition EndOperation :: "wal_tls \<Rightarrow> wal_tls" where
  "EndOperation t = (if tls_owner t then \<lparr>tls_owner = False, tls_version = 0\<rparr> else t)"

definition ObserveVersion :: "u64 \<Rightarrow> CompactWAL \<Rightarrow> CompactWAL" where
  "ObserveVersion version w =
    (if version = 0 then w
     else let observed = drop_bit kVersionMetaBits version in
       if observed > wal_hlc_state w then w\<lparr>wal_hlc_state := observed\<rparr> else w)"

definition CurrentVersion :: "wal_tls \<Rightarrow> CompactWAL \<Rightarrow> u64" where
  "CurrentVersion t w =
    (if tls_owner t \<and> tls_version t \<noteq> 0 then tls_version t
     else if wal_hlc_state w = 0 then 0
     else PackVersion (drop_bit kVersionLogicalBits (wal_hlc_state w))
            (pending_logical (wal_hlc_state w)) (of_nat (wal_mds_id w)))"

definition NextVersion :: "u64 \<Rightarrow> wal_tls \<Rightarrow> CompactWAL \<Rightarrow> u64 \<times> wal_tls \<times> CompactWAL" where
  "NextVersion now t w =
    (if tls_owner t \<and> tls_version t \<noteq> 0
     then (tls_version t, t\<lparr>tls_version := 0\<rparr>, w)
     else let (version, w') = MergeAndTick now 0 w in (version, t, w'))"

text \<open>A counter whose low 29 bits are zero is followed by one whose low bits are 1, so the loop of
  \<open>AllocLocalSeq\<close> runs at most twice.\<close>

lemma local_mask_bits: "kSeqLocalMask = mask 29"
  by (simp add: kSeqLocalMask_def mask_eq_exp_minus_1)

lemma and_local_mask: "unat (c AND kSeqLocalMask) = unat c mod 2 ^ 29"
  unfolding local_mask_bits take_bit_eq_mask [symmetric]
  by (simp only: unsigned_take_bit_eq take_bit_eq_mod [where 'a = nat])

lemma seq_next_nonzero:
  assumes "c AND kSeqLocalMask = 0"
  shows "(c + 1) AND kSeqLocalMask \<noteq> 0"
proof
  assume "(c + 1) AND kSeqLocalMask = 0"
  then have 1: "unat (c + 1) mod 2 ^ 29 = 0"
    by (simp only: unsigned_0 flip: and_local_mask)
  have 2: "unat c mod 2 ^ 29 = 0"
    using assms by (simp only: unsigned_0 flip: and_local_mask)
  have "unat (c + 1) mod 2 ^ 29 = Suc (unat c) mod 2 ^ 29"
    by (simp add: unat_word_ariths mod_mod_cancel)
  with 1 2 show False by (simp add: mod_Suc)
qed
termination alloc_seq_loop
  by (relation "measure (\<lambda>c. if c AND kSeqLocalMask = 0 then 1 else 0)")
     (auto simp: seq_next_nonzero)

declare alloc_seq_loop.simps [simp del]

definition AllocLocalSeq :: "CompactWAL \<Rightarrow> u32 \<times> CompactWAL" where
  "AllocLocalSeq w =
    (let (sq, c') = alloc_seq_loop (wal_local_seq w) in (sq, w\<lparr>wal_local_seq := c'\<rparr>))"

text \<open>\<open>Append\<close> and \<open>AppendWithOverflow\<close> return the sequence word, 0 when the ring is full.\<close>

definition wal_Append ::
  "u64 \<Rightarrow> CompactLogEntry \<Rightarrow> wal_tls \<Rightarrow> CompactWAL \<Rightarrow> u32 \<times> wal_tls \<times> CompactWAL" where
  "wal_Append now entry t w =
    (case TryReserveSlots 1 w of
       (None, w1) \<Rightarrow> (0, t, w1)
     | (Some pos, w1) \<Rightarrow>
        let (local_seq, w2) = AllocLocalSeq w1;
            (version, t', w3) = NextVersion now t w2;
            entry' = entry\<lparr>cle_seq := EncodeSeq local_seq 0, cle_version := version\<rparr>
        in (cle_seq entry', t', wal_DramWrite pos (entry_bytes entry') w3))"

definition cont_slots :: "nat \<Rightarrow> nat" where
  "cont_slots overflow_len = (overflow_len + kContinuationDataMax - 1) div kContinuationDataMax"

definition cont_slot :: "u32 \<Rightarrow> byte list \<Rightarrow> nat \<Rightarrow> byte list" where
  "cont_slot local_seq overflow_data i = overflow_bytes
    \<lparr>ov_magic = kOverflowMagic, ov_parent_seq = local_seq,
     ov_data = zpad 56 (take (min (length overflow_data - i * kContinuationDataMax) kContinuationDataMax)
                             (drop (i * kContinuationDataMax) overflow_data))\<rparr>"

text \<open>The loop \<open>for (int i = cont_count - 1; i >= 0; --i)\<close>.\<close>

fun write_conts :: "u32 \<Rightarrow> byte list \<Rightarrow> nat \<Rightarrow> nat \<Rightarrow> CompactWAL \<Rightarrow> CompactWAL" where
  "write_conts local_seq data pos 0 w = w"
| "write_conts local_seq data pos (Suc i) w =
     write_conts local_seq data pos i (wal_DramWrite (pos + 1 + i) (cont_slot local_seq data i) w)"

definition wal_AppendWithOverflow ::
  "u64 \<Rightarrow> CompactLogEntry \<Rightarrow> byte list \<Rightarrow> wal_tls \<Rightarrow> CompactWAL \<Rightarrow> u32 \<times> wal_tls \<times> CompactWAL" where
  "wal_AppendWithOverflow now entry overflow_data t w =
    (let cont_count = cont_slots (length overflow_data) in
     case TryReserveSlots (1 + cont_count) w of
       (None, w1) \<Rightarrow> (0, t, w1)
     | (Some pos, w1) \<Rightarrow>
        let (local_seq, w2) = AllocLocalSeq w1;
            (version, t', w3) = NextVersion now t w2;
            w4 = write_conts local_seq overflow_data pos cont_count w3;
            entry' = entry\<lparr>cle_seq := EncodeSeq local_seq (of_nat cont_count),
                           cle_version := version\<rparr>
        in (cle_seq entry', t', wal_DramWrite pos (entry_bytes entry') w4))"

fun ClearRange_loop :: "nat \<Rightarrow> nat \<Rightarrow> CompactWAL \<Rightarrow> CompactWAL" where
  "ClearRange_loop pos 0 w = w"
| "ClearRange_loop pos (Suc n) w = ClearRange_loop (Suc pos) n (wal_DramWrite pos slot_zero w)"

definition ClearRange :: "nat \<Rightarrow> nat \<Rightarrow> CompactWAL \<Rightarrow> CompactWAL" where
  "ClearRange begin_pos end_pos w = ClearRange_loop begin_pos (end_pos - begin_pos) w"

definition AdvanceCheckpoint :: "nat \<Rightarrow> CompactWAL \<Rightarrow> CompactWAL" where
  "AdvanceCheckpoint new_pos w = w\<lparr>wal_checkpoint_pos := new_pos\<rparr>"

section \<open>Logging an operation and reading its names back\<close>

text \<open>The overflow buffer of the \<open>Log\<close> functions has 168 bytes and the concatenation buffer of
  \<open>BuildRenameOverflow\<close> 128; a longer name is written past them (\<open>None\<close>).\<close>

definition append_entry ::
  "u64 \<Rightarrow> CompactLogEntry \<Rightarrow> byte list \<Rightarrow> wal_tls \<Rightarrow> CompactWAL \<Rightarrow>
    (u32 \<times> wal_tls \<times> CompactWAL) option" where
  "append_entry now entry overflow t w =
    (if length overflow > kContinuationDataMax * kMaxContinuationSlots then None
     else if length overflow = 0 then Some (wal_Append now entry t w)
     else Some (wal_AppendWithOverflow now entry overflow t w))"

definition LogCreate ::
  "u64 \<Rightarrow> u64 \<Rightarrow> u64 \<Rightarrow> u32 \<Rightarrow> u32 \<Rightarrow> u32 \<Rightarrow> u8 \<Rightarrow> cstring \<Rightarrow> u8 \<Rightarrow> wal_tls \<Rightarrow> CompactWAL \<Rightarrow>
    (u32 \<times> wal_tls \<times> CompactWAL) option" where
  "LogCreate now inode_id parent_id mode uid gid ty name name_len t w =
     append_entry now (MakeCreate inode_id parent_id mode uid gid ty name name_len)
       (BuildOverflow name name_len) t w"

definition LogUnlink ::
  "u64 \<Rightarrow> u64 \<Rightarrow> u64 \<Rightarrow> cstring \<Rightarrow> u8 \<Rightarrow> wal_tls \<Rightarrow> CompactWAL \<Rightarrow>
    (u32 \<times> wal_tls \<times> CompactWAL) option" where
  "LogUnlink now inode_id parent_id name name_len t w =
     append_entry now (MakeUnlink inode_id parent_id name name_len) (BuildOverflow name name_len) t w"

definition LogRename ::
  "u64 \<Rightarrow> u64 \<Rightarrow> u64 \<Rightarrow> u64 \<Rightarrow> cstring \<Rightarrow> u8 \<Rightarrow> cstring \<Rightarrow> u8 \<Rightarrow> u8 \<Rightarrow> wal_tls \<Rightarrow> CompactWAL \<Rightarrow>
    (u32 \<times> wal_tls \<times> CompactWAL) option" where
  "LogRename now inode_id old_parent new_parent old_name old_len new_name new_len ty t w =
    (if unat old_len + unat new_len > 128 then None
     else append_entry now
       (MakeRename inode_id old_parent new_parent old_name old_len new_name new_len ty)
       (BuildRenameOverflow old_name old_len new_name new_len) t w)"

definition LogSetattr ::
  "u64 \<Rightarrow> u64 \<Rightarrow> u32 \<Rightarrow> wal_tls \<Rightarrow> CompactWAL \<Rightarrow> u32 \<times> wal_tls \<times> CompactWAL" where
  "LogSetattr now inode_id mode t w = wal_Append now (MakeSetattr inode_id mode) t w"

definition LogLink ::
  "u64 \<Rightarrow> u64 \<Rightarrow> u64 \<Rightarrow> cstring \<Rightarrow> u8 \<Rightarrow> u8 \<Rightarrow> wal_tls \<Rightarrow> CompactWAL \<Rightarrow>
    (u32 \<times> wal_tls \<times> CompactWAL) option" where
  "LogLink now inode_id new_parent new_name new_len ty t w =
     append_entry now (MakeLink inode_id new_parent new_name new_len ty)
       (BuildOverflow new_name new_len) t w"

text \<open>The loop \<open>for (i = 0; i < ContCount() && remaining > 0; ++i)\<close> of the extraction functions;
  the first argument counts the continuation slots left.\<close>

fun extract_conts :: "nat \<Rightarrow> CompactWAL \<Rightarrow> nat \<Rightarrow> nat \<Rightarrow> nat \<Rightarrow> byte list" where
  "extract_conts 0 w pos i remaining = []"
| "extract_conts (Suc n) w pos i remaining =
    (if remaining = 0 then []
     else let copy_len = min remaining kContinuationDataMax in
       take copy_len (ov_data (wal_OverflowAt w (pos + 1 + i))) @
       extract_conts n w pos (Suc i) (remaining - copy_len))"

definition extract_payload :: "nat \<Rightarrow> CompactLogEntry \<Rightarrow> CompactWAL \<Rightarrow> nat \<Rightarrow> byte list" where
  "extract_payload len entry w pos =
    (let inline_len = min len kInlineMax in
     zpad len (take inline_len (cle_name entry) @
       extract_conts (ContCount entry) w pos 0 (len - inline_len)))"

definition ExtractWalName :: "CompactLogEntry \<Rightarrow> CompactWAL \<Rightarrow> nat \<Rightarrow> byte list" where
  "ExtractWalName entry w pos = extract_payload (unat (cle_name_len entry)) entry w pos"

definition ExtractWalRenameNames ::
  "CompactLogEntry \<Rightarrow> CompactWAL \<Rightarrow> nat \<Rightarrow> byte list \<times> byte list" where
  "ExtractWalRenameNames entry w pos =
    (let old_len = unat (cle_name_len entry); new_len = unat (cle_aux_len entry);
         full = extract_payload (old_len + new_len) entry w pos
     in (take old_len full, take new_len (drop old_len full)))"

section \<open>Round trips of the byte layout\<close>

lemma length_entry_bytes [simp]: "length (cle_name e) = 20 \<Longrightarrow> length (entry_bytes e) = 64"
  by (simp add: entry_bytes_def)

lemma bytes_entry_bytes [simp]:
  "length (cle_name e) = 20 \<Longrightarrow> bytes_entry (entry_bytes e) = e"
  by (simp add: bytes_entry_def entry_bytes_def nth_append)

lemma length_overflow_bytes [simp]: "length (ov_data ov) = 56 \<Longrightarrow> length (overflow_bytes ov) = 64"
  by (simp add: overflow_bytes_def)

lemma bytes_overflow_bytes [simp]:
  "length (ov_data ov) = 56 \<Longrightarrow> bytes_overflow (overflow_bytes ov) = ov"
  by (simp add: bytes_overflow_def overflow_bytes_def)

lemma seq_masks_bit:
  "bit kSeqReadyMask k \<longleftrightarrow> k = 31" "bit kSeqContMask k \<longleftrightarrow> k = 29 \<or> k = 30"
proof -
  show "bit kSeqReadyMask k \<longleftrightarrow> k = 31"
    unfolding kSeqReadyMask_def by (auto simp: bit_simps simp del: push_bit_of_1)
  have "(3 :: u32) = mask 2" by (simp add: mask_eq_exp_minus_1)
  then show "bit kSeqContMask k \<longleftrightarrow> k = 29 \<or> k = 30"
    unfolding kSeqContMask_def by (auto simp only: bit_simps) auto
qed

lemma seq_ready_bit: "seq_ready s \<longleftrightarrow> bit s 31"
proof -
  have "bit (s AND kSeqReadyMask) k \<longleftrightarrow> k = 31 \<and> bit s 31" for k
    by (auto simp: bit_and_iff seq_masks_bit)
  then show ?thesis
    unfolding seq_ready_def by (metis bit_0_eq bot_apply bot_bool_def bit_eqI)
qed

lemma overflow_not_ready:
  "\<not> IsReady (bytes_entry (overflow_bytes ov))" if "ov_magic ov = kOverflowMagic"
  using that
  by (simp add: IsReady_def bytes_entry_def overflow_bytes_def kOverflowMagic_def seq_ready_def
      kSeqReadyMask_def)

lemma zero_not_ready [simp]: "\<not> IsReady (bytes_entry slot_zero)"
  by (simp add: IsReady_def bytes_entry_def slot_zero_def seq_ready_def eval_nat_numeral)

lemma length_zpad [simp]: "length bs \<le> n \<Longrightarrow> length (zpad n bs) = n"
  by (simp add: zpad_def)

lemma zpad_full [simp]: "n \<le> length bs \<Longrightarrow> zpad n bs = bs"
  by (simp add: zpad_def)

lemma length_inline_part [simp]: "length (inline_part name len) = 20"
  by (simp add: inline_part_def kInlineMax_def)

lemma take_zpad: "k \<le> length bs \<Longrightarrow> take k (zpad n bs) = take k bs"
  by (simp add: zpad_def)

section \<open>Sequence words\<close>

lemma EncodeSeq_bits:
  assumes "unat l < 2 ^ 29" "unat c \<le> 3"
  shows "bit (EncodeSeq l c) k \<longleftrightarrow>
    k = 31 \<or> (29 \<le> k \<and> k < 31 \<and> bit c (k - 29)) \<or> (k < 29 \<and> bit l k)"
proof -
  have "\<not> bit l k" if "29 \<le> k" using small_not_bit [OF assms(1) that] .
  moreover have "\<not> bit c j" if "2 \<le> j" for j
    by (rule small_not_bit [of _ 2]) (use assms(2) that in auto)
  ultimately show ?thesis
    by (auto simp: EncodeSeq_def kSeqContShift_def bit_or_iff bit_push_bit_iff bit_unsigned_iff
        seq_masks_bit)
qed

lemma EncodeSeq_ready: "seq_ready (EncodeSeq l c)"
  by (simp add: seq_ready_bit EncodeSeq_def bit_or_iff seq_masks_bit)

lemma EncodeSeq_cont:
  assumes "unat l < 2 ^ 29" "unat c \<le> 3" "cle_seq e = EncodeSeq l c"
  shows "ContCount e = unat c"
proof -
  have "ucast (drop_bit 29 (EncodeSeq l c AND kSeqContMask)) = c"
  proof (rule bit_word_eqI)
    fix k assume "k < LENGTH(8)"
    have "k < 2" if "bit c k"
      by (rule small_bit_lt [OF that]) (use assms(2) in auto)
    with \<open>k < LENGTH(8)\<close> show "bit (ucast (drop_bit 29 (EncodeSeq l c AND kSeqContMask)) :: u8) k = bit c k"
      by (auto simp: bit_unsigned_iff bit_drop_bit_eq bit_and_iff seq_masks_bit
          EncodeSeq_bits [OF assms(1,2)])
  qed
  then show ?thesis
    by (simp add: ContCount_def assms(3) kSeqContShift_def)
qed

lemma EncodeSeq_local:
  assumes "unat l < 2 ^ 29" "unat c \<le> 3" "cle_seq e = EncodeSeq l c"
  shows "LocalSeq e = l"
  unfolding LocalSeq_def assms(3) local_mask_bits
  by (rule bit_word_eqI)
     (use small_bit_lt [OF _ assms(1)] in \<open>auto simp: bit_and_iff bit_mask_iff EncodeSeq_bits [OF assms(1,2)]\<close>)

section \<open>The hybrid logical clock\<close>

lemma divmod_lex:
  "(b div n < a div n \<or> (a div n = b div n \<and> b mod n < a mod n)) \<longleftrightarrow> b < (a :: nat)" if "0 < n"
proof
  assume "b div n < a div n \<or> (a div n = b div n \<and> b mod n < a mod n)"
  then show "b < a"
    by (metis add_less_cancel_left div_mult_mod_eq div_le_mono not_less)
next
  assume *: "b < a"
  then have "b div n \<le> a div n" by (simp add: div_le_mono)
  moreover have "b mod n < a mod n" if "a div n = b div n"
    using * that by (metis add_less_cancel_left div_mult_mod_eq)
  ultimately show "b div n < a div n \<or> (a div n = b div n \<and> b mod n < a mod n)"
    by linarith
qed

lemma unat_pending_logical: "unat (pending_logical s) = unat s mod 2 ^ 14"
proof -
  have m: "push_bit kVersionLogicalBits 1 - 1 = (mask 14 :: u64)"
    by (simp add: kVersionLogicalBits_def mask_eq_exp_minus_1)
  have lt: "unat s mod 2 ^ 14 < 2 ^ 14" by simp
  have "unat (s AND mask 14) = unat s mod 2 ^ 14"
    unfolding take_bit_eq_mask [symmetric]
    by (simp only: unsigned_take_bit_eq take_bit_eq_mod [where 'a = nat])
  then show ?thesis
    using lt unfolding pending_logical_def m
    by (simp add: unsigned_ucast_eq take_bit_nat_eq_self)
qed

lemma unat_hlc_physical: "unat (drop_bit kVersionLogicalBits s :: u64) = unat s div 2 ^ 14"
  unfolding kVersionLogicalBits_def by (rule unat_drop_bit)

lemma unat_hlc_observed: "unat (drop_bit kVersionMetaBits v :: u64) = unat v div 2 ^ 8"
  unfolding kVersionMetaBits_def by (rule unat_drop_bit)

lemma unat_PackVersion:
  assumes "unat p < 2 ^ 42" "unat l < 2 ^ 14"
  shows "unat (PackVersion p l m) = (unat p * 2 ^ 14 + unat l) * 2 ^ 8 + unat m"
proof -
  have l: "unat (ucast l :: u64) = unat l" and m: "unat (ucast m :: u64) = unat m"
    by simp_all
  have p1: "unat (push_bit 22 p) = unat p * 2 ^ 22"
    using assms(1) by (intro unat_push_bit_small) auto
  have l1: "unat (push_bit 8 (ucast l :: u64)) = unat l * 2 ^ 8"
    using assms(2) l unat_push_bit_small [of "ucast l :: u64" 8] by simp
  have mlt: "unat (ucast m :: u64) < 2 ^ 8"
    using m unsigned_less [of m, where 'a = nat] by simp
  have o1: "unat (push_bit 8 (ucast l :: u64) OR ucast m) = unat l * 2 ^ 8 + unat m"
    using unat_or_disjoint [OF small_and_push_bit [OF mlt]] l1 m by simp
  have olt: "unat (push_bit 8 (ucast l :: u64) OR ucast m) < 2 ^ 22"
    using assms(2) mlt m unfolding o1 by simp
  have "unat (PackVersion p l m) = unat p * 2 ^ 22 + (unat l * 2 ^ 8 + unat m)"
    unfolding PackVersion_def version_consts
    using unat_or_disjoint [OF small_and_push_bit [OF olt, of p]] p1 o1
    by (simp add: or.assoc)
  then show ?thesis by (simp add: algebra_simps)
qed

lemma unat_hlc_join:
  assumes "unat p < 2 ^ 42" "unat l < 2 ^ 14"
  shows "unat (push_bit kVersionLogicalBits p OR ucast (l :: u16) :: u64) = unat p * 2 ^ 14 + unat l"
proof -
  have l: "unat (ucast l :: u64) = unat l"
    by simp
  have p: "unat (push_bit 14 p) = unat p * 2 ^ 14"
    using assms(1) by (intro unat_push_bit_small) auto
  show ?thesis
    unfolding kVersionLogicalBits_def
    using unat_or_disjoint [OF small_and_push_bit [of "ucast l :: u64" 14 p]] assms(2) l p by simp
qed

text \<open>On natural numbers: take the larger of the clock and the observed version, then either jump to
  the wall clock or add one (the logical counter carries into the physical part).\<close>

definition hlc_next :: "nat \<Rightarrow> nat \<Rightarrow> nat \<Rightarrow> nat" where
  "hlc_next now old observed =
    (let base = max old observed in if base div 2 ^ 14 < now then now * 2 ^ 14 else base + 1)"

lemma hlc_next_greater: "old < hlc_next now old observed" "observed < hlc_next now old observed"
proof -
  have "b < now * 2 ^ 14" if "b div 2 ^ 14 < now" for b :: nat
    using that by (metis div_less_iff_less_mult zero_less_numeral zero_less_power)
  then have "max old observed < hlc_next now old observed"
    unfolding hlc_next_def Let_def by (auto simp: less_Suc_eq_le)
  then show "old < hlc_next now old observed" "observed < hlc_next now old observed" by simp_all
qed

lemma tick_cases:
  assumes npl: "(if max now bp = bp
       then if bl = push_bit kVersionLogicalBits 1 - 1 then (bp + 1, 0) else (max now bp, bl + 1)
       else (max now bp, 0)) = (np, nl)"
    and bp: "bp = drop_bit kVersionLogicalBits base" and bl: "bl = pending_logical base"
    and now: "unat now < 2 ^ 42" and base: "unat base + 1 < 2 ^ 56"
  shows "unat np < 2 ^ 42 \<and> unat nl < 2 ^ 14 \<and> unat np * 2 ^ 14 + unat nl =
    (if unat base div 2 ^ 14 < unat now then unat now * 2 ^ 14 else unat base + 1)"
proof -
  have ubp: "unat bp = unat base div 2 ^ 14" and ubl: "unat bl = unat base mod 2 ^ 14"
    by (simp_all add: bp bl unat_hlc_physical unat_pending_logical)
  have dm: "unat base = unat bp * 2 ^ 14 + unat bl"
    unfolding ubp ubl by simp
  have bllt: "unat bl < 2 ^ 14" unfolding ubl by simp
  have top: "bl = push_bit kVersionLogicalBits 1 - 1 \<longleftrightarrow> unat bl = 2 ^ 14 - 1"
    by (simp add: word_unat_eq_iff kVersionLogicalBits_def)
  have le: "max now bp = bp \<longleftrightarrow> \<not> unat base div 2 ^ 14 < unat now"
    using ubp by (auto simp: max_def word_le_nat_alt)
  consider (clock) "unat base div 2 ^ 14 < unat now" | (carry) "\<not> unat base div 2 ^ 14 < unat now" "unat bl = 2 ^ 14 - 1"
    | (inc) "\<not> unat base div 2 ^ 14 < unat now" "unat bl < 2 ^ 14 - 1"
    using bllt by fastforce
  then show ?thesis
  proof cases
    case clock
    then have "np = now" "nl = 0" using npl le by (auto simp: max_def split: if_splits)
    with clock now show ?thesis by simp
  next
    case carry
    then have n: "np = bp + 1" "nl = 0" using npl le top by auto
    have "unat bp + 1 < 2 ^ 42" using base dm carry by simp
    then have "unat np = unat bp + 1" by (simp add: n unat_word_ariths)
    with carry dm \<open>unat bp + 1 < 2 ^ 42\<close> n show ?thesis by simp
  next
    case inc
    then have n: "np = bp" "nl = bl + 1" using npl le top by auto
    have "unat nl = unat bl + 1" using inc by (simp add: n unat_word_ariths)
    moreover have "unat bp < 2 ^ 42" using base dm by simp
    ultimately show ?thesis using inc dm n by simp
  qed
qed

lemma MergeAndTick_spec:
  assumes "unat now < 2 ^ 42" "unat (wal_hlc_state w) + 1 < 2 ^ 56"
    "unat obs div 2 ^ 8 + 1 < 2 ^ 56" "MergeAndTick now obs w = (v, w')"
  defines "n \<equiv> hlc_next (unat now) (unat (wal_hlc_state w)) (unat obs div 2 ^ 8)"
  shows "w' = w\<lparr>wal_hlc_state := of_nat n\<rparr>" and "n < 2 ^ 56"
    and "unat v = n * 2 ^ 8 + unat (of_nat (wal_mds_id w) :: u8)"
proof -
  let ?old = "wal_hlc_state w" and ?os = "drop_bit kVersionMetaBits obs"
  define base where "base = (if ?os > ?old then ?os else ?old)"
  have lex: "(drop_bit kVersionLogicalBits ?os > drop_bit kVersionLogicalBits ?old \<or>
      (drop_bit kVersionLogicalBits ?os = drop_bit kVersionLogicalBits ?old \<and>
       pending_logical ?os > pending_logical ?old)) \<longleftrightarrow> ?os > ?old"
    using divmod_lex [of "2 ^ 14" "unat ?old" "unat ?os"]
    by (simp only: word_less_nat_alt word_unat_eq_iff unat_hlc_physical unat_pending_logical) simp
  define bp bl where "bp = drop_bit kVersionLogicalBits base" and "bl = pending_logical base"
  have pick: "(if ?os > ?old then (drop_bit kVersionLogicalBits ?os, pending_logical ?os)
     else (drop_bit kVersionLogicalBits ?old, pending_logical ?old)) = (bp, bl)"
    by (simp add: base_def bp_def bl_def)
  obtain np nl where npl: "(if max now bp = bp
       then if bl = push_bit kVersionLogicalBits 1 - 1 then (bp + 1, 0) else (max now bp, bl + 1)
       else (max now bp, 0)) = (np, nl)" by (metis prod.exhaust)
  have v: "v = PackVersion np nl (of_nat (wal_mds_id w))"
    and w': "w' = w\<lparr>wal_hlc_state := push_bit kVersionLogicalBits np OR ucast nl\<rparr>"
    using assms(4) by (simp_all only: MergeAndTick_def Let_def lex pick npl prod.case prod.inject)
  have b: "unat base = max (unat ?old) (unat obs div 2 ^ 8)"
    by (auto simp: base_def word_less_nat_alt unat_hlc_observed max_def)
  have tick: "unat np < 2 ^ 42 \<and> unat nl < 2 ^ 14 \<and> unat np * 2 ^ 14 + unat nl = n"
    using tick_cases [OF npl bp_def bl_def assms(1)] b assms(2,3) by (simp add: n_def hlc_next_def Let_def max.commute)
  then show "n < 2 ^ 56" by simp
  from tick \<open>n < 2 ^ 56\<close> have "push_bit kVersionLogicalBits np OR ucast nl = (of_nat n :: u64)"
    using unat_hlc_join [of np nl]
    by (simp add: word_unat_eq_iff unsigned_of_nat take_bit_nat_eq_self)
  then show "w' = w\<lparr>wal_hlc_state := of_nat n\<rparr>" by (simp add: w')
  from tick show "unat v = n * 2 ^ 8 + unat (of_nat (wal_mds_id w) :: u8)"
    using unat_PackVersion [of np nl "of_nat (wal_mds_id w)"] by (simp add: v)
qed

section \<open>The ring\<close>

text \<open>Power-of-two capacity, and less than a full ring in use.\<close>

definition wal_inv :: "CompactWAL \<Rightarrow> bool" where
  "wal_inv w \<longleftrightarrow> (\<exists>k. wal_capacity w = 2 ^ k) \<and> wal_checkpoint_pos w \<le> wal_head w \<and>
     wal_head w - wal_checkpoint_pos w < wal_capacity w"

lemma ring_index_mod: "wal_capacity w = 2 ^ k \<Longrightarrow> ring_index w pos = pos mod wal_capacity w"
  unfolding ring_index_def
  by (simp only: mask_eq_exp_minus_1 [symmetric] take_bit_eq_mask [symmetric] take_bit_eq_mod)

lemma mod_window_inj:
  "a mod n = b mod n \<Longrightarrow> lo \<le> a \<Longrightarrow> lo \<le> b \<Longrightarrow> a < lo + n \<Longrightarrow> b < lo + n \<Longrightarrow> a = (b :: nat)"
proof -
  have *: "x = y" if "x mod n = y mod n" "lo \<le> x" "x \<le> y" "y < lo + n" for x y
  proof -
    have "n dvd y - x" using that by (metis mod_eq_dvd_iff_nat)
    moreover have "y - x < n" using that by linarith
    ultimately show ?thesis using that by (metis dvd_imp_le diff_is_0_eq le_antisym not_gr_zero not_less)
  qed
  assume "a mod n = b mod n" "lo \<le> a" "lo \<le> b" "a < lo + n" "b < lo + n"
  then show ?thesis using * [of a b] * [of b a] by (cases "a \<le> b") auto
qed

lemma ring_index_inj:
  assumes "wal_capacity w = 2 ^ k" "lo \<le> a" "lo \<le> b" "a < lo + wal_capacity w" "b < lo + wal_capacity w"
  shows "ring_index w a = ring_index w b \<longleftrightarrow> a = b"
  using assms mod_window_inj [of a "wal_capacity w" b lo] by (auto simp: ring_index_mod)

lemma DramWrite_frame [simp]:
  "wal_capacity (wal_DramWrite p d w) = wal_capacity w" "wal_head (wal_DramWrite p d w) = wal_head w"
  "wal_checkpoint_pos (wal_DramWrite p d w) = wal_checkpoint_pos w"
  "ring_index (wal_DramWrite p d w) q = ring_index w q"
  by (simp_all add: wal_DramWrite_def ring_index_def)

lemma write_conts_frame [simp]:
  "wal_capacity (write_conts l d p n w) = wal_capacity w" "wal_head (write_conts l d p n w) = wal_head w"
  "wal_checkpoint_pos (write_conts l d p n w) = wal_checkpoint_pos w"
  "ring_index (write_conts l d p n w) q = ring_index w q"
  by (induction n arbitrary: w) simp_all

lemma MergeAndTick_frame:
  assumes "MergeAndTick now obs w = (v, w')"
  shows "w' = w\<lparr>wal_hlc_state := wal_hlc_state w'\<rparr>"
  using assms by (auto simp: MergeAndTick_def Let_def split: prod.splits)

lemma NextVersion_frame:
  assumes "NextVersion now t w = (v, t', w')"
  shows "w' = w\<lparr>wal_hlc_state := wal_hlc_state w'\<rparr>"
  using assms MergeAndTick_frame [of now 0 w]
  by (auto simp: NextVersion_def split: if_splits prod.splits)

text \<open>What the slot at a position holds.\<close>

definition slot_at :: "CompactWAL \<Rightarrow> nat \<Rightarrow> byte list" where
  "slot_at w pos = wal_ring w (ring_index w pos)"

lemma slot_at_write:
  assumes "wal_capacity w = 2 ^ k" "lo \<le> p" "lo \<le> q" "p < lo + wal_capacity w" "q < lo + wal_capacity w"
  shows "slot_at (wal_DramWrite p d w) q = (if q = p then d else slot_at w q)"
  using ring_index_inj [OF assms(1,3,2,5,4)] by (auto simp: slot_at_def wal_DramWrite_def ring_index_def)

lemma slot_at_write_conts:
  assumes "wal_capacity w = 2 ^ k" "lo \<le> p" "lo \<le> q" "p + n < lo + wal_capacity w" "q < lo + wal_capacity w"
  shows "slot_at (write_conts l d p n w) q =
    (if p < q \<and> q \<le> p + n then cont_slot l d (q - p - 1) else slot_at w q)"
  using assms
proof (induction n arbitrary: w)
  case 0
  then show ?case by auto
next
  case (Suc n)
  let ?w = "wal_DramWrite (p + 1 + n) (cont_slot l d n) w"
  have "slot_at (write_conts l d p n ?w) q =
      (if p < q \<and> q \<le> p + n then cont_slot l d (q - p - 1) else slot_at ?w q)"
    using Suc.prems by (intro Suc.IH) auto
  moreover have "slot_at ?w q = (if q = p + 1 + n then cont_slot l d n else slot_at w q)"
    using Suc.prems by (intro slot_at_write) auto
  ultimately show ?case by auto
qed

lemma alloc_seq_range: "0 < unat (fst (alloc_seq_loop c))" "unat (fst (alloc_seq_loop c)) < 2 ^ 29"
proof -
  have "0 < unat (fst (alloc_seq_loop c)) \<and> unat (fst (alloc_seq_loop c)) < 2 ^ 29"
  proof (induction c rule: alloc_seq_loop.induct)
    case (1 c)
    show ?case
    proof (cases "c AND kSeqLocalMask = 0")
      case True
      with 1 show ?thesis by (subst (1 2) alloc_seq_loop.simps) (simp add: Let_def)
    next
      case False
      then have "0 < unat (c AND kSeqLocalMask)" by (simp add: unat_gt_0)
      moreover have "unat (c AND kSeqLocalMask) < 2 ^ 29" unfolding and_local_mask by simp
      ultimately show ?thesis using False by (subst (1 2) alloc_seq_loop.simps) (simp add: Let_def)
    qed
  qed
  then show "0 < unat (fst (alloc_seq_loop c))" "unat (fst (alloc_seq_loop c)) < 2 ^ 29" by auto
qed

section \<open>Appending and extracting\<close>

lemma length_cont_slot_data:
  "length (zpad 56 (take (min (length d - i * kContinuationDataMax) kContinuationDataMax)
      (drop (i * kContinuationDataMax) d))) = 56"
  by (rule length_zpad) (simp add: kContinuationDataMax_def)

lemma cont_slot_data:
  "ov_data (bytes_overflow (cont_slot l d i)) = zpad 56 (take 56 (drop (i * 56) d))"
  unfolding cont_slot_def using length_cont_slot_data [of d i]
  by (simp add: kContinuationDataMax_def min_def)

lemma cont_slot_not_ready: "\<not> IsReady (bytes_entry (cont_slot l d i))"
  unfolding cont_slot_def by (rule overflow_not_ready) simp

lemma cont_slots_le: "n \<le> 168 \<Longrightarrow> cont_slots n \<le> 3"
  by (simp add: cont_slots_def kContinuationDataMax_def)

lemma cont_slots_pos: "i < cont_slots n \<longleftrightarrow> i * 56 < n"
  by (auto simp: cont_slots_def kContinuationDataMax_def)

text \<open>The continuation slots written for \<open>d\<close> stand behind position \<open>pos\<close>.\<close>

definition conts_at :: "CompactWAL \<Rightarrow> nat \<Rightarrow> u32 \<Rightarrow> byte list \<Rightarrow> bool" where
  "conts_at w pos l d \<longleftrightarrow> (\<forall>i < cont_slots (length d). slot_at w (pos + 1 + i) = cont_slot l d i)"

lemma extract_conts_drop:
  assumes "conts_at w pos l d" "i + n = cont_slots (length d)"
  shows "extract_conts n w pos i (length d - i * 56) = drop (i * 56) d"
  using assms(2)
proof (induction n arbitrary: i)
  case 0
  then have "\<not> i < cont_slots (length d)" by simp
  then show ?case by (simp add: cont_slots_pos)
next
  case (Suc n)
  then have i: "i < cont_slots (length d)" by simp
  then have pos: "i * 56 < length d" by (simp add: cont_slots_pos)
  have data: "ov_data (wal_OverflowAt w (Suc (pos + i))) = zpad 56 (take 56 (drop (i * 56) d))"
    using assms(1) i cont_slot_data [of l d i]
    by (simp add: conts_at_def wal_OverflowAt_def slot_at_def)
  have "extract_conts n w pos (Suc i) (length d - Suc i * 56) = drop (Suc i * 56) d"
    using Suc.prems by (intro Suc.IH) simp
  moreover have "length d - i * 56 - min (length d - i * 56) 56 = length d - Suc i * 56" by simp
  moreover have "take (min (length d - i * 56) 56) (zpad 56 (take 56 (drop (i * 56) d)))
      = take 56 (drop (i * 56) d)"
    by (subst take_zpad) (simp_all add: min_def)
  moreover have "take 56 (drop (i * 56) d) @ drop (Suc i * 56) d = drop (i * 56) d"
    by (metis append_take_drop_id drop_drop mult_Suc)
  ultimately show ?case
    using pos by (simp add: data Let_def kContinuationDataMax_def)
qed

lemma extract_conts_all:
  "conts_at w pos l d \<Longrightarrow> extract_conts (cont_slots (length d)) w pos 0 (length d) = d"
  using extract_conts_drop [of w pos l d 0] by simp

lemma AllocLocalSeq_frame:
  assumes "AllocLocalSeq w = (l, w')"
  shows "w' = w\<lparr>wal_local_seq := wal_local_seq w'\<rparr>" "0 < unat l" "unat l < 2 ^ 29"
  using assms alloc_seq_range [of "wal_local_seq w"]
  by (auto simp: AllocLocalSeq_def split: prod.splits)

lemma slot_at_other [simp]:
  "slot_at (w\<lparr>wal_local_seq := a\<rparr>) q = slot_at w q" "slot_at (w\<lparr>wal_hlc_state := b\<rparr>) q = slot_at w q"
  "slot_at (w\<lparr>wal_head := h\<rparr>) q = slot_at w q" "slot_at (w\<lparr>wal_checkpoint_pos := c\<rparr>) q = slot_at w q"
  by (simp_all add: slot_at_def ring_index_def)

text \<open>What an append that fits leaves behind: the head moves past the slots of the entry, the
  primary slot is ready and carries the continuation count, the continuations follow it, and every
  slot in use before is untouched.\<close>

definition appended ::
  "CompactLogEntry \<Rightarrow> byte list \<Rightarrow> u32 \<Rightarrow> CompactWAL \<Rightarrow> CompactWAL \<Rightarrow> bool" where
  "appended e ov sq w w' \<longleftrightarrow>
    (\<exists>v l. 0 < unat l \<and> unat l < 2 ^ 29 \<and> sq = EncodeSeq l (of_nat (cont_slots (length ov))) \<and>
      wal_At w' (wal_head w) = e\<lparr>cle_seq := sq, cle_version := v\<rparr> \<and>
      conts_at w' (wal_head w) l ov) \<and>
    wal_head w' = wal_head w + 1 + cont_slots (length ov) \<and>
    wal_checkpoint_pos w' = wal_checkpoint_pos w \<and> wal_capacity w' = wal_capacity w \<and>
    (\<forall>q. wal_checkpoint_pos w \<le> q \<and> q < wal_head w \<longrightarrow> slot_at w' q = slot_at w q)"

lemma cont_slots_0 [simp]: "cont_slots 0 = 0"
  by (simp add: cont_slots_def kContinuationDataMax_def)

lemma AppendWithOverflow_appended:
  assumes inv: "wal_inv w" and len: "length (cle_name e) = 20" "length ov \<le> 168"
    and app: "wal_AppendWithOverflow now e ov t w = (sq, t', w')" and sq: "sq \<noteq> 0"
  shows "appended e ov sq w w'" and "wal_inv w'"
proof -
  let ?n = "cont_slots (length ov)" and ?p = "wal_head w" and ?lo = "wal_checkpoint_pos w"
  from inv obtain k where cap: "wal_capacity w = 2 ^ k" by (auto simp: wal_inv_def)
  have room: "?p + (1 + ?n) - ?lo < wal_capacity w"
    using app sq by (auto simp: wal_AppendWithOverflow_def TryReserveSlots_def Let_def split: if_splits)
  obtain l w2 where l: "AllocLocalSeq (w\<lparr>wal_head := Suc (?p + ?n)\<rparr>) = (l, w2)" by fastforce
  obtain v t2 w3 where v: "NextVersion now t w2 = (v, t2, w3)" by (metis prod_cases3)
  note fr = AllocLocalSeq_frame [OF l] NextVersion_frame [OF v]
  define w4 where "w4 = write_conts l ov ?p ?n w3"
  define e' where "e' = e\<lparr>cle_seq := EncodeSeq l (of_nat ?n), cle_version := v\<rparr>"
  have w': "w' = wal_DramWrite ?p (entry_bytes e') w4" and sq': "sq = cle_seq e'"
    using app room by (auto simp: wal_AppendWithOverflow_def TryReserveSlots_def Let_def l v w4_def e'_def)
  have w3: "wal_capacity w3 = wal_capacity w" "wal_checkpoint_pos w3 = ?lo" "wal_head w3 = ?p + (1 + ?n)"
    "slot_at w3 q = slot_at w q" for q
    by (subst fr(4), subst fr(1), simp)+
  have lo: "?lo \<le> ?p" using inv by (simp add: wal_inv_def)
  have slot: "slot_at w' q = (if q = ?p then entry_bytes e' else
      if ?p < q \<and> q \<le> ?p + ?n then cont_slot l ov (q - ?p - 1) else slot_at w q)"
    if "?lo \<le> q" "q < ?lo + wal_capacity w" for q
  proof -
    have "slot_at w' q = (if q = ?p then entry_bytes e' else slot_at w4 q)"
      unfolding w' using cap lo room that
      by (intro slot_at_write [of _ k ?lo]) (auto simp: w4_def w3)
    moreover have "slot_at w4 q = (if ?p < q \<and> q \<le> ?p + ?n then cont_slot l ov (q - ?p - 1) else slot_at w3 q)"
      unfolding w4_def using cap lo room that
      by (intro slot_at_write_conts [of _ k ?lo]) (auto simp: w3)
    ultimately show ?thesis by (simp add: w3)
  qed
  have "wal_At w' ?p = e'"
    using slot [of ?p] lo room len by (simp add: wal_At_def slot_at_def e'_def)
  moreover have "conts_at w' ?p l ov"
    unfolding conts_at_def using slot lo room by auto
  moreover have "wal_head w' = ?p + 1 + ?n" "wal_checkpoint_pos w' = ?lo" "wal_capacity w' = wal_capacity w"
    by (simp_all add: w' w4_def w3)
  moreover have "slot_at w' q = slot_at w q" if "?lo \<le> q" "q < ?p" for q
    using slot [of q] that room by auto
  ultimately show "appended e ov sq w w'"
    using fr(2,3) sq' unfolding appended_def e'_def by auto
  show "wal_inv w'"
    using inv room by (auto simp: wal_inv_def w' w4_def w3)
qed

lemma Append_as_overflow:
  "wal_Append now e t w = wal_AppendWithOverflow now e [] t w"
  by (simp add: wal_Append_def wal_AppendWithOverflow_def Let_def split: prod.splits option.splits)

lemma append_entry_appended:
  assumes "wal_inv w" "length (cle_name e) = 20" "append_entry now e ov t w = Some (sq, t', w')" "sq \<noteq> 0"
  shows "appended e ov sq w w'" "wal_inv w'" "length ov \<le> 168"
proof -
  have ap: "wal_AppendWithOverflow now e ov t w = (sq, t', w')" and len: "length ov \<le> 168"
    using assms(3) by (auto simp: append_entry_def Append_as_overflow kContinuationDataMax_def
      kMaxContinuationSlots_def split: if_splits)
  show "appended e ov sq w w'" "wal_inv w'" "length ov \<le> 168"
    using AppendWithOverflow_appended [OF assms(1,2) len ap assms(4)] len by auto
qed

lemma appended_payload:
  assumes "appended e ov sq w w'" "length ov \<le> 168" "length inl = min len 20"
    "take (min len 20) (cle_name e) = inl" "length ov = len - min len 20"
  shows "extract_payload len (wal_At w' (wal_head w)) w' (wal_head w) = inl @ ov"
    and "IsReady (wal_At w' (wal_head w))"
    and "SlotCount (wal_At w' (wal_head w)) = 1 + cont_slots (length ov)"
proof -
  from assms(1) obtain v l where l: "unat l < 2 ^ 29" "sq = EncodeSeq l (of_nat (cont_slots (length ov)))"
    and e: "wal_At w' (wal_head w) = e\<lparr>cle_seq := sq, cle_version := v\<rparr>"
    and c: "conts_at w' (wal_head w) l ov"
    unfolding appended_def by blast
  have n: "cont_slots (length ov) \<le> 3" using cont_slots_le assms(2) by blast
  then have un: "unat (of_nat (cont_slots (length ov)) :: u8) = cont_slots (length ov)"
    by (simp add: unsigned_of_nat take_bit_nat_eq_self)
  have cc: "ContCount (wal_At w' (wal_head w)) = cont_slots (length ov)"
    using EncodeSeq_cont [OF l(1), of _ "wal_At w' (wal_head w)"] n un l(2) by (simp add: e)
  show "IsReady (wal_At w' (wal_head w))"
    by (simp add: e IsReady_def l(2) EncodeSeq_ready)
  show "SlotCount (wal_At w' (wal_head w)) = 1 + cont_slots (length ov)"
    by (simp add: SlotCount_def cc)
  show "extract_payload len (wal_At w' (wal_head w)) w' (wal_head w) = inl @ ov"
    using assms(3-5) extract_conts_all [OF c] cc by (simp add: extract_payload_def kInlineMax_def e)
qed

section \<open>Names come back as they were logged\<close>

lemma length_Make [simp]:
  "length (cle_name (MakeCreate i p m u g ty n l)) = 20" "length (cle_name (MakeUnlink i p n l)) = 20"
  "length (cle_name (MakeSetattr i m)) = 20" "length (cle_name (MakeLink i p n l ty)) = 20"
  by (simp_all add: MakeCreate_def MakeUnlink_def MakeSetattr_def MakeLink_def entry_zero_def)

lemma length_MakeRename [simp]: "length (cle_name (MakeRename i op np on ol nn nl ty)) = 20"
  by (simp add: MakeRename_def entry_zero_def Let_def kInlineMax_def)

lemma inline_part_take:
  "length name = unat len \<Longrightarrow> take (min (unat len) 20) (inline_part name len) = take 20 name"
  by (simp add: inline_part_def kInlineMax_def take_zpad min_def)

lemma BuildOverflow_eq: "length name = unat len \<Longrightarrow> BuildOverflow name len = drop 20 name"
  by (simp add: BuildOverflow_def kInlineMax_def)

lemma single_name_extract:
  assumes "wal_inv w" "append_entry now e (BuildOverflow name len) t w = Some (sq, t', w')" "sq \<noteq> 0"
    and "cle_name e = inline_part name len" "cle_name_len e = len" "length name = unat len"
  shows "ExtractWalName (wal_At w' (wal_head w)) w' (wal_head w) = name"
proof -
  have len: "length (cle_name e) = 20" by (simp add: assms(4))
  note ap = append_entry_appended [OF assms(1) len assms(2,3)]
  have "cle_name_len (wal_At w' (wal_head w)) = len"
    using ap(1) assms(5) unfolding appended_def by auto
  moreover have "extract_payload (unat len) (wal_At w' (wal_head w)) w' (wal_head w)
      = take 20 name @ drop 20 name"
    using appended_payload(1) [OF ap(1), of "take 20 name" "unat len"] ap(3) assms(4,6)
      inline_part_take [OF assms(6)] BuildOverflow_eq [OF assms(6)] by (simp add: min.commute)
  ultimately show ?thesis by (simp add: ExtractWalName_def)
qed

lemma rename_concat_inline:
  assumes "length on = unat ol" "length nn = unat nl"
  shows "take (min (unat ol + unat nl) 20) (cle_name (MakeRename i op np on ol nn nl ty)) = take 20 (on @ nn)"
proof (cases "unat ol \<le> 20")
  case True
  show ?thesis
  proof (cases "unat nl = 0 \<or> unat ol = 20")
    case True
    with assms \<open>unat ol \<le> 20\<close> show ?thesis
      by (auto simp: MakeRename_def Let_def kInlineMax_def zpad_def unat_gt_0 unat_eq_0)
  next
    case False
    then have "nl > 0" "20 - unat ol > 0" using True by (auto simp: word_gt_0 unat_eq_0)
    with assms True show ?thesis
      by (auto simp: MakeRename_def Let_def kInlineMax_def take_zpad min_def)
  qed
next
  case False
  with assms show ?thesis
    by (simp add: MakeRename_def Let_def kInlineMax_def zpad_def)
qed

lemma rename_names_extract:
  assumes "wal_inv w" "LogRename now i op np on ol nn nl ty t w = Some (sq, t', w')" "sq \<noteq> 0"
    and len: "length on = unat ol" "length nn = unat nl"
  shows "ExtractWalRenameNames (wal_At w' (wal_head w)) w' (wal_head w) = (on, nn)"
proof -
  let ?e = "MakeRename i op np on ol nn nl ty" and ?ov = "BuildRenameOverflow on ol nn nl"
  have app: "append_entry now ?e ?ov t w = Some (sq, t', w')"
    using assms(2) by (auto simp: LogRename_def split: if_splits)
  note ap = append_entry_appended [OF assms(1) length_MakeRename app assms(3)]
  have ov: "?ov = drop 20 (on @ nn)"
    using len by (simp add: BuildRenameOverflow_def kInlineMax_def Let_def)
  have "cle_name_len (wal_At w' (wal_head w)) = ol" "cle_aux_len (wal_At w' (wal_head w)) = nl"
    using ap(1) unfolding appended_def by (auto simp: MakeRename_def Let_def)
  moreover have "extract_payload (unat ol + unat nl) (wal_At w' (wal_head w)) w' (wal_head w)
      = on @ nn"
    using appended_payload(1) [OF ap(1), of "take 20 (on @ nn)" "unat ol + unat nl"] ap(3) len ov
      rename_concat_inline [OF len] by (simp add: min.commute del: take_append drop_append)
  ultimately show ?thesis using len by (simp add: ExtractWalRenameNames_def)
qed

section \<open>Fields of a logged entry\<close>

lemma PackCreateAux_parts [simp]:
  "ucast (drop_bit 32 (PackCreateAux uid gid)) = uid" "ucast (PackCreateAux uid gid) = gid"
  unfolding PackCreateAux_def
  by (rule bit_word_eqI, auto simp: bit_simps dest: bit_imp_le_length)+

lemma appended_entry:
  assumes "appended e ov sq w w'" "length ov \<le> 168"
  obtains v where "wal_At w' (wal_head w) = e\<lparr>cle_seq := sq, cle_version := v\<rparr>"
    "IsReady (wal_At w' (wal_head w))"
    "\<And>q. wal_checkpoint_pos w \<le> q \<Longrightarrow> q < wal_head w \<Longrightarrow> wal_At w' q = wal_At w q"
proof -
  from assms(1) obtain v l where sq: "sq = EncodeSeq l (of_nat (cont_slots (length ov)))"
    and e: "wal_At w' (wal_head w) = e\<lparr>cle_seq := sq, cle_version := v\<rparr>"
    and old: "\<And>q. wal_checkpoint_pos w \<le> q \<Longrightarrow> q < wal_head w \<Longrightarrow> slot_at w' q = slot_at w q"
    unfolding appended_def by blast
  have "IsReady (wal_At w' (wal_head w))" by (simp add: e IsReady_def sq EncodeSeq_ready)
  with e old that show thesis by (auto simp: wal_At_def slot_at_def)
qed

section \<open>Runs of the clock\<close>

text \<open>Successive operations: each reads the clock and observes a version from a request.\<close>

fun tick_run :: "(u64 \<times> u64) list \<Rightarrow> CompactWAL \<Rightarrow> u64 list" where
  "tick_run [] w = []"
| "tick_run ((now, obs) # es) w = (let (v, w') = MergeAndTick now obs w in v # tick_run es w')"

lemma hlc_next_bound:
  assumes "old \<le> b + i" "observed \<le> b" "now * 2 ^ 14 \<le> b"
  shows "hlc_next now old observed \<le> b + Suc i"
  using assms by (auto simp: hlc_next_def Let_def)

lemma tick_run_increasing:
  assumes "unat (wal_hlc_state w) \<le> 2 ^ 55 + i" "i + length es < 2 ^ 54"
    "\<And>now obs. (now, obs) \<in> set es \<Longrightarrow> unat now < 2 ^ 41 \<and> unat obs < 2 ^ 63"
  shows "sorted_wrt (<) (tick_run es w) \<and> list_all2 (\<lambda>v e. snd e < v) (tick_run es w) es \<and>
    (\<forall>v\<in>set (tick_run es w). unat (wal_hlc_state w) < unat v div 2 ^ 8)"
  using assms
proof (induction es arbitrary: w i)
  case Nil
  then show ?case by simp
next
  case (Cons ev es)
  obtain now obs where ev: "ev = (now, obs)" by (cases ev)
  obtain v w' where mt: "MergeAndTick now obs w = (v, w')" by fastforce
  from Cons.prems(3) [of now obs] have b: "unat now < 2 ^ 41" "unat obs < 2 ^ 63" by (auto simp: ev)
  define n where "n = hlc_next (unat now) (unat (wal_hlc_state w)) (unat obs div 2 ^ 8)"
  have obs: "unat obs div 2 ^ 8 \<le> 2 ^ 55" using b(2) by simp
  have spec: "w' = w\<lparr>wal_hlc_state := of_nat n\<rparr>" "n < 2 ^ 56"
    "unat v = n * 2 ^ 8 + unat (of_nat (wal_mds_id w) :: u8)"
    using MergeAndTick_spec [OF _ _ _ mt] b obs Cons.prems(1,2) unfolding n_def by auto
  have nb: "n \<le> 2 ^ 55 + Suc i"
    unfolding n_def using Cons.prems(1) obs b by (intro hlc_next_bound) auto
  have st: "unat (wal_hlc_state w') = n"
    using spec(1,2) by (simp add: unsigned_of_nat take_bit_nat_eq_self)
  have m: "unat (of_nat (wal_mds_id w) :: u8) < 2 ^ 8"
    using unsigned_less [of "of_nat (wal_mds_id w) :: u8", where 'a = nat] by simp
  have vdiv: "unat v div 2 ^ 8 = n" unfolding spec(3) using m by simp
  note gt = hlc_next_greater [where old = "unat (wal_hlc_state w)" and now = "unat now" and
    observed = "unat obs div 2 ^ 8", folded n_def]
  have "obs < v" using gt(2) vdiv by (metis div_le_mono not_less word_less_nat_alt)
  moreover have IH: "sorted_wrt (<) (tick_run es w') \<and> list_all2 (\<lambda>v e. snd e < v) (tick_run es w') es \<and>
      (\<forall>v\<in>set (tick_run es w'). unat (wal_hlc_state w') < unat v div 2 ^ 8)"
    using nb st Cons.prems(2,3) by (intro Cons.IH [of w' "Suc i"]) auto
  moreover have "v < x" if "x \<in> set (tick_run es w')" for x
    using IH that st vdiv by (metis div_le_mono not_less word_less_nat_alt)
  moreover have "unat (wal_hlc_state w) < unat x div 2 ^ 8" if "x \<in> set (tick_run es w')" for x
    using IH that st gt(1) by (meson less_trans)
  ultimately show ?case
    using gt(1) vdiv by (simp add: ev mt)
qed

lemma wal_inv_empty: "wal_inv (empty_wal k m)"
  by (auto simp: wal_inv_def empty_wal_def)

section \<open>Properties\<close>

text \<open>C2: a create record read back from the ring carries exactly what was logged: it is ready, has the
  operation, the inode, the parent, the mode, the owner, the entry type and the whole name, with the
  bytes that spilled into continuation slots, and no record still unread was overwritten.\<close>

theorem log_create_roundtrip:
  assumes "wal_inv w" "LogCreate now ino par mode uid gid ty name len t w = Some (sq, t', w')" "sq \<noteq> 0"
    "length name = unat len"
  shows "let e = wal_At w' (wal_head w) in
    IsReady e \<and> cle_op e = walop_code kWALCreate \<and> cle_inode_id e = ino \<and> cle_parent_id e = par \<and>
    cle_mode e = mode \<and> GetUid e = uid \<and> GetGid e = gid \<and> GetDirentType e = ty \<and>
    ExtractWalName e w' (wal_head w) = name \<and> wal_inv w' \<and>
    (\<forall>q. wal_checkpoint_pos w \<le> q \<and> q < wal_head w \<longrightarrow> wal_At w' q = wal_At w q)"
proof -
  let ?e = "MakeCreate ino par mode uid gid ty name len"
  have app: "append_entry now ?e (BuildOverflow name len) t w = Some (sq, t', w')"
    using assms(2) by (simp add: LogCreate_def)
  note ap = append_entry_appended [OF assms(1) length_Make(1) app assms(3)]
  obtain v where e: "wal_At w' (wal_head w) = ?e\<lparr>cle_seq := sq, cle_version := v\<rparr>"
    and "IsReady (wal_At w' (wal_head w))"
    and "\<And>q. wal_checkpoint_pos w \<le> q \<Longrightarrow> q < wal_head w \<Longrightarrow> wal_At w' q = wal_At w q"
    using appended_entry [OF ap(1,3)] by blast
  moreover have "ExtractWalName (wal_At w' (wal_head w)) w' (wal_head w) = name"
    by (rule single_name_extract [OF assms(1) app assms(3)]) (simp_all add: MakeCreate_def assms(4))
  ultimately show ?thesis
    using ap(2) unfolding Let_def e
    by (simp add: MakeCreate_def GetUid_def GetGid_def GetDirentType_def)
qed

theorem log_create_roundtrip_witness:
  "let w = empty_wal 3 1;
       r = the (LogCreate 1700000000000 77 2 0x81A4 1000 100 8
                 [97,98,99,100,101,102,103,104,105,106,107,108,109,110,111,112,113,114,115,116,117,118,119] 23
                 no_tls w);
       w' = snd (snd r)
   in ExtractWalName (wal_At w' 0) w' 0 =
       [97,98,99,100,101,102,103,104,105,106,107,108,109,110,111,112,113,114,115,116,117,118,119]"
proof -
  let ?name = "[97,98,99,100,101,102,103,104,105,106,107,108,109,110,111,112,113,114,115,116,117,118,119]"
  let ?r = "LogCreate 1700000000000 77 2 0x81A4 1000 100 8 ?name 23 no_tls (empty_wal 3 1)"
  have 1: "wal_inv (empty_wal 3 1)" by (rule wal_inv_empty)
  have 2: "?r \<noteq> None" by code_simp
  have 3: "fst (the ?r) \<noteq> 0" by code_simp
  from 2 have 4: "?r = Some (fst (the ?r), fst (snd (the ?r)), snd (snd (the ?r)))" by simp
  from log_create_roundtrip [OF 1 4 3] show ?thesis
    by (simp add: Let_def empty_wal_def)
qed

text \<open>C3: a rename record read back from the ring carries both parents, the inode, the entry type and
  both names, although they share one payload that spills into continuation slots.\<close>

theorem log_rename_roundtrip:
  assumes "wal_inv w" "LogRename now ino op np on ol nn nl ty t w = Some (sq, t', w')" "sq \<noteq> 0"
    "length on = unat ol" "length nn = unat nl"
  shows "let e = wal_At w' (wal_head w) in
    IsReady e \<and> cle_op e = walop_code kWALRename \<and> cle_inode_id e = ino \<and> cle_parent_id e = op \<and>
    GetNewParent e = np \<and> GetDirentType e = ty \<and>
    ExtractWalRenameNames e w' (wal_head w) = (on, nn) \<and> wal_inv w' \<and>
    (\<forall>q. wal_checkpoint_pos w \<le> q \<and> q < wal_head w \<longrightarrow> wal_At w' q = wal_At w q)"
proof -
  let ?e = "MakeRename ino op np on ol nn nl ty"
  have app: "append_entry now ?e (BuildRenameOverflow on ol nn nl) t w = Some (sq, t', w')"
    using assms(2) by (auto simp: LogRename_def split: if_splits)
  note ap = append_entry_appended [OF assms(1) length_MakeRename app assms(3)]
  obtain v where e: "wal_At w' (wal_head w) = ?e\<lparr>cle_seq := sq, cle_version := v\<rparr>"
    and "IsReady (wal_At w' (wal_head w))"
    and "\<And>q. wal_checkpoint_pos w \<le> q \<Longrightarrow> q < wal_head w \<Longrightarrow> wal_At w' q = wal_At w q"
    using appended_entry [OF ap(1,3)] by blast
  moreover note rename_names_extract [OF assms]
  moreover have "ucast (ucast ty AND 0xFF :: u32) = ty"
  proof -
    have "(0xFF :: u32) = mask 8" by (simp add: mask_eq_exp_minus_1)
    then show ?thesis
      by (intro bit_word_eqI) (auto simp only: bit_simps, auto)
  qed
  ultimately show ?thesis
    using ap(2) unfolding Let_def e
    by (simp add: MakeRename_def Let_def GetNewParent_def GetDirentType_def)
qed

theorem log_rename_roundtrip_witness:
  "let w = empty_wal 3 1;
       r = the (LogRename 1700000000000 77 2 9 [97,98,99,100,101,102,103,104,105,106,107,108] 12
                 [97,98,99,100,101,102,103,104,105,106,107,109] 12 8 no_tls w);
       w' = snd (snd r)
   in ExtractWalRenameNames (wal_At w' 0) w' 0 =
       ([97,98,99,100,101,102,103,104,105,106,107,108], [97,98,99,100,101,102,103,104,105,106,107,109])"
proof -
  let ?on = "[97,98,99,100,101,102,103,104,105,106,107,108]"
  let ?nn = "[97,98,99,100,101,102,103,104,105,106,107,109]"
  let ?r = "LogRename 1700000000000 77 2 9 ?on 12 ?nn 12 8 no_tls (empty_wal 3 1)"
  have 2: "?r \<noteq> None" by code_simp
  have 3: "fst (the ?r) \<noteq> 0" by code_simp
  from 2 have 4: "?r = Some (fst (the ?r), fst (snd (the ?r)), snd (snd (the ?r)))" by simp
  from log_rename_roundtrip [OF wal_inv_empty 4 3] show ?thesis
    by (simp add: Let_def empty_wal_def)
qed



text \<open>C7: an append returns 0 exactly when the entry and its continuation slots do not fit in the ring,
  and then neither the ring, nor the clock, nor the pending version of the thread changes.\<close>

theorem append_full_unchanged:
  assumes "append_entry now e ov t w = Some (sq, t', w')" "wal_checkpoint_pos w \<le> wal_head w"
  shows "(sq = 0 \<longleftrightarrow> wal_capacity w \<le> wal_head w - wal_checkpoint_pos w + 1 + cont_slots (length ov)) \<and>
    (sq = 0 \<longrightarrow> w' = w \<and> t' = t)"
proof -
  have app: "wal_AppendWithOverflow now e ov t w = (sq, t', w')"
    using assms(1) by (auto simp: append_entry_def Append_as_overflow split: if_splits)
  have nz: "EncodeSeq l c \<noteq> 0" for l c
    using EncodeSeq_ready [of l c] by (auto simp: seq_ready_def)
  show ?thesis
    using app assms(2) nz
    by (auto simp: wal_AppendWithOverflow_def TryReserveSlots_def Let_def split: if_splits prod.splits)
qed

theorem append_full_unchanged_witness:
  "let w = (empty_wal 2 0)\<lparr>wal_head := 3\<rparr> in fst (the (append_entry 9 entry_zero [] no_tls w)) = 0 \<and>
     snd (snd (the (append_entry 9 entry_zero [] no_tls w))) = w"
proof -
  let ?w = "(empty_wal 2 0)\<lparr>wal_head := 3\<rparr>"
  obtain sq t' w' where a: "append_entry 9 entry_zero [] no_tls ?w = Some (sq, t', w')"
    by (metis append_entry_def list.size(3) not_less_zero prod_cases3)
  from append_full_unchanged [OF a] show ?thesis
    unfolding Let_def a by (simp add: empty_wal_def)
qed

end
