(* ===== verification/WalProtocol.thy ===== *)
theory WalProtocol
  imports CompactWAL
begin

text \<open>
  Concurrent use of the log.  Request threads append to the ring while the checkpoint thread reads
  it: an append reserves its slots (\<open>TryReserveSlots\<close>), takes a sequence number and a version,
  writes the continuation slots from the last to the first and publishes the primary slot last; the
  checkpoint thread (\<open>DoCheckpoint\<close>) reads ready entries from its position, later clears the range
  it has read (\<open>ClearRange\<close>) and then releases it (\<open>AdvanceCheckpoint\<close>).  The steps of all threads
  interleave freely.  The two last fields of the state are history: the records in the order their
  slots were reserved, and the records the checkpoint thread has read.
\<close>

section \<open>The step relation\<close>

type_synonym wal_record = "CompactLogEntry \<times> byte list"

datatype writer =
    WIdle
  | WReserved nat wal_record
  | WWriting nat u32 u64 wal_record nat

record wal_proto =
  wp_wal :: CompactWAL
  wp_writers :: "nat \<Rightarrow> writer"
  wp_scan :: nat
  wp_cleared :: bool
  wp_log :: "wal_record list"
  wp_out :: "(CompactLogEntry \<times> byte list) list"

text \<open>The number of name bytes of an entry, inline and overflow together.\<close>

definition payload_len :: "CompactLogEntry \<Rightarrow> nat" where
  "payload_len e =
    (if cle_op e = walop_code kWALRename then unat (cle_name_len e) + unat (cle_aux_len e)
     else unat (cle_name_len e))"

definition wf_record :: "wal_record \<Rightarrow> bool" where
  "wf_record r \<longleftrightarrow> length (cle_name (fst r)) = 20 \<and> length (snd r) \<le> 168 \<and>
     length (snd r) = payload_len (fst r) - min (payload_len (fst r)) 20"

definition stamped :: "CompactLogEntry \<Rightarrow> u32 \<Rightarrow> u64 \<Rightarrow> byte list \<Rightarrow> CompactLogEntry" where
  "stamped e l v ov = e\<lparr>cle_seq := EncodeSeq l (of_nat (cont_slots (length ov))), cle_version := v\<rparr>"

text \<open>What the replay of an entry sees, apart from its stamp: the entry and its whole name.\<close>

definition unstamp :: "CompactLogEntry \<Rightarrow> CompactLogEntry" where
  "unstamp e = e\<lparr>cle_seq := 0, cle_version := 0\<rparr>"

definition record_view :: "wal_record \<Rightarrow> CompactLogEntry \<times> byte list" where
  "record_view r = (unstamp (fst r),
     take (min (payload_len (fst r)) 20) (cle_name (fst r)) @ snd r)"

definition slots_of :: "wal_record \<Rightarrow> nat" where
  "slots_of r = 1 + cont_slots (length (snd r))"

inductive wal_step :: "wal_proto \<Rightarrow> wal_proto \<Rightarrow> bool" where
  reserve:
    "wp_writers s t = WIdle \<Longrightarrow> wf_record r \<Longrightarrow>
     TryReserveSlots (slots_of r) (wp_wal s) = (Some pos, w') \<Longrightarrow>
     wal_step s (s\<lparr>wp_wal := w', wp_writers := (wp_writers s)(t := WReserved pos r),
                   wp_log := wp_log s @ [r]\<rparr>)"
| stamp:
    "wp_writers s t = WReserved pos r \<Longrightarrow> AllocLocalSeq (wp_wal s) = (l, w1) \<Longrightarrow>
     NextVersion now tls w1 = (v, tls', w2) \<Longrightarrow>
     wal_step s (s\<lparr>wp_wal := w2,
       wp_writers := (wp_writers s)(t := WWriting pos l v r (cont_slots (length (snd r))))\<rparr>)"
| write_cont:
    "wp_writers s t = WWriting pos l v r (Suc i) \<Longrightarrow>
     wal_step s (s\<lparr>wp_wal := wal_DramWrite (pos + 1 + i) (cont_slot l (snd r) i) (wp_wal s),
       wp_writers := (wp_writers s)(t := WWriting pos l v r i)\<rparr>)"
| publish:
    "wp_writers s t = WWriting pos l v r 0 \<Longrightarrow>
     wal_step s (s\<lparr>wp_wal := wal_DramWrite pos (entry_bytes (stamped (fst r) l v (snd r))) (wp_wal s),
       wp_writers := (wp_writers s)(t := WIdle)\<rparr>)"
| scan:
    "\<not> wp_cleared s \<Longrightarrow> wp_scan s < wal_head (wp_wal s) \<Longrightarrow>
     e = wal_At (wp_wal s) (wp_scan s) \<Longrightarrow> IsReady e \<Longrightarrow>
     wal_step s (s\<lparr>wp_scan := wp_scan s + SlotCount e,
       wp_out := wp_out s @ [(unstamp e, extract_payload (payload_len e) e (wp_wal s) (wp_scan s))]\<rparr>)"
| clear:
    "\<not> wp_cleared s \<Longrightarrow>
     wal_step s (s\<lparr>wp_wal := ClearRange (wal_checkpoint_pos (wp_wal s)) (wp_scan s) (wp_wal s),
       wp_cleared := True\<rparr>)"
| advance:
    "wp_cleared s \<Longrightarrow>
     wal_step s (s\<lparr>wp_wal := AdvanceCheckpoint (wp_scan s) (wp_wal s), wp_cleared := False\<rparr>)"

text \<open>The checkpoint loop also gives up on a slot that is not ready after some rounds; the position
  then moves by one and the slot is cleared afterwards (\<open>CheckpointLoop\<close>).\<close>

inductive skip_step :: "wal_proto \<Rightarrow> wal_proto \<Rightarrow> bool" where
  skip:
    "cp = wal_checkpoint_pos (wp_wal s) \<Longrightarrow> cp < wal_head (wp_wal s) \<Longrightarrow> wp_scan s = cp \<Longrightarrow>
     \<not> wp_cleared s \<Longrightarrow> \<not> IsReady (wal_At (wp_wal s) cp) \<Longrightarrow>
     skip_step s (s\<lparr>wp_wal := ClearRange cp (cp + 1) (AdvanceCheckpoint (cp + 1) (wp_wal s)),
       wp_scan := cp + 1\<rparr>)"

definition proto_init :: "CompactWAL \<Rightarrow> wal_proto" where
  "proto_init w =
     \<lparr>wp_wal = w, wp_writers = (\<lambda>_. WIdle), wp_scan = 0, wp_cleared = False, wp_log = [], wp_out = []\<rparr>"

inductive wal_reachable :: "nat \<Rightarrow> nat \<Rightarrow> wal_proto \<Rightarrow> bool" for k m where
  start: "wal_reachable k m (proto_init (empty_wal k m))"
| step: "wal_reachable k m s \<Longrightarrow> wal_step s s' \<Longrightarrow> wal_reachable k m s'"

section \<open>The invariant\<close>

definition pos_of :: "wal_record list \<Rightarrow> nat \<Rightarrow> nat" where
  "pos_of rs k = sum_list (map slots_of (take k rs))"

definition published :: "CompactWAL \<Rightarrow> nat \<Rightarrow> wal_record \<Rightarrow> bool" where
  "published w p r \<longleftrightarrow> (\<exists>l v. unat l < 2 ^ 29 \<and>
     slot_at w p = entry_bytes (stamped (fst r) l v (snd r)) \<and> conts_at w p l (snd r))"

definition unready :: "CompactWAL \<Rightarrow> nat \<Rightarrow> bool" where
  "unready w q \<longleftrightarrow> \<not> IsReady (bytes_entry (slot_at w q))"

definition in_flight :: "CompactWAL \<Rightarrow> nat \<Rightarrow> wal_record \<Rightarrow> writer \<Rightarrow> bool" where
  "in_flight w p r wr \<longleftrightarrow> unready w p \<and>
     (wr = WReserved p r \<or>
      (\<exists>l v i. wr = WWriting p l v r i \<and> unat l < 2 ^ 29 \<and> i \<le> cont_slots (length (snd r)) \<and>
        (\<forall>j. i \<le> j \<and> j < cont_slots (length (snd r)) \<longrightarrow> slot_at w (p + 1 + j) = cont_slot l (snd r) j)))"

definition wp_inv :: "wal_proto \<Rightarrow> bool" where
  "wp_inv s \<longleftrightarrow>
    (let w = wp_wal s; rs = wp_log s; n = length (wp_out s) in
     wal_inv w \<and> list_all wf_record rs \<and> wal_head w = pos_of rs (length rs) \<and>
     n \<le> length rs \<and> wp_scan s = pos_of rs n \<and> wal_checkpoint_pos w \<le> wp_scan s \<and>
     wp_out s = map record_view (take n rs) \<and>
     (\<forall>k. n \<le> k \<and> k < length rs \<longrightarrow>
        published w (pos_of rs k) (rs ! k) \<or> (\<exists>t. in_flight w (pos_of rs k) (rs ! k) (wp_writers s t))) \<and>
     (\<forall>t. wp_writers s t \<noteq> WIdle \<longrightarrow>
        (\<exists>k. n \<le> k \<and> k < length rs \<and> in_flight w (pos_of rs k) (rs ! k) (wp_writers s t))) \<and>
     (\<forall>t u k. n \<le> k \<and> k < length rs \<and> in_flight w (pos_of rs k) (rs ! k) (wp_writers s t) \<and>
        in_flight w (pos_of rs k) (rs ! k) (wp_writers s u) \<longrightarrow> t = u) \<and>
     (\<forall>q. wal_head w \<le> q \<and> q < wal_checkpoint_pos w + wal_capacity w \<longrightarrow> unready w q) \<and>
     (wp_cleared s \<longrightarrow> (\<forall>q. wal_checkpoint_pos w \<le> q \<and> q < wp_scan s \<longrightarrow> unready w q)))"

section \<open>Positions of records\<close>

lemma pos_of_Suc: "k < length rs \<Longrightarrow> pos_of rs (Suc k) = pos_of rs k + slots_of (rs ! k)"
  by (simp add: pos_of_def take_Suc_conv_app_nth)

lemma pos_of_append [simp]: "k \<le> length rs \<Longrightarrow> pos_of (rs @ xs) k = pos_of rs k"
  by (simp add: pos_of_def)

lemma pos_of_snoc: "pos_of (rs @ [r]) (Suc (length rs)) = pos_of rs (length rs) + slots_of r"
  by (simp add: pos_of_def)

lemma pos_of_mono: "j \<le> k \<Longrightarrow> pos_of rs j \<le> pos_of rs k"
proof -
  assume "j \<le> k"
  then have "take k rs = take j rs @ take (k - j) (drop j rs)"
    by (metis le_add_diff_inverse take_add)
  then show ?thesis by (simp add: pos_of_def)
qed

lemma pos_of_sep: "j < k \<Longrightarrow> k \<le> length rs \<Longrightarrow> pos_of rs j + slots_of (rs ! j) \<le> pos_of rs k"
  using pos_of_mono [of "Suc j" k rs] by (simp add: pos_of_Suc)

lemma slots_of_pos [simp]: "0 < slots_of r"
  by (simp add: slots_of_def)

lemma pos_of_less: "j < k \<Longrightarrow> k \<le> length rs \<Longrightarrow> pos_of rs j < pos_of rs k"
  using pos_of_sep [of j k rs] slots_of_pos [of "rs ! j"] by linarith

lemma pos_of_inj:
  "pos_of rs j = pos_of rs k \<Longrightarrow> j < length rs \<Longrightarrow> k < length rs \<Longrightarrow> j = k"
  using pos_of_less [of j k rs] pos_of_less [of k j rs] by (metis less_imp_le_nat linorder_neqE_nat nat_less_le)

section \<open>Frames\<close>

definition same_slots :: "CompactWAL \<Rightarrow> CompactWAL \<Rightarrow> nat \<Rightarrow> nat \<Rightarrow> bool" where
  "same_slots w w' p n \<longleftrightarrow> (\<forall>q. p \<le> q \<and> q < p + n \<longrightarrow> slot_at w' q = slot_at w q)"

lemma same_slots_at: "same_slots w w' p n \<Longrightarrow> i < n \<Longrightarrow> slot_at w' (p + i) = slot_at w (p + i)"
  by (simp add: same_slots_def)

lemma published_frame: "same_slots w w' p (slots_of r) \<Longrightarrow> published w' p r = published w p r"
  using same_slots_at [of w w' p "slots_of r" 0]
    same_slots_at [of w w' p "slots_of r" "Suc i" for i]
  by (auto simp: published_def conts_at_def slots_of_def)

lemma in_flight_frame: "same_slots w w' p (slots_of r) \<Longrightarrow> in_flight w' p r wr = in_flight w p r wr"
  using same_slots_at [of w w' p "slots_of r" 0]
    same_slots_at [of w w' p "slots_of r" "Suc i" for i]
  by (auto simp: in_flight_def unready_def slots_of_def)

lemma same_slots_all: "(\<And>q. slot_at w' q = slot_at w q) \<Longrightarrow> same_slots w w' p n"
  by (simp add: same_slots_def)

lemma unready_frame: "slot_at w' q = slot_at w q \<Longrightarrow> unready w' q = unready w q"
  by (simp add: unready_def)

lemma in_flight_pos: "in_flight w p r wr \<Longrightarrow> in_flight w' p' r' wr \<Longrightarrow> p = p' \<and> r = r'"
  by (auto simp: in_flight_def)

lemma in_flight_not_idle [simp]: "\<not> in_flight w p r WIdle"
  by (simp add: in_flight_def)

lemma published_ready: "published w p r \<Longrightarrow> wf_record r \<Longrightarrow> \<not> unready w p"
  by (auto simp: published_def unready_def stamped_def wf_record_def IsReady_def EncodeSeq_ready)

section \<open>The parts of the invariant\<close>

lemma wp_invD:
  assumes "wp_inv s"
  shows "wal_inv (wp_wal s)" "list_all wf_record (wp_log s)"
    "wal_head (wp_wal s) = pos_of (wp_log s) (length (wp_log s))"
    "length (wp_out s) \<le> length (wp_log s)" "wp_scan s = pos_of (wp_log s) (length (wp_out s))"
    "wal_checkpoint_pos (wp_wal s) \<le> wp_scan s"
    "wp_out s = map record_view (take (length (wp_out s)) (wp_log s))"
    "\<And>k. length (wp_out s) \<le> k \<Longrightarrow> k < length (wp_log s) \<Longrightarrow>
       published (wp_wal s) (pos_of (wp_log s) k) (wp_log s ! k) \<or>
       (\<exists>t. in_flight (wp_wal s) (pos_of (wp_log s) k) (wp_log s ! k) (wp_writers s t))"
    "\<And>t. wp_writers s t \<noteq> WIdle \<Longrightarrow> \<exists>k. length (wp_out s) \<le> k \<and> k < length (wp_log s) \<and>
       in_flight (wp_wal s) (pos_of (wp_log s) k) (wp_log s ! k) (wp_writers s t)"
    "\<And>t u k. length (wp_out s) \<le> k \<Longrightarrow> k < length (wp_log s) \<Longrightarrow>
       in_flight (wp_wal s) (pos_of (wp_log s) k) (wp_log s ! k) (wp_writers s t) \<Longrightarrow>
       in_flight (wp_wal s) (pos_of (wp_log s) k) (wp_log s ! k) (wp_writers s u) \<Longrightarrow> t = u"
    "\<And>q. wal_head (wp_wal s) \<le> q \<Longrightarrow> q < wal_checkpoint_pos (wp_wal s) + wal_capacity (wp_wal s) \<Longrightarrow>
       unready (wp_wal s) q"
    "\<And>q. wp_cleared s \<Longrightarrow> wal_checkpoint_pos (wp_wal s) \<le> q \<Longrightarrow> q < wp_scan s \<Longrightarrow> unready (wp_wal s) q"
  using assms unfolding wp_inv_def Let_def by blast+

text \<open>Every unread record lies in the window of the ring.\<close>

lemma window:
  assumes "wp_inv s" "length (wp_out s) \<le> k" "k < length (wp_log s)"
  shows "wal_checkpoint_pos (wp_wal s) \<le> pos_of (wp_log s) k"
    "pos_of (wp_log s) k + slots_of (wp_log s ! k) \<le> wal_head (wp_wal s)"
    "wal_head (wp_wal s) < wal_checkpoint_pos (wp_wal s) + wal_capacity (wp_wal s)"
proof -
  note D = wp_invD [OF assms(1)]
  show "wal_checkpoint_pos (wp_wal s) \<le> pos_of (wp_log s) k"
    using D(5,6) pos_of_mono [OF assms(2), of "wp_log s"] by linarith
  show "pos_of (wp_log s) k + slots_of (wp_log s ! k) \<le> wal_head (wp_wal s)"
    using pos_of_sep [OF assms(3)] D(3) by simp
  show "wal_head (wp_wal s) < wal_checkpoint_pos (wp_wal s) + wal_capacity (wp_wal s)"
    using D(1) by (auto simp: wal_inv_def)
qed

lemma window_write:
  assumes "wal_inv w" "wal_checkpoint_pos w \<le> q" "q < wal_checkpoint_pos w + wal_capacity w"
    "wal_checkpoint_pos w \<le> p" "p < wal_checkpoint_pos w + wal_capacity w"
  shows "slot_at (wal_DramWrite p d w) q = (if q = p then d else slot_at w q)"
proof -
  from assms(1) obtain k where "wal_capacity w = 2 ^ k" by (auto simp: wal_inv_def)
  from slot_at_write [OF this assms(4,2,5,3)] show ?thesis .
qed

lemma wal_inv_write [simp]: "wal_inv (wal_DramWrite p d w) = wal_inv w"
  by (simp add: wal_inv_def)

text \<open>A write by the owner of record \<open>k\<close> inside its slots leaves every other record alone.\<close>

lemma other_record_same:
  assumes inv: "wp_inv s" and k: "length (wp_out s) \<le> k" "k < length (wp_log s)"
    and j: "length (wp_out s) \<le> j" "j < length (wp_log s)" "j \<noteq> k"
    and p: "pos_of (wp_log s) k \<le> p" "p < pos_of (wp_log s) k + slots_of (wp_log s ! k)"
  shows "same_slots (wp_wal s) (wal_DramWrite p d (wp_wal s)) (pos_of (wp_log s) j) (slots_of (wp_log s ! j))"
  unfolding same_slots_def
proof (intro allI impI, elim conjE)
  fix q assume q: "pos_of (wp_log s) j \<le> q" "q < pos_of (wp_log s) j + slots_of (wp_log s ! j)"
  note wk = window [OF inv k] and wj = window [OF inv j(1,2)]
  have "q \<noteq> p"
    using pos_of_sep [of j k "wp_log s"] pos_of_sep [of k j "wp_log s"] j k p q
    by (cases "j < k") auto
  then show "slot_at (wal_DramWrite p d (wp_wal s)) q = slot_at (wp_wal s) q"
    using window_write [OF wp_invD(1) [OF inv], of q p d] wk wj p q by auto
qed

section \<open>Every step keeps the invariant\<close>

lemma wp_invI:
  assumes "wal_inv (wp_wal s)" "list_all wf_record (wp_log s)"
    "wal_head (wp_wal s) = pos_of (wp_log s) (length (wp_log s))"
    "length (wp_out s) \<le> length (wp_log s)" "wp_scan s = pos_of (wp_log s) (length (wp_out s))"
    "wal_checkpoint_pos (wp_wal s) \<le> wp_scan s"
    "wp_out s = map record_view (take (length (wp_out s)) (wp_log s))"
    "\<And>k. length (wp_out s) \<le> k \<Longrightarrow> k < length (wp_log s) \<Longrightarrow>
       published (wp_wal s) (pos_of (wp_log s) k) (wp_log s ! k) \<or>
       (\<exists>t. in_flight (wp_wal s) (pos_of (wp_log s) k) (wp_log s ! k) (wp_writers s t))"
    "\<And>t. wp_writers s t \<noteq> WIdle \<Longrightarrow> \<exists>k. length (wp_out s) \<le> k \<and> k < length (wp_log s) \<and>
       in_flight (wp_wal s) (pos_of (wp_log s) k) (wp_log s ! k) (wp_writers s t)"
    "\<And>t u k. length (wp_out s) \<le> k \<Longrightarrow> k < length (wp_log s) \<Longrightarrow>
       in_flight (wp_wal s) (pos_of (wp_log s) k) (wp_log s ! k) (wp_writers s t) \<Longrightarrow>
       in_flight (wp_wal s) (pos_of (wp_log s) k) (wp_log s ! k) (wp_writers s u) \<Longrightarrow> t = u"
    "\<And>q. wal_head (wp_wal s) \<le> q \<Longrightarrow> q < wal_checkpoint_pos (wp_wal s) + wal_capacity (wp_wal s) \<Longrightarrow>
       unready (wp_wal s) q"
    "\<And>q. wp_cleared s \<Longrightarrow> wal_checkpoint_pos (wp_wal s) \<le> q \<Longrightarrow> q < wp_scan s \<Longrightarrow> unready (wp_wal s) q"
  shows "wp_inv s"
  unfolding wp_inv_def Let_def by (intro conjI allI impI) (use assms in blast)+

lemma inv_init: "wp_inv (proto_init (empty_wal k m))"
  by (rule wp_invI)
     (auto simp: proto_init_def empty_wal_def wal_inv_def pos_of_def unready_def slot_at_def)

lemma writer_record:
  assumes "wp_inv s" "wp_writers s t \<noteq> WIdle"
  obtains k where "length (wp_out s) \<le> k" "k < length (wp_log s)"
    "in_flight (wp_wal s) (pos_of (wp_log s) k) (wp_log s ! k) (wp_writers s t)"
  using wp_invD(9) [OF assms] by blast

text \<open>A step of one writer inside the slots of its own record.\<close>

lemma inv_owner_write:
  assumes inv: "wp_inv s" and k: "length (wp_out s) \<le> k" "k < length (wp_log s)"
    and fl: "in_flight (wp_wal s) (pos_of (wp_log s) k) (wp_log s ! k) (wp_writers s t)"
    and p: "pos_of (wp_log s) k \<le> p" "p < pos_of (wp_log s) k + slots_of (wp_log s ! k)"
    and w': "w' = wal_DramWrite p d (wp_wal s)"
    and new: "(wr' = WIdle \<and> published w' (pos_of (wp_log s) k) (wp_log s ! k)) \<or>
       in_flight w' (pos_of (wp_log s) k) (wp_log s ! k) wr'"
  shows "wp_inv (s\<lparr>wp_wal := w', wp_writers := (wp_writers s)(t := wr')\<rparr>)"
proof -
  note D = wp_invD [OF inv] and W = window [OF inv]
  have other: "in_flight w' (pos_of (wp_log s) j) (wp_log s ! j) x =
      in_flight (wp_wal s) (pos_of (wp_log s) j) (wp_log s ! j) x"
    "published w' (pos_of (wp_log s) j) (wp_log s ! j) =
      published (wp_wal s) (pos_of (wp_log s) j) (wp_log s ! j)"
    if "length (wp_out s) \<le> j" "j < length (wp_log s)" "j \<noteq> k" for j x
    using other_record_same [OF inv k that p, of d] in_flight_frame published_frame unfolding w' by blast+
  have mine: "x = t" if "in_flight (wp_wal s) (pos_of (wp_log s) k) (wp_log s ! k) (wp_writers s x)" for x
    using D(10) [OF k fl that] by simp
  have tk: "j = k" if "in_flight (wp_wal s) (pos_of (wp_log s) j) (wp_log s ! j) (wp_writers s t)"
      "j < length (wp_log s)" for j
    using in_flight_pos [OF fl that(1)] pos_of_inj [of "wp_log s" k j] k(2) that(2) by blast
  have slot: "slot_at w' q = slot_at (wp_wal s) q"
    if "wal_checkpoint_pos (wp_wal s) \<le> q" "q < wal_checkpoint_pos (wp_wal s) + wal_capacity (wp_wal s)" "q \<noteq> p" for q
    unfolding w' using window_write [OF D(1) that(1,2), of p d] W [OF k] p that(3) by auto
  have same: "wal_head w' = wal_head (wp_wal s)" "wal_checkpoint_pos w' = wal_checkpoint_pos (wp_wal s)"
    "wal_capacity w' = wal_capacity (wp_wal s)" "wal_inv w' = wal_inv (wp_wal s)"
    by (simp_all add: w')
  define s' where "s' = s\<lparr>wp_wal := w', wp_writers := (wp_writers s)(t := wr')\<rparr>"
  have f: "wp_wal s' = w'" "wp_log s' = wp_log s" "wp_out s' = wp_out s" "wp_scan s' = wp_scan s"
    "wp_cleared s' = wp_cleared s" "wp_writers s' t = wr'" "u \<noteq> t \<Longrightarrow> wp_writers s' u = wp_writers s u" for u
    by (simp_all add: s'_def)
  have fl_other: "in_flight w' (pos_of (wp_log s) j) (wp_log s ! j) (wp_writers s u) \<and> j \<noteq> k"
    if "in_flight (wp_wal s) (pos_of (wp_log s) j) (wp_log s ! j) (wp_writers s u)" "u \<noteq> t"
      "length (wp_out s) \<le> j" "j < length (wp_log s)" for j u
    using mine [of u] other(1) [of j] that by (cases "j = k") auto
  have unr: "unready w' q" if "unready (wp_wal s) q" "q \<noteq> p" "wal_checkpoint_pos (wp_wal s) \<le> q"
      "q < wal_checkpoint_pos (wp_wal s) + wal_capacity (wp_wal s)" for q
    using slot [OF that(3,4,2)] that(1) by (simp add: unready_def)
  have "wp_inv s'"
  proof (rule wp_invI, unfold f(1-5) same)
    show "published w' (pos_of (wp_log s) j) (wp_log s ! j) \<or>
        (\<exists>u. in_flight w' (pos_of (wp_log s) j) (wp_log s ! j) (wp_writers s' u))"
      if j: "length (wp_out s) \<le> j" "j < length (wp_log s)" for j
    proof (cases "j = k")
      case True
      with new f(6) show ?thesis by metis
    next
      case False
      from D(8) [OF j] show ?thesis
        using other [OF j False] fl_other tk False j f(7) by metis
    qed
    show "\<exists>j\<ge>length (wp_out s). j < length (wp_log s) \<and>
        in_flight w' (pos_of (wp_log s) j) (wp_log s ! j) (wp_writers s' u)"
      if u: "wp_writers s' u \<noteq> WIdle" for u
    proof (cases "u = t")
      case True
      with u new k f(6) show ?thesis by metis
    next
      case False
      with u D(9) [of u] fl_other [OF _ False] f(7) show ?thesis by metis
    qed
    show "u = x" if j: "length (wp_out s) \<le> j" "j < length (wp_log s)"
      and ux: "in_flight w' (pos_of (wp_log s) j) (wp_log s ! j) (wp_writers s' u)"
        "in_flight w' (pos_of (wp_log s) j) (wp_log s ! j) (wp_writers s' x)" for u x j
    proof -
      have own: "in_flight (wp_wal s) (pos_of (wp_log s) j) (wp_log s ! j) (wp_writers s y)"
        if "in_flight w' (pos_of (wp_log s) j) (wp_log s ! j) (wp_writers s' y)" "y \<noteq> t" for y
      proof -
        from that f(7) have y: "in_flight w' (pos_of (wp_log s) j) (wp_log s ! j) (wp_writers s y)" by simp
        then have "wp_writers s y \<noteq> WIdle" by auto
        from writer_record [OF inv this] obtain i where i: "length (wp_out s) \<le> i" "i < length (wp_log s)"
          "in_flight (wp_wal s) (pos_of (wp_log s) i) (wp_log s ! i) (wp_writers s y)" .
        with y j have "i = j" using in_flight_pos pos_of_inj by metis
        with i show ?thesis by simp
      qed
      have t: "j = k" if "in_flight w' (pos_of (wp_log s) j) (wp_log s ! j) wr'"
        using that new in_flight_pos pos_of_inj j(2) k(2) in_flight_not_idle by metis
      show ?thesis
        using own [OF ux(1)] own [OF ux(2)] D(10) [OF j] mine t ux f(6) by metis
    qed
    show "unready w' q" if "wal_head (wp_wal s) \<le> q"
      "q < wal_checkpoint_pos (wp_wal s) + wal_capacity (wp_wal s)" for q
      using that D(11) [OF that] W [OF k] p by (intro unr) auto
    show "unready w' q" if "wp_cleared s" "wal_checkpoint_pos (wp_wal s) \<le> q" "q < wp_scan s" for q
      using that D(12) [OF that] D(5) W [OF k] p pos_of_mono [OF k(1), of "wp_log s"] by (intro unr) auto
  qed (use D(1-7) in simp_all)
  then show ?thesis by (simp only: s'_def)
qed

text \<open>A step that changes neither slots nor positions, and the writer only in its bookkeeping.\<close>

lemma inv_stamp:
  assumes inv: "wp_inv s" and wr: "wp_writers s t = WReserved pos r"
    and l: "AllocLocalSeq (wp_wal s) = (l, w1)" and v: "NextVersion now tls w1 = (v, tls', w2)"
  shows "wp_inv (s\<lparr>wp_wal := w2,
    wp_writers := (wp_writers s)(t := WWriting pos l v r (cont_slots (length (snd r))))\<rparr>)"
proof -
  from writer_record [OF inv, of t] wr obtain k where k: "length (wp_out s) \<le> k" "k < length (wp_log s)"
    and fl: "in_flight (wp_wal s) (pos_of (wp_log s) k) (wp_log s ! k) (wp_writers s t)" by auto
  from fl wr have pr: "pos = pos_of (wp_log s) k" "r = wp_log s ! k" by (auto simp: in_flight_def)
  note D = wp_invD [OF inv] and fr = AllocLocalSeq_frame [OF l] NextVersion_frame [OF v]
  have same: "wal_head w2 = wal_head (wp_wal s)" "wal_checkpoint_pos w2 = wal_checkpoint_pos (wp_wal s)"
    "wal_capacity w2 = wal_capacity (wp_wal s)" "slot_at w2 q = slot_at (wp_wal s) q" for q
    by (subst fr(4), subst fr(1), simp)+
  have eqs: "in_flight w2 = in_flight (wp_wal s)" "published w2 = published (wp_wal s)"
    "unready w2 = unready (wp_wal s)" "wal_inv w2 = wal_inv (wp_wal s)"
    by (simp_all add: fun_eq_iff in_flight_def published_def unready_def conts_at_def wal_inv_def same)
  let ?wr' = "WWriting pos l v r (cont_slots (length (snd r)))"
  have new: "in_flight (wp_wal s) p' r' ?wr' \<longleftrightarrow> in_flight (wp_wal s) p' r' (wp_writers s t)" for p' r'
    using fr(3) by (auto simp: in_flight_def wr)
  define s' where "s' = s\<lparr>wp_wal := w2, wp_writers := (wp_writers s)(t := ?wr')\<rparr>"
  have f: "wp_wal s' = w2" "wp_log s' = wp_log s" "wp_out s' = wp_out s" "wp_scan s' = wp_scan s"
    "wp_cleared s' = wp_cleared s"
    by (simp_all add: s'_def)
  have fw: "in_flight (wp_wal s) p' r' (wp_writers s' u) \<longleftrightarrow> in_flight (wp_wal s) p' r' (wp_writers s u)"
    "wp_writers s' u = WIdle \<longleftrightarrow> wp_writers s u = WIdle" for p' r' u
    using new wr by (auto simp: s'_def)
  have "wp_inv s'"
    by (rule wp_invI, unfold f same eqs fw) (fact D)+
  then show ?thesis by (simp only: s'_def)
qed

lemma inv_reserve:
  assumes inv: "wp_inv s" and idle: "wp_writers s t = WIdle" and wf: "wf_record r"
    and res: "TryReserveSlots (slots_of r) (wp_wal s) = (Some pos, w')"
  shows "wp_inv (s\<lparr>wp_wal := w', wp_writers := (wp_writers s)(t := WReserved pos r),
    wp_log := wp_log s @ [r]\<rparr>)"
proof -
  note D = wp_invD [OF inv]
  let ?w = "wp_wal s" and ?rs = "wp_log s" and ?n = "length (wp_out s)"
  have pos: "pos = wal_head ?w" and w': "w' = ?w\<lparr>wal_head := wal_head ?w + slots_of r\<rparr>"
    and room: "wal_head ?w + slots_of r - wal_checkpoint_pos ?w < wal_capacity ?w"
    using res by (auto simp: TryReserveSlots_def Let_def split: if_splits)
  have same: "wal_checkpoint_pos w' = wal_checkpoint_pos ?w" "wal_capacity w' = wal_capacity ?w"
    "wal_head w' = wal_head ?w + slots_of r" "slot_at w' q = slot_at ?w q" for q
    by (simp_all add: w')
  have eqs: "in_flight w' = in_flight ?w" "published w' = published ?w" "unready w' = unready ?w"
    by (simp_all add: fun_eq_iff in_flight_def published_def unready_def conts_at_def same)
  have cp: "wal_checkpoint_pos ?w \<le> wal_head ?w" "wal_inv ?w" using D(1) by (auto simp: wal_inv_def)
  define s' where "s' = s\<lparr>wp_wal := w', wp_writers := (wp_writers s)(t := WReserved pos r), wp_log := ?rs @ [r]\<rparr>"
  have f: "wp_wal s' = w'" "wp_log s' = ?rs @ [r]" "wp_out s' = wp_out s" "wp_scan s' = wp_scan s"
    "wp_cleared s' = wp_cleared s" "wp_writers s' t = WReserved pos r"
    "u \<noteq> t \<Longrightarrow> wp_writers s' u = wp_writers s u" for u
    by (simp_all add: s'_def)
  have new: "in_flight ?w pos r (WReserved pos r)"
    using D(11) [of pos] room cp slots_of_pos [of r] unfolding in_flight_def pos by (auto simp: w')
  have old: "pos_of (?rs @ [r]) k = pos_of ?rs k" "(?rs @ [r]) ! k = ?rs ! k" if "k < length ?rs" for k
    using that by (simp_all add: nth_append)
  have last: "pos_of (?rs @ [r]) (length ?rs) = pos" "(?rs @ [r]) ! length ?rs = r"
    using D(3) pos by (simp_all add: pos_of_def)
  have not_last: "\<not> in_flight ?w pos x (wp_writers s u)" for u x
  proof
    assume a: "in_flight ?w pos x (wp_writers s u)"
    then have "wp_writers s u \<noteq> WIdle" by auto
    from writer_record [OF inv this] obtain k where "k < length ?rs"
      "in_flight ?w (pos_of ?rs k) (?rs ! k) (wp_writers s u)" .
    with a show False using in_flight_pos pos_of_less [of k "length ?rs" ?rs] D(3) pos by fastforce
  qed
  have not_old: "\<not> in_flight ?w (pos_of ?rs k) x (WReserved pos r)" if "k < length ?rs" for k x
    using pos_of_less [OF that order.refl] D(3) pos by (auto simp: in_flight_def)
  have "wp_inv s'"
  proof (rule wp_invI, unfold f(1-5) eqs length_append_singleton)
    show "published ?w (pos_of (?rs @ [r]) k) ((?rs @ [r]) ! k) \<or>
        (\<exists>u. in_flight ?w (pos_of (?rs @ [r]) k) ((?rs @ [r]) ! k) (wp_writers s' u))"
      if k: "?n \<le> k" "k < Suc (length ?rs)" for k
    proof (cases "k < length ?rs")
      case True
      from D(8) [OF k(1) True] show ?thesis
        unfolding old [OF True] using idle in_flight_not_idle f(7) by metis
    next
      case False
      with k have "k = length ?rs" by simp
      then show ?thesis using last new f(6) by metis
    qed
    show "\<exists>k\<ge>?n. k < Suc (length ?rs) \<and> in_flight ?w (pos_of (?rs @ [r]) k) ((?rs @ [r]) ! k) (wp_writers s' u)"
      if "wp_writers s' u \<noteq> WIdle" for u
    proof (cases "u = t")
      case True
      with last new f(6) D(4) show ?thesis by (metis lessI)
    next
      case False
      with that D(9) [of u] f(7) old show ?thesis by (metis less_SucI)
    qed
    show "u = x" if k: "?n \<le> k" "k < Suc (length ?rs)"
      and ux: "in_flight ?w (pos_of (?rs @ [r]) k) ((?rs @ [r]) ! k) (wp_writers s' u)"
      "in_flight ?w (pos_of (?rs @ [r]) k) ((?rs @ [r]) ! k) (wp_writers s' x)" for u x k
    proof (cases "k < length ?rs")
      case True
      from ux show ?thesis unfolding old [OF True]
        using D(10) [OF k(1) True] not_old [OF True] f(6,7) by metis
    next
      case False
      with k have "k = length ?rs" by simp
      with ux last not_last f(7) show ?thesis by metis
    qed
    show "wal_inv w'" using cp(2) room by (auto simp: wal_inv_def w')
    show "list_all wf_record (?rs @ [r])" using D(2) wf by simp
    show "wal_head w' = pos_of (?rs @ [r]) (Suc (length ?rs))"
      using D(3) by (simp add: w' pos_of_snoc)
    show "wp_scan s = pos_of (?rs @ [r]) ?n" using D(4,5) by simp
    show "wp_out s = map record_view (take ?n (?rs @ [r]))" using D(4,7) by simp
    show "unready ?w q" if "wal_head w' \<le> q" "q < wal_checkpoint_pos w' + wal_capacity w'" for q
      using D(11) that by (simp add: w')
    show "unready ?w q" if "wp_cleared s" "wal_checkpoint_pos w' \<le> q" "q < wp_scan s" for q
      using D(12) that by (simp add: w')
  qed (use D(4,6) same in simp_all)
  then show ?thesis by (simp only: s'_def)
qed

lemma inv_write_cont:
  assumes inv: "wp_inv s" and wr: "wp_writers s t = WWriting pos l v r (Suc i)"
  shows "wp_inv (s\<lparr>wp_wal := wal_DramWrite (pos + 1 + i) (cont_slot l (snd r) i) (wp_wal s),
    wp_writers := (wp_writers s)(t := WWriting pos l v r i)\<rparr>)"
proof -
  from writer_record [OF inv, of t] wr obtain k where k: "length (wp_out s) \<le> k" "k < length (wp_log s)"
    and fl: "in_flight (wp_wal s) (pos_of (wp_log s) k) (wp_log s ! k) (wp_writers s t)" by auto
  from fl wr have pr: "pos = pos_of (wp_log s) k" "r = wp_log s ! k"
    and i: "Suc i \<le> cont_slots (length (snd r))" and l: "unat l < 2 ^ 29"
    and ur: "unready (wp_wal s) pos"
    and written: "\<And>j. Suc i \<le> j \<Longrightarrow> j < cont_slots (length (snd r)) \<Longrightarrow>
      slot_at (wp_wal s) (pos + 1 + j) = cont_slot l (snd r) j"
    by (auto simp: in_flight_def)
  let ?w' = "wal_DramWrite (pos + 1 + i) (cont_slot l (snd r) i) (wp_wal s)"
  note W = window [OF inv k, folded pr]
  have slot: "slot_at ?w' q = (if q = pos + 1 + i then cont_slot l (snd r) i else slot_at (wp_wal s) q)"
    if "pos \<le> q" "q < pos + slots_of r" for q
    using W i that by (intro window_write [OF wp_invD(1) [OF inv]]) (auto simp: slots_of_def)
  have "in_flight ?w' pos r (WWriting pos l v r i)"
    using slot [of pos] slot [of "pos + 1 + j" for j] ur written [unfolded Suc_le_eq] i l
    by (auto simp: in_flight_def unready_def slots_of_def dest: le_imp_less_or_eq)
  with inv k fl i pr show ?thesis
    by (intro inv_owner_write [of _ k]) (auto simp: slots_of_def)
qed

lemma inv_publish:
  assumes inv: "wp_inv s" and wr: "wp_writers s t = WWriting pos l v r 0"
  shows "wp_inv (s\<lparr>wp_wal := wal_DramWrite pos (entry_bytes (stamped (fst r) l v (snd r))) (wp_wal s),
    wp_writers := (wp_writers s)(t := WIdle)\<rparr>)"
proof -
  from writer_record [OF inv, of t] wr obtain k where k: "length (wp_out s) \<le> k" "k < length (wp_log s)"
    and fl: "in_flight (wp_wal s) (pos_of (wp_log s) k) (wp_log s ! k) (wp_writers s t)" by auto
  from fl wr have pr: "pos = pos_of (wp_log s) k" "r = wp_log s ! k" and l: "unat l < 2 ^ 29"
    and written: "\<And>j. j < cont_slots (length (snd r)) \<Longrightarrow>
      slot_at (wp_wal s) (pos + 1 + j) = cont_slot l (snd r) j"
    by (auto simp: in_flight_def)
  let ?w' = "wal_DramWrite pos (entry_bytes (stamped (fst r) l v (snd r))) (wp_wal s)"
  note W = window [OF inv k, folded pr]
  have slot: "slot_at ?w' q = (if q = pos then entry_bytes (stamped (fst r) l v (snd r)) else slot_at (wp_wal s) q)"
    if "pos \<le> q" "q < pos + slots_of r" for q
    using W that by (intro window_write [OF wp_invD(1) [OF inv]]) auto
  have "published ?w' pos r"
    unfolding published_def conts_at_def
    using slot [of pos] slot [of "pos + 1 + j" for j] written l
    by (intro exI [of _ l] exI [of _ v]) (auto simp: slots_of_def)
  with inv k fl pr show ?thesis
    by (intro inv_owner_write [of _ k]) auto
qed

lemma published_view:
  assumes "published w p r" "wf_record r"
  shows "SlotCount (wal_At w p) = slots_of r"
    and "(unstamp (wal_At w p), extract_payload (payload_len (wal_At w p)) (wal_At w p) w p) = record_view r"
proof -
  from assms(1) obtain l v where l: "unat l < 2 ^ 29"
    and slot: "slot_at w p = entry_bytes (stamped (fst r) l v (snd r))" and c: "conts_at w p l (snd r)"
    by (auto simp: published_def)
  have e: "wal_At w p = stamped (fst r) l v (snd r)"
    using slot assms(2) by (simp add: wal_At_def slot_at_def wf_record_def stamped_def)
  have n: "cont_slots (length (snd r)) \<le> 3" using cont_slots_le assms(2) by (simp add: wf_record_def)
  then have cc: "ContCount (wal_At w p) = cont_slots (length (snd r))"
    using EncodeSeq_cont [OF l, of "of_nat (cont_slots (length (snd r)))" "wal_At w p"]
    by (simp add: e stamped_def unsigned_of_nat take_bit_nat_eq_self)
  then show "SlotCount (wal_At w p) = slots_of r" by (simp add: SlotCount_def slots_of_def)
  have pl: "payload_len (wal_At w p) = payload_len (fst r)" "cle_name (wal_At w p) = cle_name (fst r)"
    "unstamp (wal_At w p) = unstamp (fst r)"
    by (simp_all add: e stamped_def payload_len_def unstamp_def)
  have "extract_payload (payload_len (fst r)) (wal_At w p) w p =
      take (min (payload_len (fst r)) 20) (cle_name (fst r)) @ snd r"
    using assms(2) extract_conts_all [OF c]
    by (simp add: extract_payload_def kInlineMax_def cc pl wf_record_def)
  then show "(unstamp (wal_At w p), extract_payload (payload_len (wal_At w p)) (wal_At w p) w p) = record_view r"
    by (simp add: record_view_def pl)
qed

lemma inv_scan:
  assumes inv: "wp_inv s" and c: "\<not> wp_cleared s" and lt: "wp_scan s < wal_head (wp_wal s)"
    and e: "e = wal_At (wp_wal s) (wp_scan s)" and r: "IsReady e"
  shows "wp_inv (s\<lparr>wp_scan := wp_scan s + SlotCount e,
    wp_out := wp_out s @ [(unstamp e, extract_payload (payload_len e) e (wp_wal s) (wp_scan s))]\<rparr>)"
proof -
  note D = wp_invD [OF inv]
  let ?n = "length (wp_out s)" and ?rs = "wp_log s" and ?w = "wp_wal s"
  have n: "?n < length ?rs"
    using lt D(3-5) by (metis le_neq_implies_less less_irrefl)
  have not_fl: "\<not> in_flight ?w (pos_of ?rs ?n) x (wp_writers s t)" for t x
    using r by (auto simp: in_flight_def unready_def e wal_At_def slot_at_def D(5))
  with D(8) [OF order.refl n] have pub: "published ?w (pos_of ?rs ?n) (?rs ! ?n)" by blast
  have wf: "wf_record (?rs ! ?n)" using D(2) n by (simp add: list_all_length)
  note V = published_view [OF pub wf, folded D(5), folded e]
  define s' where "s' = s\<lparr>wp_scan := wp_scan s + SlotCount e,
    wp_out := wp_out s @ [(unstamp e, extract_payload (payload_len e) e (wp_wal s) (wp_scan s))]\<rparr>"
  have f: "wp_wal s' = ?w" "wp_log s' = ?rs" "wp_out s' = wp_out s @ [record_view (?rs ! ?n)]"
    "wp_scan s' = wp_scan s + slots_of (?rs ! ?n)" "wp_cleared s' = False" "wp_writers s' = wp_writers s"
    using c V by (simp_all add: s'_def)
  have "wp_inv s'"
  proof (rule wp_invI, unfold f length_append_singleton)
    show "wp_out s @ [record_view (?rs ! ?n)] = map record_view (take (Suc ?n) ?rs)"
      using D(7) n by (simp add: take_Suc_conv_app_nth)
    show "wp_scan s + slots_of (?rs ! ?n) = pos_of ?rs (Suc ?n)"
      using D(5) n by (simp add: pos_of_Suc)
    show "\<exists>k\<ge>Suc ?n. k < length ?rs \<and> in_flight ?w (pos_of ?rs k) (?rs ! k) (wp_writers s t)"
      if "wp_writers s t \<noteq> WIdle" for t
      using D(9) [OF that] not_fl by (metis le_antisym not_less_eq_eq)
    show "published ?w (pos_of ?rs k) (?rs ! k) \<or> (\<exists>t. in_flight ?w (pos_of ?rs k) (?rs ! k) (wp_writers s t))"
      if "Suc ?n \<le> k" "k < length ?rs" for k using D(8) [of k] that by simp
    show "t = u" if "Suc ?n \<le> k" "k < length ?rs" "in_flight ?w (pos_of ?rs k) (?rs ! k) (wp_writers s t)"
      "in_flight ?w (pos_of ?rs k) (?rs ! k) (wp_writers s u)" for t u k
      using D(10) [of k t u] that by simp
  qed (use D(1-3,6,11) n in auto)
  then show ?thesis by (simp only: s'_def)
qed

lemma ClearRange_loop_frame [simp]:
  "wal_capacity (ClearRange_loop p n w) = wal_capacity w" "wal_head (ClearRange_loop p n w) = wal_head w"
  "wal_checkpoint_pos (ClearRange_loop p n w) = wal_checkpoint_pos w"
  "wal_inv (ClearRange_loop p n w) = wal_inv w"
  by (induction n arbitrary: p w) simp_all

lemma slot_at_ClearRange_loop:
  assumes "wal_inv w" "wal_checkpoint_pos w \<le> p" "p + n \<le> wal_checkpoint_pos w + wal_capacity w"
    "wal_checkpoint_pos w \<le> q" "q < wal_checkpoint_pos w + wal_capacity w"
  shows "slot_at (ClearRange_loop p n w) q = (if p \<le> q \<and> q < p + n then slot_zero else slot_at w q)"
  using assms
proof (induction n arbitrary: p w)
  case 0
  then show ?case by auto
next
  case (Suc n)
  let ?w = "wal_DramWrite p slot_zero w"
  have "slot_at (ClearRange_loop (Suc p) n ?w) q =
      (if Suc p \<le> q \<and> q < Suc p + n then slot_zero else slot_at ?w q)"
    using Suc.prems by (intro Suc.IH) auto
  moreover have "slot_at ?w q = (if q = p then slot_zero else slot_at w q)"
    using Suc.prems by (intro window_write) auto
  ultimately show ?case by auto
qed

lemma inv_clear:
  assumes inv: "wp_inv s"
  shows "wp_inv (s\<lparr>wp_wal := ClearRange (wal_checkpoint_pos (wp_wal s)) (wp_scan s) (wp_wal s), wp_cleared := True\<rparr>)"
proof -
  note D = wp_invD [OF inv]
  let ?w = "wp_wal s" and ?rs = "wp_log s" and ?n = "length (wp_out s)"
  define w' where "w' = ClearRange (wal_checkpoint_pos ?w) (wp_scan s) ?w"
  have same: "wal_capacity w' = wal_capacity ?w" "wal_head w' = wal_head ?w"
    "wal_checkpoint_pos w' = wal_checkpoint_pos ?w" "wal_inv w' = wal_inv ?w"
    by (simp_all add: w'_def ClearRange_def)
  have sc: "wp_scan s \<le> wal_head ?w" using D(3-5) pos_of_mono by metis
  have hd: "wal_head ?w < wal_checkpoint_pos ?w + wal_capacity ?w" using D(1) by (auto simp: wal_inv_def)
  have slot: "slot_at w' q = (if q < wp_scan s then slot_zero else slot_at ?w q)"
    if "wal_checkpoint_pos ?w \<le> q" "q < wal_checkpoint_pos ?w + wal_capacity ?w" for q
    unfolding w'_def ClearRange_def
    using slot_at_ClearRange_loop [OF D(1) _ _ that, of "wal_checkpoint_pos ?w" "wp_scan s - wal_checkpoint_pos ?w"]
      D(6) sc hd that by auto
  have ss: "same_slots ?w w' (pos_of ?rs k) (slots_of (?rs ! k))" if "?n \<le> k" "k < length ?rs" for k
    unfolding same_slots_def
    using slot window [OF inv that] D(5) pos_of_mono [OF that(1), of ?rs] by fastforce
  define s' where "s' = s\<lparr>wp_wal := w', wp_cleared := True\<rparr>"
  have f: "wp_wal s' = w'" "wp_log s' = ?rs" "wp_out s' = wp_out s" "wp_scan s' = wp_scan s"
    "wp_cleared s' = True" "wp_writers s' = wp_writers s"
    by (simp_all add: s'_def)
  note fr = published_frame [OF ss] in_flight_frame [OF ss]
  have "wp_inv s'"
  proof (rule wp_invI, unfold f same)
    show "published w' (pos_of ?rs k) (?rs ! k) \<or> (\<exists>t. in_flight w' (pos_of ?rs k) (?rs ! k) (wp_writers s t))"
      if "?n \<le> k" "k < length ?rs" for k using D(8) [OF that] fr [OF that] by auto
    show "\<exists>k\<ge>?n. k < length ?rs \<and> in_flight w' (pos_of ?rs k) (?rs ! k) (wp_writers s t)"
      if "wp_writers s t \<noteq> WIdle" for t using D(9) [OF that] fr by metis
    show "t = u" if "?n \<le> k" "k < length ?rs" "in_flight w' (pos_of ?rs k) (?rs ! k) (wp_writers s t)"
      "in_flight w' (pos_of ?rs k) (?rs ! k) (wp_writers s u)" for t u k
      using D(10) [OF that(1,2)] fr [OF that(1,2)] that(3,4) by metis
    show "unready w' q" if "wal_head ?w \<le> q" "q < wal_checkpoint_pos ?w + wal_capacity ?w" for q
      using D(11) [OF that] slot [OF _ that(2)] that sc D(6) by (simp add: unready_def)
    show "unready w' q" if "wal_checkpoint_pos ?w \<le> q" "q < wp_scan s" for q
      using slot [of q] that sc hd by (simp add: unready_def)
  qed (use D(1-7) in simp_all)
  then show ?thesis by (simp only: s'_def w'_def)
qed

lemma inv_advance:
  assumes inv: "wp_inv s" and c: "wp_cleared s"
  shows "wp_inv (s\<lparr>wp_wal := AdvanceCheckpoint (wp_scan s) (wp_wal s), wp_cleared := False\<rparr>)"
proof -
  note D = wp_invD [OF inv]
  let ?w = "wp_wal s" and ?rs = "wp_log s" and ?n = "length (wp_out s)"
  define w' where "w' = AdvanceCheckpoint (wp_scan s) ?w"
  have same: "wal_capacity w' = wal_capacity ?w" "wal_head w' = wal_head ?w"
    "wal_checkpoint_pos w' = wp_scan s" "slot_at w' q = slot_at ?w q" for q
    by (simp_all add: w'_def AdvanceCheckpoint_def)
  have sc: "wp_scan s \<le> wal_head ?w" using D(3-5) pos_of_mono by metis
  have eqs: "in_flight w' = in_flight ?w" "published w' = published ?w" "unready w' = unready ?w"
    by (simp_all add: fun_eq_iff in_flight_def published_def unready_def conts_at_def same)
  from D(1) obtain k where cap: "wal_capacity ?w = 2 ^ k" by (auto simp: wal_inv_def)
  have wrapped: "unready ?w q" if q: "wal_head ?w \<le> q" "q < wp_scan s + wal_capacity ?w" for q
  proof (cases "q < wal_checkpoint_pos ?w + wal_capacity ?w")
    case True
    with D(11) q show ?thesis by blast
  next
    case False
    then have "slot_at ?w q = slot_at ?w (q - wal_capacity ?w)"
      by (simp add: slot_at_def ring_index_mod [OF cap] le_mod_geq)
    with False q D(12) [OF c, of "q - wal_capacity ?w"] show ?thesis by (simp add: unready_def)
  qed
  define s' where "s' = s\<lparr>wp_wal := w', wp_cleared := False\<rparr>"
  have f: "wp_wal s' = w'" "wp_log s' = ?rs" "wp_out s' = wp_out s" "wp_scan s' = wp_scan s"
    "wp_cleared s' = False" "wp_writers s' = wp_writers s"
    by (simp_all add: s'_def)
  have "wp_inv s'"
  proof (rule wp_invI, unfold f same eqs)
    show "wal_inv w'" using D(1,6) sc by (auto simp: wal_inv_def same)
  qed (use D(2-10) wrapped in \<open>blast+\<close>)
  then show ?thesis by (simp only: s'_def w'_def)
qed

lemma wal_step_inv: "wal_step s s' \<Longrightarrow> wp_inv s \<Longrightarrow> wp_inv s'"
  by (induction rule: wal_step.induct)
     (rule inv_reserve inv_stamp inv_write_cont inv_publish inv_scan inv_clear inv_advance; assumption)+

lemma wal_reachable_inv: "wal_reachable k m s \<Longrightarrow> wp_inv s"
  by (induction rule: wal_reachable.induct) (auto intro: inv_init wal_step_inv)

section \<open>A run of one append\<close>

definition short_record :: wal_record where
  "short_record = (entry_zero\<lparr>cle_op := walop_code kWALUnlink, cle_name_len := 2,
     cle_name := [97, 98] @ replicate 18 0\<rparr>, [])"

lemma short_record_wf [simp]: "wf_record short_record" "slots_of short_record = 1" "snd short_record = []"
  by (simp_all add: short_record_def wf_record_def payload_len_def slots_of_def)

definition reserved_state :: wal_proto where
  "reserved_state = (proto_init (empty_wal 3 0))
     \<lparr>wp_wal := (empty_wal 3 0)\<lparr>wal_head := 1\<rparr>,
      wp_writers := (\<lambda>_. WIdle)(0 := WReserved 0 short_record), wp_log := [short_record]\<rparr>"

lemma reserved_reachable: "wal_reachable 3 0 reserved_state"
proof -
  let ?i = "proto_init (empty_wal 3 0)"
  have "wal_step ?i (?i\<lparr>wp_wal := (empty_wal 3 0)\<lparr>wal_head := 1\<rparr>,
      wp_writers := (wp_writers ?i)(0 := WReserved 0 short_record), wp_log := wp_log ?i @ [short_record]\<rparr>)"
    by (rule wal_step.reserve) (simp_all add: proto_init_def TryReserveSlots_def empty_wal_def)
  then have "wal_step ?i reserved_state" by (simp add: reserved_state_def proto_init_def)
  with wal_reachable.start show ?thesis by (rule wal_reachable.step)
qed

text \<open>From any state in which the only writer has reserved one slot it can finish its append.\<close>

lemma finish_append:
  assumes "wp_writers s = (\<lambda>_. WIdle)(0 := WReserved p r)" "snd r = []"
  shows "\<exists>s'. wal_step\<^sup>*\<^sup>* s s' \<and> wp_writers s' = (\<lambda>_. WIdle) \<and> wp_log s' = wp_log s \<and> wp_out s' = wp_out s \<and>
    wp_scan s' = wp_scan s \<and> wp_cleared s' = wp_cleared s \<and> wal_head (wp_wal s') = wal_head (wp_wal s)"
proof -
  obtain l w1 where l: "AllocLocalSeq (wp_wal s) = (l, w1)" by fastforce
  obtain v t w2 where v: "NextVersion 0 no_tls w1 = (v, t, w2)" by (metis prod_cases3)
  have h: "wal_head w2 = wal_head (wp_wal s)"
    by (subst NextVersion_frame [OF v], subst AllocLocalSeq_frame(1) [OF l]) simp
  define s1 where "s1 = s\<lparr>wp_wal := w2, wp_writers := (wp_writers s)(0 := WWriting p l v r 0)\<rparr>"
  have 1: "wal_step s s1"
    using wal_step.stamp [OF _ l v, of 0 p r] assms by (simp add: s1_def)
  define s2 where "s2 = s1\<lparr>wp_wal := wal_DramWrite p (entry_bytes (stamped (fst r) l v (snd r))) (wp_wal s1),
    wp_writers := (wp_writers s1)(0 := WIdle)\<rparr>"
  have 2: "wal_step s1 s2"
    unfolding s2_def by (rule wal_step.publish) (simp add: s1_def)
  from 1 2 have "wal_step\<^sup>*\<^sup>* s s2" by simp
  moreover have "wp_writers s2 = (\<lambda>_. WIdle)" using assms(1) by (auto simp: s2_def s1_def fun_eq_iff)
  ultimately show ?thesis
    using h by (intro exI [of _ s2]) (simp add: s2_def s1_def)
qed

lemma reachable_steps: "wal_step\<^sup>*\<^sup>* s s' \<Longrightarrow> wal_reachable k m s \<Longrightarrow> wal_reachable k m s'"
  by (induction rule: rtranclp_induct) (auto intro: wal_reachable.step)

lemma published_state:
  "\<exists>s. wal_reachable 3 0 s \<and> (\<forall>t. wp_writers s t = WIdle) \<and> wp_log s = [short_record] \<and> wp_out s = [] \<and>
     \<not> wp_cleared s \<and> wp_scan s < wal_head (wp_wal s)"
proof -
  have w: "wp_writers reserved_state = (\<lambda>_. WIdle)(0 := WReserved 0 short_record)"
    by (simp add: reserved_state_def)
  from finish_append [OF w] obtain s where s: "wal_step\<^sup>*\<^sup>* reserved_state s" "wp_writers s = (\<lambda>_. WIdle)"
    "wp_log s = wp_log reserved_state" "wp_out s = wp_out reserved_state" "wp_scan s = wp_scan reserved_state"
    "wp_cleared s = wp_cleared reserved_state" "wal_head (wp_wal s) = wal_head (wp_wal reserved_state)"
    by auto
  with reachable_steps [OF s(1) reserved_reachable] show ?thesis
    by (intro exI [of _ s]) (simp add: reserved_state_def proto_init_def)
qed

lemma scan_enabled:
  assumes "wal_reachable k m s" "\<forall>t. wp_writers s t = WIdle" "\<not> wp_cleared s"
    "wp_scan s < wal_head (wp_wal s)"
  shows "\<exists>s'. wal_step s s' \<and> length (wp_out s') = Suc (length (wp_out s)) \<and> wp_log s' = wp_log s"
proof -
  note inv = wal_reachable_inv [OF assms(1)]
  note D = wp_invD [OF inv]
  have n: "length (wp_out s) < length (wp_log s)"
    using assms(4) D(3-5) by (metis le_neq_implies_less less_irrefl)
  from D(8) [OF order.refl n] assms(2)
  have "published (wp_wal s) (pos_of (wp_log s) (length (wp_out s))) (wp_log s ! length (wp_out s))" by simp
  moreover have "wf_record (wp_log s ! length (wp_out s))" using D(2) n by (simp add: list_all_length)
  ultimately have "\<not> unready (wp_wal s) (wp_scan s)" unfolding D(5) by (rule published_ready)
  then have "IsReady (wal_At (wp_wal s) (wp_scan s))" by (simp add: unready_def wal_At_def slot_at_def)
  note st = wal_step.scan [OF assms(3,4) refl this]
  then show ?thesis by (intro exI conjI, assumption) simp_all
qed

section \<open>Properties\<close>

text \<open>C4: whatever the interleaving of appending threads and the checkpoint thread, what the checkpoint
  thread has read is an initial part of the records in the order their slots were reserved, each
  with its complete name: no record is lost, duplicated, reordered or seen half written.\<close>

theorem wal_delivers_in_order:
  assumes "wal_reachable k m s"
  shows "wp_out s = map record_view (take (length (wp_out s)) (wp_log s))"
  using wal_reachable_inv [OF assms] by (rule wp_invD(7))

theorem wal_delivers_in_order_witness:
  "\<exists>s. wal_reachable 3 0 s \<and> wp_out s = [record_view short_record]"
proof -
  obtain s s' where s: "wal_reachable 3 0 s" "wal_step s s'" "length (wp_out s') = 1" "wp_log s' = [short_record]"
    using published_state scan_enabled by (metis One_nat_def list.size(3))
  then have r: "wal_reachable 3 0 s'" by (blast intro: wal_reachable.step)
  from wal_delivers_in_order [OF r] s(3,4) r show ?thesis by auto
qed




end
