(* ===== verification/InodeArray.thy ===== *)
theory InodeArray
  imports CxlMem MetadataTypes
begin

text \<open>
  Inode storage on CXL memory (\<open>inode_array.h\<close>): every server has a block with a header and a table
  of segment offsets, every segment holds \<open>2 ^ 20\<close> slots of 128 bytes, and a slot is a control word
  (dirty bit, version, valid bit) followed by the eleven words of an inode.  The array works on the
  shared memory of \<open>CxlMem\<close>.  \<open>None\<close> is an abnormal end: the pool is exhausted, an access fails its
  bounds check (the code then works on an uninitialised buffer), an array index is out of range, or a
  spin loop never ends.
\<close>

section \<open>Words in memory\<close>

definition words_bytes :: "u64 list \<Rightarrow> byte list" where
  "words_bytes ws = concat (map (le_bytes 8) ws)"

fun bytes_words :: "nat \<Rightarrow> byte list \<Rightarrow> u64 list" where
  "bytes_words 0 bs = []"
| "bytes_words (Suc n) bs = le_word (take 8 bs) # bytes_words n (drop 8 bs)"

definition read_words :: "nat \<Rightarrow> nat \<Rightarrow> CXLMem \<Rightarrow> u64 list option" where
  "read_words offset n m = map_option (bytes_words n) (cm_Read offset (8 * n) m)"

definition write_words :: "nat \<Rightarrow> u64 list \<Rightarrow> CXLMem \<Rightarrow> CXLMem option" where
  "write_words offset ws m = cm_Write offset (8 * length ws) (words_bytes ws) m"

section \<open>Layout\<close>

definition kSlotBits :: nat where "kSlotBits = 20"
definition kSlotsPerSegment :: nat where "kSlotsPerSegment = 2 ^ kSlotBits"
definition kSlotMask :: u64 where "kSlotMask = push_bit kSlotBits 1 - 1"
definition kSlotSize :: nat where "kSlotSize = 128"
definition kSegmentSize :: nat where "kSegmentSize = kSlotsPerSegment * kSlotSize"
definition kMaxSegments :: nat where "kMaxSegments = 1024"
definition kIAHeaderSize :: nat where "kIAHeaderSize = 64"
definition kBlockSize :: nat where "kBlockSize = kIAHeaderSize + kMaxSegments * 8"
definition kMaxMetaNumOfGroup :: nat where "kMaxMetaNumOfGroup = 8"
definition kExpandingBit :: u64 where "kExpandingBit = push_bit 63 1"

lemmas ia_consts = kSlotBits_def kSlotsPerSegment_def kSlotSize_def kSegmentSize_def kMaxSegments_def
  kIAHeaderSize_def kBlockSize_def kMaxMetaNumOfGroup_def

record InodeArrayHeader =
  ih_ctrl :: u64
  ih_num_segments :: u64
  ih_base_id :: u64
  ih_meta_id :: u64
  ih_version :: u64
  ih_reserved :: "u64 list"

definition header_words :: "InodeArrayHeader \<Rightarrow> u64 list" where
  "header_words h = [ih_ctrl h, ih_num_segments h, ih_base_id h, ih_meta_id h, ih_version h] @ ih_reserved h"

definition words_header :: "u64 list \<Rightarrow> InodeArrayHeader" where
  "words_header ws = \<lparr>ih_ctrl = ws ! 0, ih_num_segments = ws ! 1, ih_base_id = ws ! 2,
     ih_meta_id = ws ! 3, ih_version = ws ! 4, ih_reserved = take 3 (drop 5 ws)\<rparr>"

definition kDirtyBit :: u64 where "kDirtyBit = push_bit 63 1"
definition kVersionShift :: nat where "kVersionShift = 56"
definition kVersionMask :: u64 where "kVersionMask = push_bit kVersionShift 0x7F"
definition kValidBit :: u64 where "kValidBit = 1"

definition ctrl_dirty :: "u64 \<Rightarrow> bool" where "ctrl_dirty c \<longleftrightarrow> c AND kDirtyBit \<noteq> 0"
definition ctrl_valid :: "u64 \<Rightarrow> bool" where "ctrl_valid c \<longleftrightarrow> c AND kValidBit \<noteq> 0"

definition MakeLocked :: "u64 \<Rightarrow> u64" where
  "MakeLocked ctrl = ctrl OR kDirtyBit"

definition MakeUnlockedWithVersionBump :: "u64 \<Rightarrow> u64" where
  "MakeUnlockedWithVersionBump old_ctrl =
    (let ver = (drop_bit kVersionShift old_ctrl AND 0x7F) + 1;
         cleared = old_ctrl AND NOT (kDirtyBit OR kVersionMask)
     in cleared OR push_bit kVersionShift (ver AND 0x7F))"

section \<open>State\<close>

record InodeArray =
  ia_meta_id :: nat
  ia_n_mds :: nat
  ia_base_id :: u64
  ia_local_num_segments :: nat
  ia_block_offs :: "nat \<Rightarrow> nat"
  ia_seg_offsets :: "nat \<Rightarrow> nat \<Rightarrow> nat"

text \<open>The part of the shared \<open>DFSHeader\<close> the arrays use.\<close>

record DFSHeader =
  dfs_inode_array_block_offset :: "nat \<Rightarrow> nat"

definition set_seg :: "nat \<Rightarrow> nat \<Rightarrow> nat \<Rightarrow> InodeArray \<Rightarrow> InodeArray" where
  "set_seg meta idx off a =
     a\<lparr>ia_seg_offsets := (ia_seg_offsets a)(meta := (ia_seg_offsets a meta)(idx := off))\<rparr>"

section \<open>Operations\<close>

definition InitBlock ::
  "DFSHeader \<Rightarrow> InodeArray \<Rightarrow> CXLMem \<Rightarrow> (DFSHeader \<times> InodeArray \<times> CXLMem) option" where
  "InitBlock dfs a m =
    do { (block_off, m) \<leftarrow> cm_Alloc kBlockSize m;
         let a = a\<lparr>ia_block_offs := (ia_block_offs a)(ia_meta_id a := block_off)\<rparr>;
         (seg0_off, m) \<leftarrow> cm_Alloc kSegmentSize m;
         m \<leftarrow> write_words (block_off + kIAHeaderSize) [of_nat seg0_off, 0, 0, 0, 0, 0, 0, 0] m;
         let hdr = \<lparr>ih_ctrl = 0, ih_num_segments = 1, ih_base_id = ia_base_id a,
                    ih_meta_id = of_nat (ia_meta_id a), ih_version = 1, ih_reserved = [0, 0, 0]\<rparr>;
         m \<leftarrow> write_words block_off (header_words hdr) m;
         let dfs = dfs\<lparr>dfs_inode_array_block_offset :=
                    (dfs_inode_array_block_offset dfs)(ia_meta_id a := block_off)\<rparr>;
         let a = (set_seg (ia_meta_id a) 0 seg0_off a)\<lparr>ia_local_num_segments := 1\<rparr>;
         Some (dfs, a, m) }"

definition InodeArray_new ::
  "nat \<Rightarrow> nat \<Rightarrow> u64 \<Rightarrow> DFSHeader \<Rightarrow> CXLMem \<Rightarrow> (DFSHeader \<times> InodeArray \<times> CXLMem) option" where
  "InodeArray_new meta_id n_mds base_id dfs m =
     InitBlock dfs
       \<lparr>ia_meta_id = meta_id, ia_n_mds = n_mds, ia_base_id = base_id, ia_local_num_segments = 0,
        ia_block_offs = (\<lambda>_. 0), ia_seg_offsets = (\<lambda>_ _. 0)\<rparr> m"

definition ia_SetMds :: "nat \<Rightarrow> DFSHeader \<Rightarrow> InodeArray \<Rightarrow> InodeArray" where
  "ia_SetMds n_mds dfs a =
     a\<lparr>ia_block_offs := (\<lambda>i. if i < n_mds then dfs_inode_array_block_offset dfs i else ia_block_offs a i),
       ia_n_mds := n_mds\<rparr>"

definition ia_GetSpace :: "InodeArray \<Rightarrow> nat" where
  "ia_GetSpace a =
    (let segments = length (filter (\<lambda>(i, j). ia_seg_offsets a i j \<noteq> 0)
                             (List.product [0..<ia_n_mds a] [0..<kMaxSegments]))
     in segments * kSegmentSize + kBlockSize * ia_n_mds a)"

text \<open>The wait for the EXPANDING bit re-reads the header until it is clear.\<close>

partial_function (option) wait_expanded :: "nat \<Rightarrow> CXLMem \<Rightarrow> InodeArrayHeader option" where
  "wait_expanded block_off m =
    do { ws \<leftarrow> read_words block_off 8 m;
         let hdr = words_header ws;
         if ih_ctrl hdr AND kExpandingBit \<noteq> 0 then wait_expanded block_off m else Some hdr }"

definition cache_line :: "nat \<Rightarrow> nat \<Rightarrow> u64 list \<Rightarrow> InodeArray \<Rightarrow> InodeArray" where
  "cache_line meta cacheline_idx cl a =
     fold (\<lambda>i a. let idx = cacheline_idx * 8 + i in
             if idx < kMaxSegments \<and> cl ! i \<noteq> 0 then set_seg meta idx (unat (cl ! i)) a else a) [0..<8] a"

definition FetchForeignSegOffset ::
  "nat \<Rightarrow> nat \<Rightarrow> InodeArray \<Rightarrow> CXLMem \<Rightarrow> (nat \<times> InodeArray) option" where
  "FetchForeignSegOffset target_meta seg_idx a m =
    (let target_block_off = ia_block_offs a target_meta in
     if target_block_off = 0 then Some (0, a)
     else do { hdr \<leftarrow> wait_expanded target_block_off m;
               if seg_idx \<ge> unat (ih_num_segments hdr) then Some (0, a)
               else do { let cacheline_idx = seg_idx div 8;
                         cl \<leftarrow> read_words (target_block_off + kIAHeaderSize + cacheline_idx * 64) 8 m;
                         Some (unat (cl ! (seg_idx mod 8)), cache_line target_meta cacheline_idx cl a) } })"

text \<open>0 means that there is no slot.\<close>

definition ResolveSlot :: "u64 \<Rightarrow> InodeArray \<Rightarrow> CXLMem \<Rightarrow> (nat \<times> InodeArray) option" where
  "ResolveSlot inode_id a m =
    (let meta = drop_bit INODE_ID_RANGE inode_id;
         base = push_bit INODE_ID_RANGE meta;
         local_id = inode_id - base;
         seg_idx = unat (drop_bit kSlotBits local_id);
         slot_off = unat (local_id AND kSlotMask);
         meta = unat meta
     in if meta \<ge> kMaxMetaNumOfGroup \<or> seg_idx \<ge> kMaxSegments then Some (0, a)
        else let seg_off = ia_seg_offsets a meta seg_idx in
          if seg_off \<noteq> 0 then Some (seg_off + slot_off * kSlotSize, a)
          else if meta = ia_meta_id a then Some (0, a)
          else do { (seg_off, a) \<leftarrow> FetchForeignSegOffset meta seg_idx a m;
                    if seg_off = 0 then Some (0, a)
                    else Some (seg_off + slot_off * kSlotSize, a) })"

definition EnsureSegment :: "nat \<Rightarrow> InodeArray \<Rightarrow> CXLMem \<Rightarrow> (InodeArray \<times> CXLMem) option" where
  "EnsureSegment seg_idx a m =
    (if seg_idx \<ge> kMaxSegments then None
     else if ia_seg_offsets a (ia_meta_id a) seg_idx \<noteq> 0 then Some (a, m)
     else do {
       let block_off = ia_block_offs a (ia_meta_id a);
       (acquired, m) \<leftarrow>
         (case cm_Cas block_off 0 kExpandingBit m of
            (_, None, _) \<Rightarrow> None
          | (_, Some old, m) \<Rightarrow>
             if old = 0 then Some (True, m)
             else do { ws \<leftarrow> read_words block_off 8 m;
                       m \<leftarrow> write_words block_off (header_words ((words_header ws)\<lparr>ih_ctrl := 0\<rparr>)) m;
                       (case cm_Cas block_off 0 kExpandingBit m of
                          (_, None, _) \<Rightarrow> None
                        | (_, Some old, m) \<Rightarrow> Some (old = 0, m)) });
       if \<not> acquired then Some (a, m)
       else do {
         (new_off, m) \<leftarrow> cm_Alloc kSegmentSize m;
         let cacheline_off = block_off + kIAHeaderSize + seg_idx div 8 * 64;
         cl \<leftarrow> read_words cacheline_off 8 m;
         m \<leftarrow> write_words cacheline_off (cl[seg_idx mod 8 := of_nat new_off]) m;
         ws \<leftarrow> read_words block_off 8 m;
         let hdr = (words_header ws)\<lparr>ih_ctrl := 0\<rparr>;
         let hdr = (if of_nat (seg_idx + 1) > ih_num_segments hdr
                    then hdr\<lparr>ih_num_segments := of_nat (seg_idx + 1)\<rparr> else hdr);
         let hdr = hdr\<lparr>ih_version := ih_version hdr + 1\<rparr>;
         m \<leftarrow> write_words block_off (header_words hdr) m;
         let a = set_seg (ia_meta_id a) seg_idx new_off a;
         let a = (if seg_idx + 1 > ia_local_num_segments a
                  then a\<lparr>ia_local_num_segments := seg_idx + 1\<rparr> else a);
         Some (a, m) } })"

definition slot_words :: "u64 \<Rightarrow> Inode \<Rightarrow> u64 list" where
  "slot_words ctrl i = ctrl # inode_words i @ [0, 0, 0, 0]"

definition ia_insert :: "u64 \<Rightarrow> Inode \<Rightarrow> InodeArray \<Rightarrow> CXLMem \<Rightarrow> (InodeArray \<times> CXLMem) option" where
  "ia_insert key val a m =
    (let local_id = key - ia_base_id a;
         seg_idx = unat (drop_bit kSlotBits local_id);
         slot_off = unat (local_id AND kSlotMask)
     in do { (a, m) \<leftarrow> EnsureSegment seg_idx a m;
             let offset = ia_seg_offsets a (ia_meta_id a) seg_idx + slot_off * kSlotSize;
             m \<leftarrow> write_words offset (slot_words kValidBit val) m;
             Some (a, m) })"

text \<open>The loop of \<open>find\<close>.  Every access to a cache line sees the memory of its moment: the \<open>i\<close>-th
  access sees \<open>env i\<close>.  One round reads the first line, and if that is unlocked and valid reads both
  lines and compares the control words.\<close>

partial_function (option) find_loop :: "(nat \<Rightarrow> CXLMem) \<Rightarrow> nat \<Rightarrow> nat \<Rightarrow> Inode option option" where
  "find_loop env offset i =
    do { v \<leftarrow> read_words offset 8 (env i);
         let ctrl_before = v ! 0;
         if ctrl_dirty ctrl_before then find_loop env offset (i + 1)
         else if \<not> ctrl_valid ctrl_before then Some None
         else do { l0 \<leftarrow> read_words offset 8 (env (i + 1));
                   l1 \<leftarrow> read_words (offset + 64) 8 (env (i + 2));
                   if l0 ! 0 \<noteq> ctrl_before then find_loop env offset (i + 3)
                   else Some (Some (words_inode (take 11 (drop 1 (l0 @ l1))))) } }"

definition ia_find :: "u64 \<Rightarrow> InodeArray \<Rightarrow> CXLMem \<Rightarrow> (Inode option \<times> InodeArray) option" where
  "ia_find key a m =
    do { (offset, a) \<leftarrow> ResolveSlot key a m;
         if offset = 0 then Some (None, a)
         else do { r \<leftarrow> find_loop (\<lambda>_. m) offset 0; Some (r, a) } }"

text \<open>The wait for the dirty bit of \<open>update_fn\<close> and \<open>erase\<close>.\<close>

partial_function (option) spin_unlocked :: "nat \<Rightarrow> CXLMem \<Rightarrow> u64 option" where
  "spin_unlocked offset m =
    do { v \<leftarrow> read_words offset 8 m;
         if ctrl_dirty (v ! 0) then spin_unlocked offset m else Some (v ! 0) }"

text \<open>The lock loop of \<open>update_fn\<close> and \<open>erase\<close>: \<open>Inl\<close> when the slot is not valid, else the
  control word the compare-and-swap replaced and the memory with the dirty bit set.  A failed swap
  yields the control word it found, and the loop goes round with it.\<close>

partial_function (option) lock_loop :: "nat \<Rightarrow> u64 \<Rightarrow> CXLMem \<Rightarrow> (unit + u64 \<times> CXLMem) option" where
  "lock_loop offset old_ctrl m =
    do { old_ctrl \<leftarrow> (if ctrl_dirty old_ctrl then spin_unlocked offset m else Some old_ctrl);
         if \<not> ctrl_valid old_ctrl then Some (Inl ())
         else (case cm_Cas offset old_ctrl (MakeLocked old_ctrl) m of
                 (swapped, cas_result, m') \<Rightarrow>
                   if swapped then Some (Inr (old_ctrl, m'))
                   else (case cas_result of None \<Rightarrow> None | Some c \<Rightarrow> lock_loop offset c m)) }"

definition lock_slot :: "nat \<Rightarrow> CXLMem \<Rightarrow> (unit + u64 \<times> CXLMem) option" where
  "lock_slot offset m = do { v \<leftarrow> read_words offset 8 m; lock_loop offset (v ! 0) m }"

definition ia_update_fn ::
  "u64 \<Rightarrow> (Inode \<Rightarrow> Inode) \<Rightarrow> InodeArray \<Rightarrow> CXLMem \<Rightarrow> (bool \<times> InodeArray \<times> CXLMem) option" where
  "ia_update_fn key func a m =
    do { (offset, a) \<leftarrow> ResolveSlot key a m;
         if offset = 0 then Some (False, a, m)
         else do { l \<leftarrow> lock_slot offset m;
           (case l of
              Inl _ \<Rightarrow> Some (False, a, m)
            | Inr (old_ctrl, m) \<Rightarrow>
               do { buf \<leftarrow> read_words offset 16 m;
                    let inode = func (words_inode (take 11 (drop 1 buf)));
                    let final_ctrl = MakeUnlockedWithVersionBump old_ctrl OR kValidBit;
                    m \<leftarrow> write_words offset (final_ctrl # inode_words inode @ drop 12 buf) m;
                    Some (True, a, m) }) } }"

definition ia_update :: "u64 \<Rightarrow> Inode \<Rightarrow> InodeArray \<Rightarrow> CXLMem \<Rightarrow> (bool \<times> InodeArray \<times> CXLMem) option" where
  "ia_update key val = ia_update_fn key (\<lambda>_. val)"

text \<open>\<open>erase\<close> with the erased value as its result, \<open>None\<close> when there is no such inode.\<close>

definition ia_erase :: "u64 \<Rightarrow> InodeArray \<Rightarrow> CXLMem \<Rightarrow> (Inode option \<times> InodeArray \<times> CXLMem) option" where
  "ia_erase key a m =
    do { (offset, a) \<leftarrow> ResolveSlot key a m;
         if offset = 0 then Some (None, a, m)
         else do { l \<leftarrow> lock_slot offset m;
           (case l of
              Inl _ \<Rightarrow> Some (None, a, m)
            | Inr (old_ctrl, m) \<Rightarrow>
               do { buf \<leftarrow> read_words offset 16 m;
                    m \<leftarrow> write_words offset (replicate 8 0) m;
                    Some (Some (words_inode (take 11 (drop 1 buf))), a, m) }) } }"

section \<open>The word view of memory\<close>

definition wd :: "CXLMem \<Rightarrow> nat \<Rightarrow> u64" where
  "wd m a = cm_load64 a (cm_buf m)"

lemma length_words_bytes [simp]: "length (words_bytes ws) = 8 * length ws"
  by (induction ws) (simp_all add: words_bytes_def)

lemma words_bytes_Cons: "words_bytes (w # ws) = le_bytes 8 w @ words_bytes ws"
  by (simp add: words_bytes_def)

lemma bytes_words_upt:
  "bytes_words n (map f [0..<k]) = map (\<lambda>j. le_word (map f [8*j..<8*j+8])) [0..<n]" if "8 * n \<le> k"
  using that
proof (induction n arbitrary: f k)
  case 0
  then show ?case by simp
next
  case (Suc n)
  have d: "drop 8 (map f [0..<k]) = map (\<lambda>i. f (i + 8)) [0..<k - 8]"
    by (rule nth_equalityI) (use Suc.prems in \<open>auto simp: add.commute\<close>)
  have t: "take 8 (map f [0..<k]) = map f [0..<8]"
    by (rule nth_equalityI) (use Suc.prems in auto)
  have s: "map (\<lambda>i. f (i + 8)) [8*j..<8*j+8] = map f [8 * Suc j..<8 * Suc j + 8]" for j
    by (rule nth_equalityI) (auto simp: add.commute add.left_commute)
  have "bytes_words n (map (\<lambda>i. f (i + 8)) [0..<k - 8]) =
      map (\<lambda>j. le_word (map (\<lambda>i. f (i + 8)) [8*j..<8*j+8])) [0..<n]"
    using Suc.prems by (intro Suc.IH) simp
  then have "bytes_words (Suc n) (map f [0..<k]) =
      le_word (map f [0..<8]) # map (\<lambda>j. le_word (map f [8 * Suc j..<8 * Suc j + 8])) [0..<n]"
    by (simp only: bytes_words.simps d t s)
  also have "\<dots> = map (\<lambda>j. le_word (map f [8*j..<8*j+8])) [0..<Suc n]"
    by (simp only: map_upt_Suc mult_0_right add_0)
  finally show ?case .
qed

lemma read_words_wd:
  "read_words off n m = Some ws \<longleftrightarrow>
     off + 8 * n \<le> cm_pool_end m \<and> ws = map (\<lambda>k. wd m (off + 8 * k)) [0..<n]"
proof -
  have "bytes_words n (map (\<lambda>i. cm_buf m (off + i)) [0..<round64 (8 * n)]) =
      map (\<lambda>k. wd m (off + 8 * k)) [0..<n]"
  proof -
    have "map (\<lambda>i. cm_buf m (off + i)) [8 * k..<8 * k + 8] = map (\<lambda>i. cm_buf m (off + 8 * k + i)) [0..<8]" for k
      by (rule nth_equalityI) (auto simp: add.assoc)
    then show ?thesis
      by (simp only: bytes_words_upt [OF round64_bounds(1)] wd_def cm_load64_def)
  qed
  then show ?thesis
    by (auto simp: read_words_def cm_Read_def)
qed

lemma words_bytes_nth: "k < 8 * length ws \<Longrightarrow> words_bytes ws ! k = le_bytes 8 (ws ! (k div 8)) ! (k mod 8)"
proof (induction ws arbitrary: k)
  case Nil
  then show ?case by simp
next
  case (Cons w ws)
  show ?case
  proof (cases "k < 8")
    case True
    then show ?thesis by (simp add: words_bytes_Cons nth_append)
  next
    case False
    then have "words_bytes (w # ws) ! k = words_bytes ws ! (k - 8)"
      by (simp add: words_bytes_Cons nth_append)
    also have "\<dots> = le_bytes 8 (ws ! ((k - 8) div 8)) ! ((k - 8) mod 8)"
      using Cons.prems False by (intro Cons.IH) simp
    finally show ?thesis
      using False by (simp add: le_div_geq le_mod_geq)
  qed
qed

lemma map_nth_le_bytes: "map (\<lambda>i. le_bytes 8 w ! i) [0..<8] = le_bytes 8 (w :: u64)"
  by (rule nth_equalityI) simp_all

lemma write_words_wd:
  assumes "write_words off ws m = Some m'" "8 dvd length ws"
  shows "8 dvd a \<Longrightarrow> 8 dvd off \<Longrightarrow>
      wd m' a = (if off \<le> a \<and> a < off + 8 * length ws then ws ! ((a - off) div 8) else wd m a)"
    and "cm_pool_base m' = cm_pool_base m" "cm_alloc m' = cm_alloc m"
    and "off + 8 * length ws \<le> cm_pool_end m"
proof -
  have w: "cm_Write off (8 * length ws) (words_bytes ws) m = Some m'" "64 dvd 8 * length ws"
    using assms by (auto simp: write_words_def elim!: dvdE)
  note buf = cm_Write_buf [OF w]
  show "wd m' a = (if off \<le> a \<and> a < off + 8 * length ws then ws ! ((a - off) div 8) else wd m a)"
    if al: "8 dvd a" "8 dvd off"
  proof (cases "off \<le> a \<and> a < off + 8 * length ws")
    case True
    from True al obtain k where a: "a = off + 8 * k"
      by (metis dvd_diff_nat dvd_def le_add_diff_inverse)
    with True have k: "k < length ws" by simp
    have "cm_buf m' (a + i) = le_bytes 8 (ws ! k) ! i" if "i < 8" for i
      using that k by (simp add: buf a words_bytes_nth)
    then have "map (\<lambda>i. cm_buf m' (a + i)) [0..<8] = map (\<lambda>i. le_bytes 8 (ws ! k) ! i) [0..<8]"
      by (intro map_cong) auto
    then have "map (\<lambda>i. cm_buf m' (a + i)) [0..<8] = le_bytes 8 (ws ! k)"
      by (simp only: map_nth_le_bytes)
    then have "wd m' a = ws ! k" by (simp add: wd_def cm_load64_def)
    with True a show ?thesis by simp
  next
    case False
    have "cm_buf m' (a + i) = cm_buf m (a + i)" if "i < 8" for i
    proof -
      obtain j k where jk: "a = 8 * j" "off = 8 * k" using al by (auto elim!: dvdE)
      from False that show ?thesis unfolding jk by (simp add: buf jk) linarith
    qed
    then have "map (\<lambda>i. cm_buf m' (a + i)) [0..<8] = map (\<lambda>i. cm_buf m (a + i)) [0..<8]"
      by (intro map_cong) auto
    then have "wd m' a = wd m a" by (simp only: wd_def cm_load64_def)
    with False show ?thesis by auto
  qed
  show "cm_pool_base m' = cm_pool_base m" "cm_alloc m' = cm_alloc m" "off + 8 * length ws \<le> cm_pool_end m"
    using w(1) by (auto simp: cm_Write_def split: if_splits)
qed

lemma write_words_ok: "off + 8 * length ws \<le> cm_pool_end m \<Longrightarrow> \<exists>m'. write_words off ws m = Some m'"
  by (simp add: write_words_def cm_Write_def)

lemma wd_store64:
  assumes "8 dvd a" "8 dvd off"
  shows "cm_load64 a (cm_store64 off w buf) = (if a = off then w else cm_load64 a buf)"
proof (cases "a = off")
  case True
  have "map (\<lambda>i. cm_store64 off w buf (off + i)) [0..<8] = map (\<lambda>i. le_bytes 8 w ! i) [0..<8]"
    by (simp add: cm_store64_def)
  with True map_nth_le_bytes [of w] show ?thesis by (simp add: cm_load64_def)
next
  case False
  obtain j k where "a = 8 * j" "off = 8 * k" using assms by (auto elim!: dvdE)
  with False have "map (\<lambda>i. cm_store64 off w buf (a + i)) [0..<8] = map (\<lambda>i. buf (a + i)) [0..<8]"
    by (auto simp: cm_store64_def)
  with False show ?thesis by (simp only: cm_load64_def) simp
qed

lemma cm_Cas_wd:
  assumes "off + 8 \<le> cm_pool_end m" "8 dvd off"
  shows "cm_Cas off c s m = (if wd m off = c
     then (True, Some c, m\<lparr>cm_buf := cm_store64 off s (cm_buf m)\<rparr>) else (False, Some (wd m off), m))"
  using assms by (auto simp: cm_Cas_def wd_def Let_def)

lemma cm_Alloc_wd:
  assumes "cm_Alloc n m = Some (off, m')"
  shows "wd m' = wd m" "cm_pool_base m' = cm_pool_base m" "off = cm_pool_end m"
    "cm_pool_end m' = cm_pool_end m + round64 n" "cm_buf m' = cm_buf m"
    "na_offset (cm_alloc m) + round64 n \<le> na_capacity (cm_alloc m)"
    "na_capacity (cm_alloc m') = na_capacity (cm_alloc m)"
    "na_offset (cm_alloc m') = na_offset (cm_alloc m) + round64 n"
  using assms by (auto simp: cm_Alloc_def CXLMallocOffset_Some wd_def fun_eq_iff cm_pool_end_def
      split: bind_splits)

section \<open>Invariant and abstraction\<close>

text \<open>The segment offset that block \<open>i\<close> records for segment \<open>j\<close>, and the regions in use.\<close>

definition seg_at :: "(nat \<Rightarrow> nat) \<Rightarrow> CXLMem \<Rightarrow> nat \<Rightarrow> nat \<Rightarrow> nat" where
  "seg_at B m i j = (if B i = 0 then 0 else unat (wd m (B i + 64 + 8 * j)))"

datatype ia_region = Blk nat | Seg nat nat

fun reg_start :: "(nat \<Rightarrow> nat) \<Rightarrow> CXLMem \<Rightarrow> ia_region \<Rightarrow> nat" where
  "reg_start B m (Blk i) = B i"
| "reg_start B m (Seg i j) = seg_at B m i j"

fun reg_len :: "ia_region \<Rightarrow> nat" where
  "reg_len (Blk i) = kBlockSize"
| "reg_len (Seg i j) = kSegmentSize"

fun reg_ok :: "ia_region \<Rightarrow> bool" where
  "reg_ok (Blk i) = (i < 8)"
| "reg_ok (Seg i j) = (i < 8 \<and> j < 1024)"

definition live :: "(nat \<Rightarrow> nat) \<Rightarrow> CXLMem \<Rightarrow> ia_region \<Rightarrow> bool" where
  "live B m r \<longleftrightarrow> reg_ok r \<and> reg_start B m r \<noteq> 0"

definition pool_inv :: "CXLMem \<Rightarrow> bool" where
  "pool_inv m \<longleftrightarrow> 0 < cm_pool_base m \<and> 64 dvd cm_pool_base m \<and> 64 dvd na_offset (cm_alloc m) \<and>
     na_offset (cm_alloc m) \<le> na_capacity (cm_alloc m) \<and>
     cm_pool_base m + na_capacity (cm_alloc m) < 2 ^ 64 \<and>
     (\<forall>x. cm_pool_end m \<le> x \<longrightarrow> cm_buf m x = 0)"

definition ia_mem_inv :: "(nat \<Rightarrow> nat) \<Rightarrow> CXLMem \<Rightarrow> bool" where
  "ia_mem_inv B m \<longleftrightarrow> pool_inv m \<and>
     (\<forall>r. live B m r \<longrightarrow> 64 dvd reg_start B m r \<and> cm_pool_base m \<le> reg_start B m r \<and>
        reg_start B m r + reg_len r \<le> cm_pool_end m) \<and>
     (\<forall>r r'. live B m r \<and> live B m r' \<and> r \<noteq> r' \<longrightarrow>
        reg_start B m r + reg_len r \<le> reg_start B m r' \<or> reg_start B m r' + reg_len r' \<le> reg_start B m r) \<and>
     (\<forall>i<8. B i \<noteq> 0 \<longrightarrow> wd m (B i) = 0 \<and>
        (\<forall>j<1024. seg_at B m i j \<noteq> 0 \<longrightarrow> j < unat (wd m (B i + 8)))) \<and>
     (\<forall>i<8. \<forall>j<1024. \<forall>s<2 ^ 20. seg_at B m i j \<noteq> 0 \<longrightarrow> \<not> ctrl_dirty (wd m (seg_at B m i j + s * 128)))"

definition ia_cache_inv :: "InodeArray \<Rightarrow> CXLMem \<Rightarrow> bool" where
  "ia_cache_inv a m \<longleftrightarrow> ia_meta_id a < 8 \<and> ia_base_id a = push_bit 50 (of_nat (ia_meta_id a)) \<and>
     ia_block_offs a (ia_meta_id a) \<noteq> 0 \<and>
     (\<forall>i<8. \<forall>j<1024. ia_seg_offsets a i j \<noteq> 0 \<longrightarrow> ia_seg_offsets a i j = seg_at (ia_block_offs a) m i j) \<and>
     (\<forall>j<1024. ia_seg_offsets a (ia_meta_id a) j = seg_at (ia_block_offs a) m (ia_meta_id a) j)"

definition ia_inv :: "InodeArray \<Rightarrow> CXLMem \<Rightarrow> bool" where
  "ia_inv a m \<longleftrightarrow> ia_mem_inv (ia_block_offs a) m \<and> ia_cache_inv a m"

definition key_meta :: "u64 \<Rightarrow> nat" where "key_meta k = unat k div 2 ^ 50"
definition key_seg :: "u64 \<Rightarrow> nat" where "key_seg k = unat k mod 2 ^ 50 div 2 ^ 20"
definition key_slot :: "u64 \<Rightarrow> nat" where "key_slot k = unat k mod 2 ^ 20"

definition slot_addr :: "(nat \<Rightarrow> nat) \<Rightarrow> CXLMem \<Rightarrow> u64 \<Rightarrow> nat" where
  "slot_addr B m k =
    (if key_meta k < 8 \<and> key_seg k < 1024 \<and> seg_at B m (key_meta k) (key_seg k) \<noteq> 0
     then seg_at B m (key_meta k) (key_seg k) + key_slot k * 128 else 0)"

definition slot_inode :: "CXLMem \<Rightarrow> nat \<Rightarrow> Inode" where
  "slot_inode m off = words_inode (map (\<lambda>k. wd m (off + 8 + 8 * k)) [0..<11])"

definition slot_val :: "CXLMem \<Rightarrow> nat \<Rightarrow> Inode option" where
  "slot_val m off = (if ctrl_valid (wd m off) then Some (slot_inode m off) else None)"

text \<open>Server \<open>i\<close> may add segments of its own; every other entry of the segment tables stays.\<close>

definition segs_grow :: "nat \<Rightarrow> (nat \<Rightarrow> nat) \<Rightarrow> CXLMem \<Rightarrow> CXLMem \<Rightarrow> bool" where
  "segs_grow i B m m' \<longleftrightarrow>
     (\<forall>i'<8. \<forall>j<1024. (i' = i \<longrightarrow> seg_at B m i' j \<noteq> 0) \<longrightarrow> seg_at B m' i' j = seg_at B m i' j)"

text \<open>The map from inode ids to inodes that the array represents.\<close>

definition ia_abs :: "InodeArray \<Rightarrow> CXLMem \<Rightarrow> u64 \<Rightarrow> Inode option" where
  "ia_abs a m k =
    (if slot_addr (ia_block_offs a) m k = 0 then None else slot_val m (slot_addr (ia_block_offs a) m k))"

lemmas ia_sizes = kSlotSize_def kMaxSegments_def kMaxMetaNumOfGroup_def

section \<open>Resolving an id to a slot\<close>

lemma key_parts:
  "unat (drop_bit INODE_ID_RANGE k) = key_meta k"
  "unat (drop_bit kSlotBits (k - push_bit INODE_ID_RANGE (drop_bit INODE_ID_RANGE k))) = key_seg k"
  "unat ((k - push_bit INODE_ID_RANGE (drop_bit INODE_ID_RANGE k)) AND kSlotMask) = key_slot k"
proof -
  show 1: "unat (drop_bit INODE_ID_RANGE k) = key_meta k"
    by (simp only: INODE_ID_RANGE_def key_meta_def unat_drop_bit)
  have lt: "unat k div 2 ^ 50 < 2 ^ 14" using unat_lt_exp64 [of k] by (intro less_mult_imp_div_less) simp
  have "unat (push_bit INODE_ID_RANGE (drop_bit INODE_ID_RANGE k)) = unat k div 2 ^ 50 * 2 ^ 50"
    unfolding INODE_ID_RANGE_def using lt
    by (subst unat_push_bit_small) (simp_all only: unat_drop_bit, simp_all)
  moreover have "unat k div 2 ^ 50 * 2 ^ 50 \<le> unat k" by (rule div_times_less_eq_dividend)
  ultimately have loc: "unat (k - push_bit INODE_ID_RANGE (drop_bit INODE_ID_RANGE k)) = unat k mod 2 ^ 50"
    by (simp add: unat_sub word_le_nat_alt minus_div_mult_eq_mod)
  show "unat (drop_bit kSlotBits (k - push_bit INODE_ID_RANGE (drop_bit INODE_ID_RANGE k))) = key_seg k"
    by (simp only: kSlotBits_def unat_drop_bit loc key_seg_def)
  have mask: "kSlotMask = mask 20" by (simp add: kSlotMask_def kSlotBits_def mask_eq_exp_minus_1)
  have "unat ((k - push_bit INODE_ID_RANGE (drop_bit INODE_ID_RANGE k)) AND kSlotMask) = unat k mod 2 ^ 50 mod 2 ^ 20"
    unfolding mask take_bit_eq_mask [symmetric]
    by (simp only: unsigned_take_bit_eq take_bit_eq_mod [where 'a = nat] loc)
  then show "unat ((k - push_bit INODE_ID_RANGE (drop_bit INODE_ID_RANGE k)) AND kSlotMask) = key_slot k"
    by (simp add: key_slot_def mod_mod_cancel)
qed

lemma key_inj: "key_meta k = key_meta k' \<Longrightarrow> key_seg k = key_seg k' \<Longrightarrow> key_slot k = key_slot k' \<Longrightarrow> k = k'"
proof -
  have dec: "unat k = key_meta k * 2 ^ 50 + (key_seg k * 2 ^ 20 + key_slot k)" for k
  proof -
    have "key_slot k = unat k mod 2 ^ 50 mod 2 ^ 20" by (simp add: key_slot_def mod_mod_cancel)
    then have "key_seg k * 2 ^ 20 + key_slot k = unat k mod 2 ^ 50"
      by (simp only: key_seg_def div_mult_mod_eq)
    then show ?thesis by (simp only: key_meta_def div_mult_mod_eq)
  qed
  assume "key_meta k = key_meta k'" "key_seg k = key_seg k'" "key_slot k = key_slot k'"
  then have "unat k = unat k'" using dec [of k] dec [of k'] by simp
  then show ?thesis by (simp add: word_unat_eq_iff)
qed

lemma key_slot_lt: "key_slot k < 2 ^ 20"
  by (simp add: key_slot_def)

lemma live_Seg [simp]: "live B m (Seg i j) \<longleftrightarrow> i < 8 \<and> j < 1024 \<and> seg_at B m i j \<noteq> 0"
  by (auto simp: live_def)

lemma live_Blk [simp]: "live B m (Blk i) \<longleftrightarrow> i < 8 \<and> B i \<noteq> 0"
  by (auto simp: live_def)

lemma mem_invD:
  assumes "ia_mem_inv B m"
  shows "pool_inv m"
    "\<And>r. live B m r \<Longrightarrow> 64 dvd reg_start B m r" "\<And>r. live B m r \<Longrightarrow> cm_pool_base m \<le> reg_start B m r"
    "\<And>r. live B m r \<Longrightarrow> reg_start B m r + reg_len r \<le> cm_pool_end m"
    "\<And>r r'. live B m r \<Longrightarrow> live B m r' \<Longrightarrow> r \<noteq> r' \<Longrightarrow>
       reg_start B m r + reg_len r \<le> reg_start B m r' \<or> reg_start B m r' + reg_len r' \<le> reg_start B m r"
    "\<And>i. i < 8 \<Longrightarrow> B i \<noteq> 0 \<Longrightarrow> wd m (B i) = 0"
    "\<And>i j. i < 8 \<Longrightarrow> B i \<noteq> 0 \<Longrightarrow> j < 1024 \<Longrightarrow> seg_at B m i j \<noteq> 0 \<Longrightarrow> j < unat (wd m (B i + 8))"
    "\<And>i j s. i < 8 \<Longrightarrow> j < 1024 \<Longrightarrow> s < 2 ^ 20 \<Longrightarrow> seg_at B m i j \<noteq> 0 \<Longrightarrow>
       \<not> ctrl_dirty (wd m (seg_at B m i j + s * 128))"
  using assms unfolding ia_mem_inv_def by blast+

lemma slot_addr_Some:
  assumes "ia_mem_inv B m" "slot_addr B m k \<noteq> 0"
  shows "live B m (Seg (key_meta k) (key_seg k))"
    "slot_addr B m k = seg_at B m (key_meta k) (key_seg k) + key_slot k * 128"
    "64 dvd slot_addr B m k" "slot_addr B m k + 128 \<le> cm_pool_end m" "\<not> ctrl_dirty (wd m (slot_addr B m k))"
proof -
  show l: "live B m (Seg (key_meta k) (key_seg k))"
    and e: "slot_addr B m k = seg_at B m (key_meta k) (key_seg k) + key_slot k * 128"
    using assms(2) by (auto simp: slot_addr_def split: if_splits)
  note D = mem_invD [OF assms(1)]
  show "64 dvd slot_addr B m k" unfolding e using D(2) [OF l] by simp
  have "key_slot k * 128 + 128 \<le> kSegmentSize"
    using key_slot_lt [of k] by (simp add: ia_consts)
  then show "slot_addr B m k + 128 \<le> cm_pool_end m" unfolding e using D(4) [OF l] by simp
  show "\<not> ctrl_dirty (wd m (slot_addr B m k))"
    unfolding e using D(8) [of "key_meta k" "key_seg k" "key_slot k"] l key_slot_lt by simp
qed

lemma cache_line_spec:
  "ia_seg_offsets (cache_line meta ci cl a) i j =
    (if i = meta \<and> j div 8 = ci \<and> j < kMaxSegments \<and> cl ! (j mod 8) \<noteq> 0 then unat (cl ! (j mod 8))
     else ia_seg_offsets a i j)"
  "ia_block_offs (cache_line meta ci cl a) = ia_block_offs a"
  "ia_meta_id (cache_line meta ci cl a) = ia_meta_id a" "ia_base_id (cache_line meta ci cl a) = ia_base_id a"
proof -
  define f where "f = (\<lambda>i a. let idx = ci * 8 + i in
     if idx < kMaxSegments \<and> cl ! i \<noteq> 0 then set_seg meta idx (unat (cl ! i)) a else a)"
  have F: "ia_seg_offsets (fold f [0..<n] a) i j =
      (if i = meta \<and> ci * 8 \<le> j \<and> j < ci * 8 + n \<and> j < kMaxSegments \<and> cl ! (j - ci * 8) \<noteq> 0
       then unat (cl ! (j - ci * 8)) else ia_seg_offsets a i j) \<and>
      ia_block_offs (fold f [0..<n] a) = ia_block_offs a \<and> ia_meta_id (fold f [0..<n] a) = ia_meta_id a \<and>
      ia_base_id (fold f [0..<n] a) = ia_base_id a" for n
    by (induction n) (auto simp: f_def Let_def set_seg_def less_Suc_eq)
  have "ci * 8 \<le> j \<and> j < ci * 8 + 8 \<longleftrightarrow> j div 8 = ci" by auto
  moreover have "j - ci * 8 = j mod 8" if "j div 8 = ci" using that by (auto simp: minus_div_mult_eq_mod)
  ultimately show "ia_seg_offsets (cache_line meta ci cl a) i j =
    (if i = meta \<and> j div 8 = ci \<and> j < kMaxSegments \<and> cl ! (j mod 8) \<noteq> 0 then unat (cl ! (j mod 8))
     else ia_seg_offsets a i j)"
    using F [of 8] unfolding cache_line_def f_def [symmetric] by auto
  show "ia_block_offs (cache_line meta ci cl a) = ia_block_offs a"
    "ia_meta_id (cache_line meta ci cl a) = ia_meta_id a" "ia_base_id (cache_line meta ci cl a) = ia_base_id a"
    using F [of 8] unfolding cache_line_def f_def [symmetric] by auto
qed

lemma read_words_ok: "off + 8 * n \<le> cm_pool_end m \<Longrightarrow> read_words off n m = Some (map (\<lambda>k. wd m (off + 8 * k)) [0..<n])"
  by (simp add: read_words_wd)

lemma FetchForeign_spec:
  assumes inv: "ia_mem_inv (ia_block_offs a) m" and c: "ia_cache_inv a m" and ij: "i < 8" "j < 1024"
  obtains a' where "FetchForeignSegOffset i j a m = Some (seg_at (ia_block_offs a) m i j, a')"
    "ia_cache_inv a' m" "ia_block_offs a' = ia_block_offs a" "ia_meta_id a' = ia_meta_id a"
proof (cases "ia_block_offs a i = 0")
  case True
  then show thesis using that [of a] c by (simp add: FetchForeignSegOffset_def seg_at_def)
next
  case False
  let ?b = "ia_block_offs a i"
  note D = mem_invD [OF inv]
  have blk: "?b + 8256 \<le> cm_pool_end m" using D(4) [of "Blk i"] False ij by (simp add: ia_consts)
  have hdr: "wait_expanded ?b m = Some (words_header (map (\<lambda>k. wd m (?b + 8 * k)) [0..<8]))"
    using D(6) [OF ij(1) False] blk
    by (subst wait_expanded.simps) (simp add: read_words_ok words_header_def)
  have num: "ih_num_segments (words_header (map (\<lambda>k. wd m (?b + 8 * k)) [0..<8])) = wd m (?b + 8)"
    by (simp add: words_header_def)
  show thesis
  proof (cases "unat (wd m (?b + 8)) \<le> j")
    case True
    then have "seg_at (ia_block_offs a) m i j = 0" using D(7) [OF ij(1) False ij(2)] by fastforce
    then show thesis using that [of a] c True False by (simp add: FetchForeignSegOffset_def hdr num)
  next
    case nj: False
    let ?cl = "map (\<lambda>k. wd m (?b + 64 + j div 8 * 64 + 8 * k)) [0..<8]"
    have "j div 8 < 128" using ij by (intro less_mult_imp_div_less) simp
    then have cl: "read_words (?b + kIAHeaderSize + j div 8 * 64) 8 m = Some ?cl"
      using blk ij by (subst read_words_ok) (simp_all add: ia_consts)
    have nth: "?cl ! (j' mod 8) = wd m (?b + 64 + 8 * j')" if "j' div 8 = j div 8" for j'
    proof -
      have "j div 8 * 8 + j' mod 8 = j'" using div_mult_mod_eq [of j' 8] that by simp
      then have "j div 8 * 64 + 8 * (j' mod 8) = 8 * j'" by linarith
      then show ?thesis by (simp add: add.assoc)
    qed
    let ?a' = "cache_line i (j div 8) ?cl a"
    have "FetchForeignSegOffset i j a m = Some (seg_at (ia_block_offs a) m i j, ?a')"
      using False nj cl nth [of j] by (simp add: FetchForeignSegOffset_def hdr num seg_at_def Let_def)
    moreover have "ia_cache_inv ?a' m"
    proof -
      have "unat (?cl ! (j' mod 8)) = seg_at (ia_block_offs a) m i j'" if "j' div 8 = j div 8" for j'
        using nth [OF that] False by (simp only: seg_at_def) simp
      then show ?thesis using c unfolding ia_cache_inv_def cache_line_spec by auto
    qed
    ultimately show thesis using that [of ?a'] by (simp add: cache_line_spec)
  qed
qed

lemma ResolveSlot_spec:
  assumes "ia_inv a m"
  obtains a' where "ResolveSlot k a m = Some (slot_addr (ia_block_offs a) m k, a')" "ia_inv a' m"
    "ia_block_offs a' = ia_block_offs a" "ia_meta_id a' = ia_meta_id a"
proof -
  have mi: "ia_mem_inv (ia_block_offs a) m" and c: "ia_cache_inv a m" using assms by (auto simp: ia_inv_def)
  let ?i = "key_meta k" and ?j = "key_seg k" and ?B = "ia_block_offs a"
  consider (out) "\<not> (?i < 8 \<and> ?j < 1024)"
    | (hit) "?i < 8" "?j < 1024" "ia_seg_offsets a ?i ?j \<noteq> 0"
    | (own) "?i < 8" "?j < 1024" "ia_seg_offsets a ?i ?j = 0" "?i = ia_meta_id a"
    | (miss) "?i < 8" "?j < 1024" "ia_seg_offsets a ?i ?j = 0" "?i \<noteq> ia_meta_id a" by blast
  then show thesis
  proof cases
    case out
    then show thesis using that [of a] assms
      by (auto simp: ResolveSlot_def Let_def key_parts slot_addr_def ia_sizes)
  next
    case hit
    then have "ia_seg_offsets a ?i ?j = seg_at ?B m ?i ?j" using c by (simp add: ia_cache_inv_def)
    then show thesis using that [of a] assms hit
      by (simp add: ResolveSlot_def Let_def key_parts slot_addr_def ia_sizes)
  next
    case own
    then have "seg_at ?B m ?i ?j = 0" using c by (simp add: ia_cache_inv_def)
    then show thesis using that [of a] assms own
      by (simp add: ResolveSlot_def Let_def key_parts slot_addr_def ia_sizes)
  next
    case miss
    obtain a' where f: "FetchForeignSegOffset ?i ?j a m = Some (seg_at ?B m ?i ?j, a')"
      and a': "ia_cache_inv a' m" "ia_block_offs a' = ?B" "ia_meta_id a' = ia_meta_id a"
      using FetchForeign_spec [OF mi c miss(1,2)] .
    have "ResolveSlot k a m = Some (slot_addr ?B m k, a')"
      using miss f by (simp add: ResolveSlot_def Let_def key_parts slot_addr_def ia_sizes)
    then show thesis using that [of a'] a' mi by (simp add: ia_inv_def)
  qed
qed

lemma mem_invI:
  assumes "pool_inv m"
    "\<And>r. live B m r \<Longrightarrow> 64 dvd reg_start B m r" "\<And>r. live B m r \<Longrightarrow> cm_pool_base m \<le> reg_start B m r"
    "\<And>r. live B m r \<Longrightarrow> reg_start B m r + reg_len r \<le> cm_pool_end m"
    "\<And>r r'. live B m r \<Longrightarrow> live B m r' \<Longrightarrow> r \<noteq> r' \<Longrightarrow>
       reg_start B m r + reg_len r \<le> reg_start B m r' \<or> reg_start B m r' + reg_len r' \<le> reg_start B m r"
    "\<And>i. i < 8 \<Longrightarrow> B i \<noteq> 0 \<Longrightarrow> wd m (B i) = 0"
    "\<And>i j. i < 8 \<Longrightarrow> B i \<noteq> 0 \<Longrightarrow> j < 1024 \<Longrightarrow> seg_at B m i j \<noteq> 0 \<Longrightarrow> j < unat (wd m (B i + 8))"
    "\<And>i j s. i < 8 \<Longrightarrow> j < 1024 \<Longrightarrow> s < 2 ^ 20 \<Longrightarrow> seg_at B m i j \<noteq> 0 \<Longrightarrow>
       \<not> ctrl_dirty (wd m (seg_at B m i j + s * 128))"
  shows "ia_mem_inv B m"
  unfolding ia_mem_inv_def using assms by blast

section \<open>Writing inside a slot\<close>

text \<open>A memory that differs only inside one slot, with the control word there unlocked.\<close>

definition slot_change :: "CXLMem \<Rightarrow> CXLMem \<Rightarrow> nat \<Rightarrow> bool" where
  "slot_change m m' off \<longleftrightarrow> cm_pool_base m' = cm_pool_base m \<and> cm_alloc m' = cm_alloc m \<and>
     (\<forall>x. x < off \<or> off + 128 \<le> x \<longrightarrow> cm_buf m' x = cm_buf m x)"

lemma slot_change_wd:
  assumes "slot_change m m' off" "8 dvd x" "64 dvd off" "x < off \<or> off + 128 \<le> x"
  shows "wd m' x = wd m x"
proof -
  obtain j k where jk: "x = 8 * j" "off = 64 * k" using assms(2,3) by (auto elim!: dvdE)
  have "map (\<lambda>i. cm_buf m' (x + i)) [0..<8] = map (\<lambda>i. cm_buf m (x + i)) [0..<8]"
  proof (rule map_cong [OF refl])
    fix i assume "i \<in> set [0..<8]"
    then have "x + i < off \<or> off + 128 \<le> x + i" using assms(4) unfolding jk by auto
    then show "cm_buf m' (x + i) = cm_buf m (x + i)" using assms(1) by (auto simp: slot_change_def)
  qed
  then show ?thesis by (simp only: wd_def cm_load64_def)
qed

lemma slot_change_trans: "slot_change m m' off \<Longrightarrow> slot_change m' m'' off \<Longrightarrow> slot_change m m'' off"
  by (auto simp: slot_change_def)

lemma slot_change_pool: "slot_change m m' off \<Longrightarrow> cm_pool_end m' = cm_pool_end m"
  by (simp add: slot_change_def cm_pool_end_def)

lemma slot_change_write:
  assumes "write_words off ws m = Some m'" "8 dvd length ws" "length ws \<le> 16"
  shows "slot_change m m' off"
proof -
  have w: "cm_Write off (8 * length ws) (words_bytes ws) m = Some m'" "64 dvd 8 * length ws"
    using assms by (auto simp: write_words_def elim!: dvdE)
  show ?thesis
    using cm_Write_buf [OF w] write_words_wd(2,3) [OF assms(1,2)] assms(3) by (auto simp: slot_change_def)
qed

lemma slot_change_cas: "slot_change m (m\<lparr>cm_buf := cm_store64 off s (cm_buf m)\<rparr>) off"
  by (auto simp: slot_change_def cm_store64_def)

lemma slot_write_inv:
  assumes inv: "ia_mem_inv B m" and k: "slot_addr B m k \<noteq> 0"
    and ch: "slot_change m m' (slot_addr B m k)" and un: "\<not> ctrl_dirty (wd m' (slot_addr B m k))"
  shows "ia_mem_inv B m'" "i < 8 \<Longrightarrow> j < 1024 \<Longrightarrow> seg_at B m' i j = seg_at B m i j"
    "slot_addr B m' k' = slot_addr B m k'"
    "k' \<noteq> k \<Longrightarrow> slot_addr B m k' \<noteq> 0 \<Longrightarrow> slot_val m' (slot_addr B m k') = slot_val m (slot_addr B m k')"
proof -
  note D = mem_invD [OF inv] and K = slot_addr_Some [OF inv k]
  let ?o = "slot_addr B m k"
  have in_seg: "seg_at B m (key_meta k) (key_seg k) \<le> ?o"
    "?o + 128 \<le> seg_at B m (key_meta k) (key_seg k) + kSegmentSize"
    using K(2) key_slot_lt [of k] by (simp_all add: ia_consts)
  have blk: "wd m' (B i + 8 * x) = wd m (B i + 8 * x)" if "i < 8" "B i \<noteq> 0" "8 * x < kBlockSize" for i x
  proof (rule slot_change_wd [OF ch _ K(3)])
    have l: "live B m (Blk i)" using that by simp
    show "8 dvd B i + 8 * x" using D(2) [OF l] by (auto elim!: dvdE)
    have "8 * x + 8 \<le> kBlockSize" using that(3) by (simp add: ia_consts)
    with D(5) [OF l K(1)] in_seg that(3) show "B i + 8 * x < ?o \<or> ?o + 128 \<le> B i + 8 * x" by auto
  qed
  have seg: "seg_at B m' i j = seg_at B m i j" if "i < 8" "j < 1024" for i j
    using blk [of i "8 + j"] that by (simp add: seg_at_def ia_consts algebra_simps)
  then show "i < 8 \<Longrightarrow> j < 1024 \<Longrightarrow> seg_at B m' i j = seg_at B m i j" .
  have rs: "reg_start B m' r = reg_start B m r" "live B m' r = live B m r" if "reg_ok r" for r
    using that seg by (cases r; simp add: live_def)+
  have lv: "live B m' r \<longleftrightarrow> live B m r" for r using rs by (auto simp: live_def)
  have ad: "slot_addr B m' x = slot_addr B m x" for x
    using seg by (auto simp: slot_addr_def)
  then show "slot_addr B m' k' = slot_addr B m k'" .
  have other: "wd m' (seg_at B m i j + s * 128 + 8 * x) = wd m (seg_at B m i j + s * 128 + 8 * x)"
    if l: "live B m (Seg i j)" and s: "s < 2 ^ 20" "x < 16"
      and ne: "(i, j, s) \<noteq> (key_meta k, key_seg k, key_slot k)" for i j s x
  proof (rule slot_change_wd [OF ch _ K(3)])
    show "8 dvd seg_at B m i j + s * 128 + 8 * x" using D(2) [OF l] by (auto elim!: dvdE)
    have b: "s * 128 + 8 * x < kSegmentSize" using s by (simp add: ia_consts)
    show "seg_at B m i j + s * 128 + 8 * x < ?o \<or> ?o + 128 \<le> seg_at B m i j + s * 128 + 8 * x"
    proof (cases "(i, j) = (key_meta k, key_seg k)")
      case True
      with ne have "s < key_slot k \<or> key_slot k < s" by auto
      with True s(2) K(2) show ?thesis by auto
    next
      case False
      with D(5) [OF l K(1)] b in_seg show ?thesis by auto
    qed
  qed
  show "slot_val m' (slot_addr B m k') = slot_val m (slot_addr B m k')" if "k' \<noteq> k" "slot_addr B m k' \<noteq> 0"
  proof -
    note K' = slot_addr_Some [OF inv that(2)]
    have ne: "(key_meta k', key_seg k', key_slot k') \<noteq> (key_meta k, key_seg k, key_slot k)"
      using key_inj that(1) by blast
    have w: "wd m' (slot_addr B m k' + 8 * x) = wd m (slot_addr B m k' + 8 * x)" if "x < 16" for x
      using other [OF K'(1) key_slot_lt that ne] by (simp only: K'(2))
    have "slot_inode m' (slot_addr B m k') = slot_inode m (slot_addr B m k')"
      unfolding slot_inode_def using w [of "Suc x" for x]
      by (intro arg_cong [of _ _ words_inode] map_cong) (auto simp: algebra_simps)
    with w [of 0] show ?thesis by (simp add: slot_val_def)
  qed
  have pe: "cm_pool_end m' = cm_pool_end m" "cm_pool_base m' = cm_pool_base m" "cm_alloc m' = cm_alloc m"
    using ch by (auto simp: slot_change_def cm_pool_end_def)
  have "pool_inv m'"
  proof -
    have "cm_buf m' x = 0" if "cm_pool_end m \<le> x" for x
    proof -
      have "?o + 128 \<le> x" using K(4) that by linarith
      then have "cm_buf m' x = cm_buf m x" using ch by (simp add: slot_change_def)
      with D(1) that show ?thesis by (simp add: pool_inv_def)
    qed
    with D(1) show ?thesis by (simp add: pool_inv_def pe)
  qed
  moreover have "\<not> ctrl_dirty (wd m' (seg_at B m' i j + s * 128))"
    if "i < 8" "j < 1024" "s < 2 ^ 20" "seg_at B m' i j \<noteq> 0" for i j s
  proof (cases "(i, j, s) = (key_meta k, key_seg k, key_slot k)")
    case True
    with un K(2) that seg show ?thesis by simp
  next
    case False
    with other [of i j s 0] D(8) [of i j s] that seg show ?thesis by simp
  qed
  moreover have "wd m' (B i) = 0" "\<And>j. j < 1024 \<Longrightarrow> seg_at B m' i j \<noteq> 0 \<Longrightarrow> j < unat (wd m' (B i + 8))"
    if "i < 8" "B i \<noteq> 0" for i
    using blk [OF that, of 0] blk [OF that, of 1] D(6,7) [OF that] seg [OF that(1)] by (simp_all add: ia_consts)
  moreover have live_start: "reg_start B m' r = reg_start B m r" if "live B m r" for r
    using rs(1) [of r] that by (simp add: live_def)
  ultimately show "ia_mem_inv B m'"
    using D(2-5) by (intro mem_invI) (simp_all add: lv pe live_start)
qed

section \<open>The operations on one slot\<close>

lemma ctrl_dirty_bit: "ctrl_dirty c \<longleftrightarrow> bit c 63"
proof -
  have "bit (c AND kDirtyBit) n \<longleftrightarrow> n = 63 \<and> bit c 63" for n
    unfolding kDirtyBit_def by (auto simp: bit_simps simp del: push_bit_of_1)
  then show ?thesis unfolding ctrl_dirty_def by (metis bit_0_eq bot_apply bot_bool_def bit_eqI)
qed

lemma ctrl_valid_bit: "ctrl_valid c \<longleftrightarrow> bit c 0"
  by (simp add: ctrl_valid_def kValidBit_def and_one_eq bit_0 odd_iff_mod_2_eq_one)

lemma ctrl_simps [simp]:
  "ctrl_valid kValidBit" "\<not> ctrl_dirty kValidBit" "\<not> ctrl_valid 0" "\<not> ctrl_dirty 0"
  by (simp_all add: ctrl_dirty_bit ctrl_valid_bit kValidBit_def bit_1_iff)

lemma MakeLocked_dirty: "ctrl_dirty (MakeLocked c)"
  by (simp add: ctrl_dirty_bit MakeLocked_def kDirtyBit_def bit_or_iff bit_push_bit_iff del: push_bit_of_1)

lemma unlocked_ctrl:
  "\<not> ctrl_dirty (MakeUnlockedWithVersionBump c OR kValidBit)"
  "ctrl_valid (MakeUnlockedWithVersionBump c OR kValidBit)"
proof -
  have "\<not> bit (x AND 0x7F :: u64) (63 - kVersionShift)" for x
  proof -
    have "(0x7F :: u64) = mask 7" by (simp add: mask_eq_exp_minus_1)
    then show ?thesis by (simp only: bit_and_iff bit_mask_iff kVersionShift_def) simp
  qed
  then show "\<not> ctrl_dirty (MakeUnlockedWithVersionBump c OR kValidBit)"
    by (simp add: ctrl_dirty_bit MakeUnlockedWithVersionBump_def Let_def bit_or_iff bit_and_iff
        bit_not_iff kDirtyBit_def bit_push_bit_iff kValidBit_def bit_1_iff del: push_bit_of_1)
  show "ctrl_valid (MakeUnlockedWithVersionBump c OR kValidBit)"
    by (simp add: ctrl_valid_bit bit_or_iff kValidBit_def bit_1_iff)
qed

lemma find_loop_quiet:
  assumes "off + 128 \<le> cm_pool_end m" "\<not> ctrl_dirty (wd m off)"
  shows "find_loop (\<lambda>_. m) off i = Some (slot_val m off)"
proof -
  have "take 11 (drop 1 (map (\<lambda>k. wd m (off + 8 * k)) [0..<8] @ map (\<lambda>k. wd m (off + 64 + 8 * k)) [0..<8]))
      = map (\<lambda>k. wd m (off + 8 + 8 * k)) [0..<11]"
    by (rule nth_equalityI) (auto simp: nth_append algebra_simps)
  with assms show ?thesis
    by (subst find_loop.simps) (simp add: read_words_ok slot_val_def slot_inode_def)
qed

lemma lock_slot_quiet:
  assumes "off + 128 \<le> cm_pool_end m" "\<not> ctrl_dirty (wd m off)" "64 dvd off"
  shows "lock_slot off m =
    (if ctrl_valid (wd m off)
     then Some (Inr (wd m off, m\<lparr>cm_buf := cm_store64 off (MakeLocked (wd m off)) (cm_buf m)\<rparr>))
     else Some (Inl ()))"
proof -
  have "8 dvd off" using assms(3) by (auto elim!: dvdE)
  then have "lock_loop off (wd m off) m =
    (if ctrl_valid (wd m off)
     then Some (Inr (wd m off, m\<lparr>cm_buf := cm_store64 off (MakeLocked (wd m off)) (cm_buf m)\<rparr>))
     else Some (Inl ()))"
    using assms by (subst lock_loop.simps) (simp add: cm_Cas_wd)
  then show ?thesis using assms by (simp add: lock_slot_def read_words_ok)
qed

text \<open>The inode words of a slot after the lock.\<close>

lemma locked_slot:
  fixes c :: u64
  assumes "off + 128 \<le> cm_pool_end m" "64 dvd off"
  defines "m1 \<equiv> m\<lparr>cm_buf := cm_store64 off c (cm_buf m)\<rparr>"
  shows "read_words off 16 m1 = Some (c # map (\<lambda>k. wd m (off + 8 + 8 * k)) [0..<15])"
    "slot_change m m1 off"
proof -
  have "8 dvd off" using assms(2) by (auto elim!: dvdE)
  then have "wd m1 (off + 8 * k) = (if k = 0 then c else wd m (off + 8 * k))" for k
    unfolding wd_def m1_def by (simp add: wd_store64 del: dvd_add_right_iff)
  moreover have "read_words off 16 m1 = Some (map (\<lambda>k. wd m1 (off + 8 * k)) [0..<16])"
    using assms(1) by (intro read_words_ok) (simp add: m1_def cm_pool_end_def)
  ultimately show "read_words off 16 m1 = Some (c # map (\<lambda>k. wd m (off + 8 + 8 * k)) [0..<15])"
    by (simp add: map_upt_Suc [of _ 15, simplified] algebra_simps)
  show "slot_change m m1 off" unfolding m1_def by (rule slot_change_cas)
qed

lemma slot_val_write:
  assumes "write_words off (c # inode_words i @ rest) m = Some m'" "length rest = 4" "64 dvd off"
  shows "wd m' off = c" "slot_inode m' off = i" "slot_change m m' off"
proof -
  have len: "8 dvd length (c # inode_words i @ rest)" "length (c # inode_words i @ rest) = 16" using assms(2) by simp_all
  have al: "8 dvd off" using assms(3) by (auto elim!: dvdE)
  have w: "wd m' (off + 8 * k) = (c # inode_words i @ rest) ! k" if "k < 16" for k
    using write_words_wd(1) [OF assms(1) len(1), of "off + 8 * k"] al that len by simp
  show "wd m' off = c" using w [of 0] by simp
  have "map (\<lambda>k. wd m' (off + 8 + 8 * k)) [0..<11] = inode_words i"
    by (rule nth_equalityI) (use w [of "Suc k" for k] in \<open>auto simp: nth_append algebra_simps\<close>)
  then show "slot_inode m' off = i" by (simp add: slot_inode_def)
  show "slot_change m m' off" using slot_change_write [OF assms(1) len(1)] len(2) by simp
qed

section \<open>Refinement of the map operations\<close>

lemma cache_inv_frame:
  assumes "ia_cache_inv a m" "\<And>i j. i < 8 \<Longrightarrow> j < 1024 \<Longrightarrow> seg_at (ia_block_offs a) m' i j = seg_at (ia_block_offs a) m i j"
  shows "ia_cache_inv a m'"
  using assms by (simp add: ia_cache_inv_def)

lemma segs_grow_refl [simp]: "segs_grow i B m m"
  by (simp add: segs_grow_def)

lemma segs_grow_trans: "segs_grow i B m m' \<Longrightarrow> segs_grow i B m' m'' \<Longrightarrow> segs_grow i B m m''"
  by (auto simp: segs_grow_def)

lemma slot_write_abs:
  assumes inv: "ia_inv a m" and k: "slot_addr (ia_block_offs a) m k \<noteq> 0"
    and ch: "slot_change m m' (slot_addr (ia_block_offs a) m k)"
    and un: "\<not> ctrl_dirty (wd m' (slot_addr (ia_block_offs a) m k))"
  shows "ia_inv a m'" "ia_abs a m' = (ia_abs a m)(k := slot_val m' (slot_addr (ia_block_offs a) m k))"
    "segs_grow (ia_meta_id a) (ia_block_offs a) m m'"
proof -
  have mi: "ia_mem_inv (ia_block_offs a) m" and c: "ia_cache_inv a m" using inv by (auto simp: ia_inv_def)
  note W = slot_write_inv [OF mi k ch un]
  show "ia_inv a m'" using W(1) cache_inv_frame [OF c W(2)] by (simp add: ia_inv_def)
  show "ia_abs a m' = (ia_abs a m)(k := slot_val m' (slot_addr (ia_block_offs a) m k))"
    using W(3,4) k by (auto simp: ia_abs_def fun_eq_iff)
  show "segs_grow (ia_meta_id a) (ia_block_offs a) m m'" using W(2) by (simp add: segs_grow_def)
qed

lemma ia_abs_cong: "ia_block_offs a' = ia_block_offs a \<Longrightarrow> ia_abs a' m = ia_abs a m"
  by (rule ext) (simp add: ia_abs_def)

lemma ia_find_spec:
  assumes "ia_inv a m"
  obtains a' where "ia_find k a m = Some (ia_abs a m k, a')" "ia_inv a' m" "ia_abs a' m = ia_abs a m"
    "ia_meta_id a' = ia_meta_id a" "ia_block_offs a' = ia_block_offs a"
proof -
  obtain a' where r: "ResolveSlot k a m = Some (slot_addr (ia_block_offs a) m k, a')" "ia_inv a' m"
    "ia_block_offs a' = ia_block_offs a" "ia_meta_id a' = ia_meta_id a" using ResolveSlot_spec [OF assms] .
  have mi: "ia_mem_inv (ia_block_offs a) m" using assms by (simp add: ia_inv_def)
  have "ia_find k a m = Some (ia_abs a m k, a')"
  proof (cases "slot_addr (ia_block_offs a) m k = 0")
    case True
    then show ?thesis by (simp add: ia_find_def r(1) ia_abs_def)
  next
    case False
    note K = slot_addr_Some [OF mi this]
    show ?thesis using False find_loop_quiet [OF K(4,5)] by (simp add: ia_find_def r(1) ia_abs_def)
  qed
  with that r ia_abs_cong [OF r(3)] show thesis by blast
qed

lemma ia_update_fn_spec:
  assumes "ia_inv a m"
  obtains a' m' where "ia_update_fn k f a m = Some (ia_abs a m k \<noteq> None, a', m')" "ia_inv a' m'"
    "ia_abs a' m' = (ia_abs a m)(k := map_option f (ia_abs a m k))"
    "ia_meta_id a' = ia_meta_id a" "ia_block_offs a' = ia_block_offs a"
    "cm_alloc m' = cm_alloc m" "cm_pool_base m' = cm_pool_base m"
    "segs_grow (ia_meta_id a) (ia_block_offs a) m m'"
proof -
  obtain a' where r: "ResolveSlot k a m = Some (slot_addr (ia_block_offs a) m k, a')" "ia_inv a' m"
    "ia_block_offs a' = ia_block_offs a" "ia_meta_id a' = ia_meta_id a" using ResolveSlot_spec [OF assms] .
  let ?o = "slot_addr (ia_block_offs a) m k"
  have mi: "ia_mem_inv (ia_block_offs a) m" using assms by (simp add: ia_inv_def)
  show thesis
  proof (cases "?o = 0 \<or> \<not> ctrl_valid (wd m ?o)")
    case True
    then have n: "ia_abs a m k = None" by (auto simp: ia_abs_def slot_val_def)
    have "ia_update_fn k f a m = Some (False, a', m)"
    proof (cases "?o = 0")
      case True
      then show ?thesis by (simp add: ia_update_fn_def r(1))
    next
      case False
      note K = slot_addr_Some [OF mi False]
      show ?thesis using False True lock_slot_quiet [OF K(4,5,3)] by (simp add: ia_update_fn_def r(1))
    qed
    with that [of a' m] r n show thesis by (simp add: ia_abs_cong [OF r(3)] fun_upd_idem)
  next
    case False
    then have o: "?o \<noteq> 0" and v: "ctrl_valid (wd m ?o)" by auto
    note K = slot_addr_Some [OF mi o]
    define m1 where "m1 = m\<lparr>cm_buf := cm_store64 ?o (MakeLocked (wd m ?o)) (cm_buf m)\<rparr>"
    note L = locked_slot [OF K(4,3), of "MakeLocked (wd m ?o)", folded m1_def]
    define buf where "buf = MakeLocked (wd m ?o) # map (\<lambda>k. wd m (?o + 8 + 8 * k)) [0..<15]"
    have ib: "words_inode (take 11 (drop 1 buf)) = slot_inode m ?o"
      by (simp add: buf_def slot_inode_def take_map)
    define i where "i = f (slot_inode m ?o)"
    define c where "c = MakeUnlockedWithVersionBump (wd m ?o) OR kValidBit"
    have "length (c # inode_words i @ drop 12 buf) = 16" by (simp add: buf_def)
    then obtain m2 where w: "write_words ?o (c # inode_words i @ drop 12 buf) m1 = Some m2"
      using write_words_ok [of ?o "c # inode_words i @ drop 12 buf" m1] K(4) slot_change_pool [OF L(2)] by auto
    have "length (drop 12 buf) = 4" by (simp add: buf_def)
    note W = slot_val_write [OF w this K(3)]
    have ch: "slot_change m m2 ?o" using slot_change_trans [OF L(2) W(3)] .
    have u: "ia_update_fn k f a m = Some (True, a', m2)"
      using o v lock_slot_quiet [OF K(4,5,3), folded m1_def] L(1) [folded buf_def] w ib
      by (simp add: ia_update_fn_def r(1) i_def c_def)
    have sv: "slot_val m2 ?o = Some i" "\<not> ctrl_dirty (wd m2 ?o)"
      using W(1,2) unlocked_ctrl by (simp_all add: slot_val_def c_def)
    have ab: "ia_abs a m k = Some (slot_inode m ?o)" using o v by (simp add: ia_abs_def slot_val_def)
    have B: "slot_addr (ia_block_offs a') m k = ?o" by (simp add: r(3))
    note S = slot_write_abs [OF r(2), of k m2, unfolded B, OF o ch sv(2)]
    show thesis
      using that [of a' m2] u S r(3,4) ab sv(1) ch by (simp add: ia_abs_cong [OF r(3)] i_def slot_change_def)
  qed
qed

lemma ia_erase_spec:
  assumes "ia_inv a m"
  obtains a' m' where "ia_erase k a m = Some (ia_abs a m k, a', m')" "ia_inv a' m'"
    "ia_abs a' m' = (ia_abs a m)(k := None)"
    "ia_meta_id a' = ia_meta_id a" "ia_block_offs a' = ia_block_offs a"
    "cm_alloc m' = cm_alloc m" "cm_pool_base m' = cm_pool_base m"
    "segs_grow (ia_meta_id a) (ia_block_offs a) m m'"
proof -
  obtain a' where r: "ResolveSlot k a m = Some (slot_addr (ia_block_offs a) m k, a')" "ia_inv a' m"
    "ia_block_offs a' = ia_block_offs a" "ia_meta_id a' = ia_meta_id a" using ResolveSlot_spec [OF assms] .
  let ?o = "slot_addr (ia_block_offs a) m k"
  have mi: "ia_mem_inv (ia_block_offs a) m" using assms by (simp add: ia_inv_def)
  show thesis
  proof (cases "?o = 0 \<or> \<not> ctrl_valid (wd m ?o)")
    case True
    then have n: "ia_abs a m k = None" by (auto simp: ia_abs_def slot_val_def)
    have "ia_erase k a m = Some (None, a', m)"
    proof (cases "?o = 0")
      case True
      then show ?thesis by (simp add: ia_erase_def r(1))
    next
      case False
      note K = slot_addr_Some [OF mi False]
      show ?thesis using False True lock_slot_quiet [OF K(4,5,3)] by (simp add: ia_erase_def r(1))
    qed
    with that [of a' m] r n show thesis by (simp add: ia_abs_cong [OF r(3)] fun_upd_idem)
  next
    case False
    then have o: "?o \<noteq> 0" and v: "ctrl_valid (wd m ?o)" by auto
    note K = slot_addr_Some [OF mi o]
    define m1 where "m1 = m\<lparr>cm_buf := cm_store64 ?o (MakeLocked (wd m ?o)) (cm_buf m)\<rparr>"
    note L = locked_slot [OF K(4,3), of "MakeLocked (wd m ?o)", folded m1_def]
    have ib: "words_inode (take 11 (drop 1 (MakeLocked (wd m ?o) # map (\<lambda>k. wd m (?o + 8 + 8 * k)) [0..<15])))
        = slot_inode m ?o"
      by (simp add: slot_inode_def take_map)
    obtain m2 where w: "write_words ?o (replicate 8 0) m1 = Some m2"
      using write_words_ok [of ?o "replicate 8 0" m1] K(4) slot_change_pool [OF L(2)] by auto
    have "8 dvd ?o" using K(3) by (auto elim!: dvdE)
    then have z: "wd m2 ?o = 0" using write_words_wd(1) [OF w, of ?o] by simp
    have ch: "slot_change m m2 ?o"
      using slot_change_trans [OF L(2) slot_change_write [OF w]] by simp
    have u: "ia_erase k a m = Some (Some (slot_inode m ?o), a', m2)"
      using o v lock_slot_quiet [OF K(4,5,3), folded m1_def] L(1) w ib by (simp add: ia_erase_def r(1))
    have sv: "slot_val m2 ?o = None" "\<not> ctrl_dirty (wd m2 ?o)" by (simp_all add: slot_val_def z)
    have ab: "ia_abs a m k = Some (slot_inode m ?o)" using o v by (simp add: ia_abs_def slot_val_def)
    have B: "slot_addr (ia_block_offs a') m k = ?o" by (simp add: r(3))
    note S = slot_write_abs [OF r(2), of k m2, unfolded B, OF o ch sv(2)]
    show thesis
      using that [of a' m2] u S r(3,4) ab sv(1) ch by (simp add: ia_abs_cong [OF r(3)] slot_change_def)
  qed
qed

section \<open>Allocating a segment\<close>

definition outside_same :: "CXLMem \<Rightarrow> CXLMem \<Rightarrow> nat \<Rightarrow> nat \<Rightarrow> bool" where
  "outside_same m m' lo n \<longleftrightarrow> (\<forall>x. x < lo \<or> lo + n \<le> x \<longrightarrow> cm_buf m' x = cm_buf m x)"

lemma outside_same_trans: "outside_same m m' lo n \<Longrightarrow> outside_same m' m'' lo n \<Longrightarrow> outside_same m m'' lo n"
  by (auto simp: outside_same_def)

lemma outside_same_write:
  assumes "write_words off ws m = Some m'" "8 dvd length ws" "lo \<le> off" "off + 8 * length ws \<le> lo + n"
  shows "outside_same m m' lo n"
proof -
  have w: "cm_Write off (8 * length ws) (words_bytes ws) m = Some m'" "64 dvd 8 * length ws"
    using assms by (auto simp: write_words_def elim!: dvdE)
  show ?thesis using cm_Write_buf [OF w] assms(3,4) by (auto simp: outside_same_def)
qed

lemma header_words_upt:
  "header_words (words_header (map f [0..<8])) = map f [0..<8]"
  by (simp add: header_words_def words_header_def upt_rec)

lemma length_header_words [simp]: "length (header_words (words_header (map f [0..<8]))) = 8"
  by (simp add: header_words_upt)

lemma header_words_nth:
  "header_words \<lparr>ih_ctrl = c, ih_num_segments = n, ih_base_id = b, ih_meta_id = i, ih_version = v,
     ih_reserved = [r1, r2, r3]\<rparr> = [c, n, b, i, v, r1, r2, r3]"
  by (simp add: header_words_def)

text \<open>What the slow path of \<open>EnsureSegment\<close> does to the words of memory.\<close>

definition segment_added :: "nat \<Rightarrow> nat \<Rightarrow> nat \<Rightarrow> CXLMem \<Rightarrow> CXLMem \<Rightarrow> bool" where
  "segment_added blk j new_off m m' \<longleftrightarrow>
     new_off = cm_pool_end m \<and> cm_pool_base m' = cm_pool_base m \<and>
     na_capacity (cm_alloc m') = na_capacity (cm_alloc m) \<and>
     na_offset (cm_alloc m') = na_offset (cm_alloc m) + kSegmentSize \<and>
     na_offset (cm_alloc m') \<le> na_capacity (cm_alloc m') \<and>
     outside_same m m' blk kBlockSize \<and>
     wd m' blk = 0 \<and> j < unat (wd m' (blk + 8)) \<and> unat (wd m (blk + 8)) \<le> unat (wd m' (blk + 8)) \<and>
     wd m' (blk + 64 + 8 * j) = of_nat new_off \<and>
     (\<forall>i<1024. i \<noteq> j \<longrightarrow> wd m' (blk + 64 + 8 * i) = wd m (blk + 64 + 8 * i))"

lemma round64_segment [simp]: "round64 kSegmentSize = kSegmentSize"
  by (rule round64_eq) (simp add: ia_consts)

lemma EnsureSegment_slow:
  assumes al: "64 dvd blk" "blk + kBlockSize \<le> cm_pool_end m" "wd m blk = 0"
    and j: "j < 1024" and B: "ia_block_offs a (ia_meta_id a) = blk" and z: "ia_seg_offsets a (ia_meta_id a) j = 0"
    and room: "na_offset (cm_alloc m) + kSegmentSize \<le> na_capacity (cm_alloc m)"
  obtains a' m' new_off where "EnsureSegment j a m = Some (a', m')" "segment_added blk j new_off m m'"
    "ia_block_offs a' = ia_block_offs a" "ia_meta_id a' = ia_meta_id a" "ia_base_id a' = ia_base_id a"
    "ia_seg_offsets a' = (ia_seg_offsets a)(ia_meta_id a := (ia_seg_offsets a (ia_meta_id a))(j := new_off))"
proof -
  have blk8: "8 dvd blk" using al(1) by (auto elim!: dvdE)
  have j8: "j div 8 < 128" using j by (intro less_mult_imp_div_less) simp
  have jd: "j div 8 * 64 + 8 * (j mod 8) = 8 * j"
    using div_mult_mod_eq [of j 8] by linarith
  define m1 where "m1 = m\<lparr>cm_buf := cm_store64 blk kExpandingBit (cm_buf m)\<rparr>"
  have cas: "cm_Cas blk 0 kExpandingBit m = (True, Some 0, m1)"
    using al blk8 by (subst cm_Cas_wd) (simp_all add: m1_def ia_consts)
  have wd1: "wd m1 x = (if x = blk then kExpandingBit else wd m x)" if "8 dvd x" for x
    unfolding wd_def m1_def using wd_store64 [OF that blk8] by simp
  have pe1: "cm_pool_end m1 = cm_pool_end m" by (simp add: m1_def cm_pool_end_def)
  let ?co = "blk + 64 + j div 8 * 64"
  obtain new_off m2 where alloc: "cm_Alloc kSegmentSize m1 = Some (new_off, m2)"
    using room by (simp add: m1_def cm_Alloc_def CXLMallocOffset_def Let_def)
  note A = cm_Alloc_wd [OF alloc]
  let ?cl = "map (\<lambda>k. wd m2 (?co + 8 * k)) [0..<8]"
  have rd: "read_words (blk + kIAHeaderSize + j div 8 * 64) 8 m2 = Some ?cl"
    using al(2) j8 by (subst read_words_ok) (simp_all add: A(4) pe1 ia_consts)
  define cl' where "cl' = ?cl[j mod 8 := of_nat new_off]"
  have lcl: "length cl' = 8" by (simp add: cl'_def)
  obtain m3 where w3: "write_words ?co cl' m2 = Some m3"
    using write_words_ok [of ?co cl' m2] al(2) j8 by (auto simp: A(4) pe1 ia_consts lcl)
  note W3 = write_words_wd [OF w3]
  have al8: "8 dvd ?co" using blk8 by (auto elim!: dvdE)
  have wd3: "wd m3 x = (if x = blk + 64 + 8 * j then of_nat new_off else wd m2 x)" if x8: "8 dvd x" for x
  proof (cases "?co \<le> x \<and> x < ?co + 64")
    case True
    from al8 x8 obtain y z where "?co = 8 * y" "x = 8 * z" by (auto elim!: dvdE)
    with True have "x = ?co + 8 * (z - y)" "z - y < 8" by auto
    then obtain k where k: "x = ?co + 8 * k" "k < 8" by blast
    have "wd m3 x = cl' ! k" using W3(1) [of x] lcl x8 al8 k by simp
    moreover have "k = j mod 8 \<longleftrightarrow> x = blk + 64 + 8 * j" using k jd by auto
    moreover have "cl' ! k = (if k = j mod 8 then of_nat new_off else wd m2 x)"
      using k by (simp add: cl'_def nth_list_update)
    ultimately show ?thesis by metis
  next
    case False
    have "x \<noteq> blk + 64 + 8 * j" using False jd by auto
    moreover have "wd m3 x = wd m2 x" using W3(1) [of x] lcl x8 al8 False by auto
    ultimately show ?thesis by simp
  qed
  let ?hw = "map (\<lambda>k. wd m3 (blk + 8 * k)) [0..<8]"
  have pe3: "cm_pool_end m3 = cm_pool_end m + kSegmentSize"
    using W3(2,3) lcl A(4) pe1 by (simp add: cm_pool_end_def)
  have rh: "read_words blk 8 m3 = Some ?hw"
    using al(2) by (subst read_words_ok) (simp_all add: pe3 ia_consts)
  define hdr where "hdr = (words_header ?hw)\<lparr>ih_ctrl := 0\<rparr>"
  define hdr1 where "hdr1 = (if of_nat (j + 1) > ih_num_segments hdr
     then hdr\<lparr>ih_num_segments := of_nat (j + 1)\<rparr> else hdr)"
  define hdr2 where "hdr2 = hdr1\<lparr>ih_version := ih_version hdr1 + 1\<rparr>"
  have lh: "length (header_words hdr2) = 8"
    by (simp add: hdr2_def hdr1_def hdr_def header_words_def words_header_def)
  obtain m4 where w4: "write_words blk (header_words hdr2) m3 = Some m4"
    using write_words_ok [of blk "header_words hdr2" m3] al(2) by (auto simp: pe3 lh ia_consts)
  note W4 = write_words_wd [OF w4]
  have wd4: "wd m4 x = (if blk \<le> x \<and> x < blk + 64 then header_words hdr2 ! ((x - blk) div 8) else wd m3 x)"
    if "8 dvd x" for x using W4(1) [OF _ that blk8] lh by simp
  define a' where "a' = (let a = set_seg (ia_meta_id a) j new_off a in
       if j + 1 > ia_local_num_segments a then a\<lparr>ia_local_num_segments := j + 1\<rparr> else a)"
  have eq: "EnsureSegment j a m = Some (a', m4)"
    using z j B cas alloc rd w3 [unfolded cl'_def] rh w4 [unfolded hdr2_def hdr1_def hdr_def]
    by (simp add: EnsureSegment_def kMaxSegments_def kIAHeaderSize_def Let_def a'_def)
  have num: "wd m (blk + 8) = ih_num_segments hdr"
  proof -
    have "wd m3 (blk + 8) = wd m (blk + 8)"
      using wd3 [of "blk + 8"] blk8 wd1 [of "blk + 8"] A(1) by (simp add: dvd_add)
    then show ?thesis by (simp add: hdr_def words_header_def)
  qed
  have num4: "wd m4 (blk + 8) = ih_num_segments hdr1"
    using wd4 [of "blk + 8"] blk8 by (simp add: dvd_add header_words_def hdr2_def)
  have "segment_added blk j new_off m m4"
    unfolding segment_added_def
  proof (intro conjI allI impI)
    show "new_off = cm_pool_end m" using A(3) pe1 by simp
    show "cm_pool_base m4 = cm_pool_base m" using W4(2) W3(2) A(2) lh lcl by (simp add: m1_def)
    show "na_capacity (cm_alloc m4) = na_capacity (cm_alloc m)"
      using W4(3) W3(3) A(7) lh lcl by (simp add: m1_def)
    show "na_offset (cm_alloc m4) = na_offset (cm_alloc m) + kSegmentSize"
      using W4(3) W3(3) A(8) lh lcl by (simp add: m1_def)
    show "na_offset (cm_alloc m4) \<le> na_capacity (cm_alloc m4)"
      using W4(3) W3(3) A(6-8) lh lcl by (simp add: m1_def)
    have "outside_same m m1 blk kBlockSize" by (auto simp: outside_same_def m1_def cm_store64_def ia_consts)
    moreover have "outside_same m1 m2 blk kBlockSize" by (simp add: outside_same_def A(5))
    moreover have "outside_same m2 m3 blk kBlockSize"
      by (rule outside_same_write [OF w3]) (use lcl j8 in \<open>simp_all add: ia_consts\<close>)
    moreover have "outside_same m3 m4 blk kBlockSize"
      by (rule outside_same_write [OF w4]) (use lh in \<open>simp_all add: ia_consts\<close>)
    ultimately show "outside_same m m4 blk kBlockSize" using outside_same_trans by blast
    show "wd m4 blk = 0"
      using wd4 [of blk] blk8 by (simp add: header_words_def hdr2_def hdr1_def hdr_def)
    have oj: "unat (of_nat (j + 1) :: u64) = j + 1"
      using j by (intro unat_of_nat_u64) simp
    show "j < unat (wd m4 (blk + 8))" "unat (wd m (blk + 8)) \<le> unat (wd m4 (blk + 8))"
      unfolding num4 num hdr1_def using oj by (auto simp: word_less_nat_alt)
    have up: "wd m4 (blk + 64 + 8 * i) = wd m3 (blk + 64 + 8 * i)" for i
      using wd4 [of "blk + 64 + 8 * i"] blk8 by (simp add: dvd_add)
    show "wd m4 (blk + 64 + 8 * j) = of_nat new_off"
      unfolding up using wd3 [of "blk + 64 + 8 * j"] blk8 by (simp add: dvd_add)
    show "wd m4 (blk + 64 + 8 * i) = wd m (blk + 64 + 8 * i)" if "i < 1024" "i \<noteq> j" for i
      unfolding up using wd3 [of "blk + 64 + 8 * i"] blk8 A(1) wd1 [of "blk + 64 + 8 * i"] that
      by (simp add: dvd_add)
  qed
  with that [OF eq] show thesis by (auto simp: set_seg_def Let_def a'_def)
qed

lemma EnsureSegment_room:
  assumes "EnsureSegment j a m = Some (a', m')" "ia_seg_offsets a (ia_meta_id a) j = 0"
    "wd m (ia_block_offs a (ia_meta_id a)) = 0" "ia_block_offs a (ia_meta_id a) + 8 \<le> cm_pool_end m"
    "8 dvd ia_block_offs a (ia_meta_id a)"
  shows "na_offset (cm_alloc m) + kSegmentSize \<le> na_capacity (cm_alloc m)"
proof (rule ccontr)
  assume "\<not> ?thesis"
  then have "cm_Alloc kSegmentSize (m\<lparr>cm_buf := b\<rparr>) = None" for b
    by (simp add: cm_Alloc_def CXLMallocOffset_def Let_def)
  with assms show False
    by (auto simp: EnsureSegment_def cm_Cas_wd Let_def split: if_splits)
qed

text \<open>Consequences of adding a segment, for the words outside the block and the table.\<close>

lemma segment_added_words:
  assumes mi: "ia_mem_inv B m" and i: "i < 8" "B i \<noteq> 0" and S: "segment_added (B i) j new_off m m'"
  shows "\<And>x. x + 8 \<le> B i \<or> B i + kBlockSize \<le> x \<Longrightarrow> wd m' x = wd m x"
    and "wd m' (new_off + x) = 0" and "pool_inv m'"
    and "cm_pool_base m' = cm_pool_base m" "cm_pool_end m' = cm_pool_end m + kSegmentSize" "new_off = cm_pool_end m"
    and "new_off \<noteq> 0" "unat (of_nat new_off :: u64) = new_off"
proof -
  note D = mem_invD [OF mi]
  have lb: "live B m (Blk i)" using i by simp
  have out: "cm_buf m' x = cm_buf m x" if "x < B i \<or> B i + kBlockSize \<le> x" for x
    using S that by (auto simp: segment_added_def outside_same_def)
  show "wd m' x = wd m x" if "x + 8 \<le> B i \<or> B i + kBlockSize \<le> x" for x
  proof -
    have "map (\<lambda>k. cm_buf m' (x + k)) [0..<8] = map (\<lambda>k. cm_buf m (x + k)) [0..<8]"
      by (rule map_cong) (use that out in auto)
    then show ?thesis by (simp only: wd_def cm_load64_def)
  qed
  show pe: "cm_pool_base m' = cm_pool_base m" "cm_pool_end m' = cm_pool_end m + kSegmentSize"
    "new_off = cm_pool_end m"
    using S by (auto simp: segment_added_def cm_pool_end_def)
  have zero: "cm_buf m' x = 0" if "new_off \<le> x" for x
    using out [of x] D(4) [OF lb] D(1) pe that by (auto simp: pool_inv_def)
  have "map (\<lambda>k. cm_buf m' (new_off + x + k)) [0..<8] = replicate 8 0"
    by (intro replicate_eqI) (auto simp: zero)
  then show "wd m' (new_off + x) = 0"
    unfolding wd_def cm_load64_def by (simp only:) (simp add: eval_nat_numeral)
  have "64 dvd kSegmentSize" by (simp add: ia_consts)
  then show "pool_inv m'" using D(1) S pe zero
    by (auto simp: pool_inv_def segment_added_def)
  have "new_off < 2 ^ 64" using S D(1) by (auto simp: segment_added_def pool_inv_def cm_pool_end_def)
  then show "unat (of_nat new_off :: u64) = new_off" by (rule unat_of_nat_u64)
  show "new_off \<noteq> 0" using S D(1) by (auto simp: segment_added_def pool_inv_def cm_pool_end_def)
qed

lemma segment_added_table:
  assumes mi: "ia_mem_inv B m" and i: "i < 8" "B i \<noteq> 0" and S: "segment_added (B i) j new_off m m'"
  shows "\<And>i' x. i' < 8 \<Longrightarrow> i' \<noteq> i \<Longrightarrow> B i' \<noteq> 0 \<Longrightarrow> 8 * x < kBlockSize \<Longrightarrow> wd m' (B i' + 8 * x) = wd m (B i' + 8 * x)"
    and "\<And>i' j'. i' < 8 \<Longrightarrow> j' < 1024 \<Longrightarrow>
      seg_at B m' i' j' = (if i' = i \<and> j' = j then new_off else seg_at B m i' j')"
    and "\<And>i' j' s x. live B m (Seg i' j') \<Longrightarrow> s < 2 ^ 20 \<Longrightarrow> x < 16 \<Longrightarrow>
      wd m' (seg_at B m i' j' + s * 128 + 8 * x) = wd m (seg_at B m i' j' + s * 128 + 8 * x)"
proof -
  note D = mem_invD [OF mi] and F = segment_added_words [OF mi i S]
  have lb: "live B m (Blk i)" using i by simp
  show blk: "wd m' (B i' + 8 * x) = wd m (B i' + 8 * x)"
    if "i' < 8" "i' \<noteq> i" "B i' \<noteq> 0" "8 * x < kBlockSize" for i' x
  proof -
    have "8 * x + 8 \<le> kBlockSize" using that(4) by (simp add: ia_consts)
    with D(5) [OF lb, of "Blk i'"] that show ?thesis by (intro F(1)) auto
  qed
  show "seg_at B m' i' j' = (if i' = i \<and> j' = j then new_off else seg_at B m i' j')"
    if "i' < 8" "j' < 1024" for i' j'
  proof (cases "i' = i")
    case True
    then show ?thesis using S that i F(8) by (auto simp: seg_at_def segment_added_def)
  next
    case False
    then show ?thesis using blk [OF that(1) False, of "8 + j'"] that
      by (simp add: seg_at_def ia_consts algebra_simps)
  qed
  show "wd m' (seg_at B m i' j' + s * 128 + 8 * x) = wd m (seg_at B m i' j' + s * 128 + 8 * x)"
    if "live B m (Seg i' j')" "s < 2 ^ 20" "x < 16" for i' j' s x
  proof -
    have "s * 128 + 8 * x + 8 \<le> kSegmentSize" using that(2,3) by (simp add: ia_consts)
    with D(5) [OF lb that(1)] show ?thesis by (intro F(1)) auto
  qed
qed

lemma segment_added_inv:
  assumes mi: "ia_mem_inv B m" and i: "i < 8" "B i \<noteq> 0" and S: "segment_added (B i) j new_off m m'"
    and j: "j < 1024" and new: "\<not> live B m (Seg i j)"
  shows "ia_mem_inv B m'"
proof (rule mem_invI)
  note D = mem_invD [OF mi] and F = segment_added_words [OF mi i S] and T = segment_added_table [OF mi i S]
  show "pool_inv m'" by (rule F(3))
  have rs: "reg_start B m' r = (if r = Seg i j then new_off else reg_start B m r)" if "reg_ok r" for r
    using that T(2) by (cases r) auto
  have lv: "live B m' r \<longleftrightarrow> r = Seg i j \<or> live B m r" for r
    using rs [of r] T(2) [OF i(1) j] F(7) i j by (cases "r = Seg i j") (auto simp: live_def)
  have old_end: "reg_start B m r + reg_len r \<le> new_off" if "live B m r" for r
    using D(4) [OF that] F(6) by simp
  have no: "64 dvd new_off" "cm_pool_base m \<le> new_off"
    using D(1) F(6) by (auto simp: pool_inv_def cm_pool_end_def)
  show "64 dvd reg_start B m' r" "cm_pool_base m' \<le> reg_start B m' r" "reg_start B m' r + reg_len r \<le> cm_pool_end m'"
    if "live B m' r" for r
    using that lv [of r] rs [of r] D(2,3) [of r] old_end [of r] F(4-6) no by (auto simp: live_def split: if_splits)
  show "reg_start B m' r + reg_len r \<le> reg_start B m' r' \<or> reg_start B m' r' + reg_len r' \<le> reg_start B m' r"
    if "live B m' r" "live B m' r'" "r \<noteq> r'" for r r'
    using that lv [of r] lv [of r'] rs [of r] rs [of r'] D(5) [of r r'] old_end new
    by (cases "r = Seg i j"; cases "r' = Seg i j") (auto simp: live_def)
  show "wd m' (B i') = 0" if "i' < 8" "B i' \<noteq> 0" for i'
    using S T(1) [OF that(1) _ that(2), of 0] D(6) [OF that]
    by (cases "i' = i") (simp_all add: segment_added_def ia_consts)
  show "j' < unat (wd m' (B i' + 8))" if "i' < 8" "B i' \<noteq> 0" "j' < 1024" "seg_at B m' i' j' \<noteq> 0" for i' j'
    using S T(1) [OF that(1) _ that(2), of 1] D(7) [OF that(1-3)] T(2) [OF that(1,3)] that
    by (cases "i' = i"; cases "j' = j") (auto simp: segment_added_def ia_consts)
  show "\<not> ctrl_dirty (wd m' (seg_at B m' i' j' + s * 128))"
    if "i' < 8" "j' < 1024" "s < 2 ^ 20" "seg_at B m' i' j' \<noteq> 0" for i' j' s
    using T(2) [OF that(1,2)] T(3) [of i' j' s 0] F(2) D(8) [of i' j' s] that
    by (cases "i' = i \<and> j' = j") auto
qed

lemma slot_val_cong:
  "(\<And>x. x < 16 \<Longrightarrow> wd m' (o' + 8 * x) = wd m (o' + 8 * x)) \<Longrightarrow> slot_val m' o' = slot_val m o'"
proof -
  assume w: "\<And>x. x < 16 \<Longrightarrow> wd m' (o' + 8 * x) = wd m (o' + 8 * x)"
  have "slot_inode m' o' = slot_inode m o'"
    unfolding slot_inode_def using w [of "Suc x" for x]
    by (intro arg_cong [of _ _ words_inode] map_cong) (auto simp: algebra_simps)
  with w [of 0] show ?thesis by (simp add: slot_val_def)
qed

lemma segment_added_abs:
  assumes mi: "ia_mem_inv B m" and i: "i < 8" "B i \<noteq> 0" and S: "segment_added (B i) j new_off m m'"
    and j: "j < 1024" and new: "\<not> live B m (Seg i j)" and B: "ia_block_offs a = B" "ia_block_offs a' = B"
  shows "ia_abs a' m' = ia_abs a m"
proof
  fix k
  note D = mem_invD [OF mi] and F = segment_added_words [OF mi i S] and T = segment_added_table [OF mi i S]
  show "ia_abs a' m' k = ia_abs a m k"
  proof (cases "key_meta k = i \<and> key_seg k = j")
    case True
    then have "slot_addr B m k = 0" "slot_addr B m' k = new_off + key_slot k * 128"
      using new T(2) [OF i(1) j] F(7) i j by (auto simp: slot_addr_def)
    moreover have "slot_val m' (new_off + key_slot k * 128) = None" using F(2) by (simp add: slot_val_def)
    ultimately show ?thesis by (simp add: ia_abs_def B)
  next
    case False
    then have sa: "slot_addr B m' k = slot_addr B m k" using T(2) by (auto simp: slot_addr_def)
    have "slot_val m' (slot_addr B m k) = slot_val m (slot_addr B m k)" if "slot_addr B m k \<noteq> 0"
    proof (rule slot_val_cong)
      note K = slot_addr_Some [OF mi that]
      show "wd m' (slot_addr B m k + 8 * x) = wd m (slot_addr B m k + 8 * x)" if "x < 16" for x
        using T(3) [OF K(1) key_slot_lt that] by (simp only: K(2))
    qed
    with sa show ?thesis by (simp add: ia_abs_def B)
  qed
qed

lemma EnsureSegment_spec:
  assumes inv: "ia_inv a m" and E: "EnsureSegment j a m = Some (a', m')"
  shows "ia_inv a' m' \<and> ia_abs a' m' = ia_abs a m \<and> j < 1024 \<and>
    ia_seg_offsets a' (ia_meta_id a) j = seg_at (ia_block_offs a) m' (ia_meta_id a) j \<and>
    seg_at (ia_block_offs a) m' (ia_meta_id a) j \<noteq> 0 \<and>
    ia_block_offs a' = ia_block_offs a \<and> ia_meta_id a' = ia_meta_id a \<and>
    segs_grow (ia_meta_id a) (ia_block_offs a) m m' \<and> na_capacity (cm_alloc m') = na_capacity (cm_alloc m) \<and>
    na_offset (cm_alloc m') \<le> na_offset (cm_alloc m) + kSegmentSize"
proof -
  have mi: "ia_mem_inv (ia_block_offs a) m" and c: "ia_cache_inv a m" using inv by (auto simp: ia_inv_def)
  have j: "j < 1024" using E by (auto simp: EnsureSegment_def kMaxSegments_def split: if_splits)
  let ?i = "ia_meta_id a" and ?B = "ia_block_offs a"
  have i: "?i < 8" "?B ?i \<noteq> 0" and own: "\<And>j. j < 1024 \<Longrightarrow> ia_seg_offsets a ?i j = seg_at ?B m ?i j"
    using c by (auto simp: ia_cache_inv_def)
  show ?thesis
  proof (cases "ia_seg_offsets a ?i j = 0")
    case False
    then have "a' = a" "m' = m" using E j by (auto simp: EnsureSegment_def kMaxSegments_def)
    with False inv own [OF j] j show ?thesis by simp
  next
    case True
    note D = mem_invD [OF mi]
    have lb: "live ?B m (Blk ?i)" using i by simp
    have b: "64 dvd ?B ?i" "?B ?i + kBlockSize \<le> cm_pool_end m" using D(2,4) [OF lb] by auto
    then have "8 dvd ?B ?i" "?B ?i + 8 \<le> cm_pool_end m" by (auto simp: ia_consts elim!: dvdE)
    from EnsureSegment_slow [OF b D(6) [OF i] j refl True EnsureSegment_room [OF E True D(6) [OF i] this(2,1)]] E
    obtain new_off where S: "segment_added (?B ?i) j new_off m m'"
      and a': "ia_block_offs a' = ?B" "ia_meta_id a' = ?i" "ia_base_id a' = ia_base_id a"
      "ia_seg_offsets a' = (ia_seg_offsets a)(?i := (ia_seg_offsets a ?i)(j := new_off))"
      by (metis option.inject prod.inject)
    have new: "\<not> live ?B m (Seg ?i j)" using True own [OF j] by simp
    note F = segment_added_words [OF mi i S] and T = segment_added_table [OF mi i S]
    have segs: "ia_seg_offsets a' i' j' = (if i' = ?i \<and> j' = j then new_off else ia_seg_offsets a i' j')" for i' j'
      by (auto simp: a')
    have "ia_cache_inv a' m'"
      unfolding ia_cache_inv_def a'(1-3) segs using c T(2) i(1) by (simp add: ia_cache_inv_def)
    with segment_added_inv [OF mi i S j new] segment_added_abs [OF mi i S j new refl a'(1)] T(2) [OF i(1) j] F(7) j
    have "ia_inv a' m' \<and> ia_abs a' m' = ia_abs a m \<and> seg_at ?B m' ?i j = new_off \<and> new_off \<noteq> 0"
      by (simp add: ia_inv_def a')
    moreover have "segs_grow ?i ?B m m'"
      unfolding segs_grow_def using T(2) new by auto
    ultimately show ?thesis using j a' S by (simp add: segment_added_def)
  qed
qed

section \<open>Insertion\<close>

text \<open>The ids a server creates: its own range, within the segments.\<close>

definition own_key :: "InodeArray \<Rightarrow> u64 \<Rightarrow> bool" where
  "own_key a k \<longleftrightarrow> key_meta k = ia_meta_id a"

lemma own_key_base:
  assumes "ia_cache_inv a m" "own_key a k"
  shows "ia_base_id a = push_bit INODE_ID_RANGE (drop_bit INODE_ID_RANGE k)"
proof -
  have "key_meta k < 2 ^ 14"
    using unat_lt_exp64 [of k] unfolding key_meta_def by (intro less_mult_imp_div_less) simp
  then have "drop_bit INODE_ID_RANGE k = of_nat (key_meta k)"
    using key_parts(1) [of k] by (simp add: word_unat_eq_iff unsigned_of_nat take_bit_nat_eq_self)
  with assms show ?thesis by (simp add: ia_cache_inv_def own_key_def INODE_ID_RANGE_def)
qed

lemma ia_insert_spec:
  assumes inv: "ia_inv a m" and own: "own_key a k" and ins: "ia_insert k v a m = Some (a', m')"
  shows "ia_inv a' m'" "ia_abs a' m' = (ia_abs a m)(k \<mapsto> v)"
    "ia_meta_id a' = ia_meta_id a" "ia_block_offs a' = ia_block_offs a"
    "segs_grow (ia_meta_id a) (ia_block_offs a) m m'" "na_capacity (cm_alloc m') = na_capacity (cm_alloc m)"
    "na_offset (cm_alloc m') \<le> na_offset (cm_alloc m) + kSegmentSize"
proof -
  have c: "ia_cache_inv a m" using inv by (simp add: ia_inv_def)
  note base = own_key_base [OF c own]
  obtain a1 m1 where E: "EnsureSegment (key_seg k) a m = Some (a1, m1)"
    and w: "write_words (ia_seg_offsets a1 (ia_meta_id a1) (key_seg k) + key_slot k * 128) (slot_words kValidBit v) m1 = Some m'"
    and a': "a' = a1"
    using ins by (auto simp: ia_insert_def Let_def base key_parts kSlotSize_def split: bind_splits)
  note ES = EnsureSegment_spec [OF inv E]
  have mi: "ia_mem_inv (ia_block_offs a) m1" using ES by (auto simp: ia_inv_def)
  have o: "slot_addr (ia_block_offs a1) m1 k = ia_seg_offsets a1 (ia_meta_id a1) (key_seg k) + key_slot k * 128"
    and nz: "slot_addr (ia_block_offs a1) m1 k \<noteq> 0"
    using ES own c by (auto simp: slot_addr_def own_key_def ia_cache_inv_def)
  note K = slot_addr_Some [of "ia_block_offs a1" m1 k]
  have al: "64 dvd slot_addr (ia_block_offs a1) m1 k" using K(3) mi nz ES by simp
  have W: "wd m' (slot_addr (ia_block_offs a1) m1 k) = kValidBit"
    "slot_inode m' (slot_addr (ia_block_offs a1) m1 k) = v" "slot_change m1 m' (slot_addr (ia_block_offs a1) m1 k)"
    using slot_val_write [of _ kValidBit v "[0,0,0,0]" m1 m'] w al unfolding o [symmetric] slot_words_def by auto
  have i1: "ia_inv a1 m1" using ES by simp
  have "slot_val m' (slot_addr (ia_block_offs a1) m1 k) = Some v" by (simp add: slot_val_def W)
  with slot_write_abs [OF i1 nz W(3)] W(1) ES
  show "ia_inv a' m'" "ia_abs a' m' = (ia_abs a m)(k \<mapsto> v)"
    "ia_meta_id a' = ia_meta_id a" "ia_block_offs a' = ia_block_offs a"
    by (simp_all add: a')
  show "segs_grow (ia_meta_id a) (ia_block_offs a) m m'"
    using slot_write_abs(3) [OF i1 nz W(3)] W(1) ES
    by (intro segs_grow_trans [of _ _ m m1 m']) simp_all
  show "na_capacity (cm_alloc m') = na_capacity (cm_alloc m)"
    "na_offset (cm_alloc m') \<le> na_offset (cm_alloc m) + kSegmentSize"
    using ES W(3) by (simp_all add: slot_change_def)
qed

text \<open>Insertion ends abnormally only for want of memory or past the last segment.\<close>

lemma ia_insert_total:
  assumes inv: "ia_inv a m" and own: "own_key a k" and seg: "key_seg k < 1024"
    and room: "seg_at (ia_block_offs a) m (ia_meta_id a) (key_seg k) = 0 \<Longrightarrow> na_offset (cm_alloc m) + kSegmentSize \<le> na_capacity (cm_alloc m)"
  shows "\<exists>a' m'. ia_insert k v a m = Some (a', m')"
proof -
  have mi: "ia_mem_inv (ia_block_offs a) m" and c: "ia_cache_inv a m" using inv by (auto simp: ia_inv_def)
  note D = mem_invD [OF mi]
  have i: "ia_meta_id a < 8" "ia_block_offs a (ia_meta_id a) \<noteq> 0" using c by (auto simp: ia_cache_inv_def)
  then have lb: "live (ia_block_offs a) m (Blk (ia_meta_id a))" by simp
  obtain a1 m1 where E: "EnsureSegment (key_seg k) a m = Some (a1, m1)"
  proof (cases "ia_seg_offsets a (ia_meta_id a) (key_seg k) = 0")
    case True
    have "64 dvd ia_block_offs a (ia_meta_id a)" "ia_block_offs a (ia_meta_id a) + kBlockSize \<le> cm_pool_end m"
      using D(2,4) [OF lb] by auto
    moreover have "na_offset (cm_alloc m) + kSegmentSize \<le> na_capacity (cm_alloc m)"
      using room True c seg by (simp add: ia_cache_inv_def)
    ultimately show thesis using EnsureSegment_slow [OF _ _ D(6) [OF i] seg refl True] that by metis
  next
    case False
    then show thesis using that [of a m] seg by (simp add: EnsureSegment_def kMaxSegments_def)
  qed
  note ES = EnsureSegment_spec [OF inv E]
  have nz: "slot_addr (ia_block_offs a1) m1 k = ia_seg_offsets a1 (ia_meta_id a1) (key_seg k) + key_slot k * 128"
    "slot_addr (ia_block_offs a1) m1 k \<noteq> 0"
    using ES own c by (auto simp: slot_addr_def own_key_def ia_cache_inv_def)
  have "slot_addr (ia_block_offs a1) m1 k + 128 \<le> cm_pool_end m1"
    using slot_addr_Some(4) [of "ia_block_offs a1" m1 k] ES nz(2) by (auto simp: ia_inv_def)
  then obtain m2 where "write_words (slot_addr (ia_block_offs a1) m1 k) (slot_words kValidBit v) m1 = Some m2"
    using write_words_ok [of _ "slot_words kValidBit v" m1] by (auto simp: slot_words_def)
  then show ?thesis using E nz(1)
    by (auto simp: ia_insert_def Let_def own_key_base [OF c own] key_parts kSlotSize_def)
qed

text \<open>An allocation by another component does not disturb the array.\<close>

lemma ia_inv_alloc:
  assumes "cm_Alloc n m = Some (off, m')" "ia_inv a m"
  shows "ia_inv a m'" "ia_abs a m' = ia_abs a m"
proof -
  note A = cm_Alloc_wd [OF assms(1)]
  have eqs: "seg_at B m' = seg_at B m" "slot_addr B m' = slot_addr B m" "slot_val m' = slot_val m" for B
    by (auto simp: fun_eq_iff seg_at_def slot_addr_def slot_val_def slot_inode_def A(1))
  have rs: "reg_start B m' r = reg_start B m r" "live B m' r = live B m r" for B r
    by (cases r; simp add: eqs live_def)+
  show "ia_abs a m' = ia_abs a m" by (simp add: fun_eq_iff ia_abs_def eqs)
  have mi: "ia_mem_inv (ia_block_offs a) m" using assms(2) by (simp add: ia_inv_def)
  note D = mem_invD [OF mi]
  have "pool_inv m'"
    using D(1) A(2,4-8) round64_bounds(3) [of n] by (auto simp: pool_inv_def)
  then have "ia_mem_inv (ia_block_offs a) m'"
    using D(2-8) A(1,2,4) by (intro mem_invI) (auto simp: rs eqs intro: trans_le_add1)
  with assms(2) show "ia_inv a m'" by (simp add: ia_inv_def ia_cache_inv_def eqs)
qed

section \<open>A new array\<close>

lemma line_word_cases:
  fixes x b :: nat
  assumes "8 dvd x" "8 dvd b" "b \<le> x" "x < b + 64"
  obtains k where "x = b + 8 * k" "k < 8"
proof -
  from assms(1,2) obtain y z where yz: "x = 8 * y" "b = 8 * z" by (auto elim!: dvdE)
  show thesis by (rule that [of "y - z"]) (use yz assms(3,4) in \<open>simp_all add: diff_mult_distrib2\<close>)
qed

lemma less8_cases:
  "(k :: nat) < 8 \<Longrightarrow> k = 0 \<or> k = 1 \<or> k = 2 \<or> k = 3 \<or> k = 4 \<or> k = 5 \<or> k = 6 \<or> k = 7"
  by linarith

lemma InitBlock_words:
  assumes pool: "pool_inv m" and E: "InitBlock dfs a m = Some (dfs', a', m')"
  defines "blk \<equiv> cm_pool_end m"
  shows "outside_same m m' blk kBlockSize" "pool_inv m'" "cm_pool_base m' = cm_pool_base m"
    "cm_pool_end m' = blk + round64 kBlockSize + kSegmentSize"
    "\<And>x. 8 dvd x \<Longrightarrow> blk \<le> x \<Longrightarrow> wd m' x =
       (if x = blk + 64 then of_nat (blk + round64 kBlockSize) else if x = blk + 8 then 1
        else if x = blk + 16 then ia_base_id a else if x = blk + 24 then of_nat (ia_meta_id a)
        else if x = blk + 32 then 1 else 0)"
    "dfs' = dfs\<lparr>dfs_inode_array_block_offset := (dfs_inode_array_block_offset dfs)(ia_meta_id a := blk)\<rparr>"
    "a' = (set_seg (ia_meta_id a) 0 (blk + round64 kBlockSize)
       (a\<lparr>ia_block_offs := (ia_block_offs a)(ia_meta_id a := blk)\<rparr>))\<lparr>ia_local_num_segments := 1\<rparr>"
    "64 dvd blk" "blk + round64 kBlockSize < 2 ^ 64" "0 < blk"
proof -
  obtain b m1 s m2 m3 where a1: "cm_Alloc kBlockSize m = Some (b, m1)" and a2: "cm_Alloc kSegmentSize m1 = Some (s, m2)"
    and w1: "write_words (b + kIAHeaderSize) [of_nat s, 0, 0, 0, 0, 0, 0, 0] m2 = Some m3"
    and w2: "write_words b [0, 1, ia_base_id a, of_nat (ia_meta_id a), 1, 0, 0, 0] m3 = Some m'"
    and d: "dfs' = dfs\<lparr>dfs_inode_array_block_offset := (dfs_inode_array_block_offset dfs)(ia_meta_id a := b)\<rparr>"
    and a': "a' = (set_seg (ia_meta_id a) 0 s
       (a\<lparr>ia_block_offs := (ia_block_offs a)(ia_meta_id a := b)\<rparr>))\<lparr>ia_local_num_segments := 1\<rparr>"
    using E by (auto simp: InitBlock_def Let_def header_words_def split: bind_splits)
  note A1 = cm_Alloc_wd [OF a1] and A2 = cm_Alloc_wd [OF a2]
  have b: "b = blk" and s: "s = blk + round64 kBlockSize" using A1(3,4) A2(3) by (simp_all add: blk_def)
  show "64 dvd blk" "0 < blk" using pool by (auto simp: blk_def pool_inv_def cm_pool_end_def)
  then have b8: "8 dvd blk" by (auto elim!: dvdE)
  show "blk + round64 kBlockSize < 2 ^ 64"
    using pool A1(6) by (auto simp: pool_inv_def blk_def cm_pool_end_def)
  show "dfs' = dfs\<lparr>dfs_inode_array_block_offset := (dfs_inode_array_block_offset dfs)(ia_meta_id a := blk)\<rparr>"
    "a' = (set_seg (ia_meta_id a) 0 (blk + round64 kBlockSize)
       (a\<lparr>ia_block_offs := (ia_block_offs a)(ia_meta_id a := blk)\<rparr>))\<lparr>ia_local_num_segments := 1\<rparr>"
    using d a' b s by simp_all
  have l8: "8 dvd length [x1, x2, x3, x4, x5, x6, x7, x8 :: u64]" for x1 x2 x3 x4 x5 x6 x7 x8
    by (simp add: numeral_eq_Suc)
  note W1 = write_words_wd [OF w1 l8] and W2 = write_words_wd [OF w2 l8]
  have o1: "outside_same m m1 blk kBlockSize" "outside_same m1 m2 blk kBlockSize"
    by (simp_all add: outside_same_def A1(5) A2(5))
  have o2: "outside_same m2 m3 blk kBlockSize"
    by (rule outside_same_write [OF w1 l8]) (simp_all add: b ia_consts)
  have o3: "outside_same m3 m' blk kBlockSize"
    by (rule outside_same_write [OF w2 l8]) (simp_all add: b ia_consts)
  show out: "outside_same m m' blk kBlockSize"
    using outside_same_trans o1 o2 o3 by blast
  show pb: "cm_pool_base m' = cm_pool_base m" using W1(2) W2(2) A1(2) A2(2) by simp
  have al: "cm_alloc m' = cm_alloc m2" using W1(3) W2(3) by simp
  show pe: "cm_pool_end m' = blk + round64 kBlockSize + kSegmentSize"
    using al pb A2(2,4) A1(2,4) by (simp add: cm_pool_end_def blk_def)
  show "pool_inv m'"
  proof -
    have "cm_buf m' x = 0" if "cm_pool_end m' \<le> x" for x
      using out that pe pool round64_bounds(1) [of kBlockSize] by (auto simp: outside_same_def pool_inv_def blk_def)
    moreover have "64 dvd kSegmentSize" by (simp add: ia_consts)
    ultimately show ?thesis
      using pool pb al A1(6-8) A2(6-8) round64_bounds(3) [of kBlockSize] by (auto simp: pool_inv_def)
  qed
  have z: "wd m x = 0" if "blk \<le> x" for x
  proof -
    have "map (\<lambda>k. cm_buf m (x + k)) [0..<8] = replicate 8 0"
      by (intro replicate_eqI) (use pool that in \<open>auto simp: pool_inv_def blk_def\<close>)
    then show ?thesis unfolding wd_def cm_load64_def by (simp only:) (simp add: eval_nat_numeral)
  qed
  fix x assume x: "8 dvd x" "blk \<le> x"
  have l1: "wd m3 x = (if x = blk + 64 then of_nat s else 0)"
  proof (cases "blk + 64 \<le> x \<and> x < blk + 128")
    case True
    obtain k where k: "x = blk + 64 + 8 * k" "k < 8"
      using line_word_cases [of x "blk + 64"] True x b8 by auto
    have "wd m3 x = [of_nat s, 0, 0, 0, 0, 0, 0, 0] ! k"
      using W1(1) [of x] k b8 x by (simp add: b ia_consts)
    then show ?thesis using k less8_cases [OF k(2)] by (elim disjE) simp_all
  next
    case False
    then show ?thesis using W1(1) [of x] x b8 z [OF x(2)] A1(1) A2(1) by (auto simp: b ia_consts dvd_add)
  qed
  show "wd m' x = (if x = blk + 64 then of_nat (blk + round64 kBlockSize) else if x = blk + 8 then 1
        else if x = blk + 16 then ia_base_id a else if x = blk + 24 then of_nat (ia_meta_id a)
        else if x = blk + 32 then 1 else 0)"
  proof (cases "x < blk + 64")
    case True
    obtain k where k: "x = blk + 8 * k" "k < 8" using line_word_cases [OF x(1) b8 x(2) True] .
    have "wd m' x = [0, 1, ia_base_id a, of_nat (ia_meta_id a), 1, 0, 0, 0] ! k"
      using W2(1) [of x] k b8 x by (simp add: b)
    then show ?thesis using k less8_cases [OF k(2)] by (elim disjE) simp_all
  next
    case False
    then show ?thesis using W2(1) [of x] l1 x b8 by (auto simp: b s)
  qed
qed

lemma wd_outside_same:
  assumes "outside_same m m' lo n" "x + 8 \<le> lo \<or> lo + n \<le> x"
  shows "wd m' x = wd m x"
proof -
  have "map (\<lambda>k. cm_buf m' (x + k)) [0..<8] = map (\<lambda>k. cm_buf m (x + k)) [0..<8]"
    by (rule map_cong) (use assms in \<open>auto simp: outside_same_def\<close>)
  then show ?thesis by (simp only: wd_def cm_load64_def)
qed

lemma InitBlock_table:
  assumes mi: "ia_mem_inv B m" and i: "ia_meta_id a < 8" and z: "B (ia_meta_id a) = 0"
    and E: "InitBlock dfs a m = Some (dfs', a', m')"
  defines "i \<equiv> ia_meta_id a" and "B' \<equiv> B(ia_meta_id a := cm_pool_end m)"
  shows "\<And>x. x + 8 \<le> cm_pool_end m \<Longrightarrow> wd m' x = wd m x"
    and "\<And>x. 8 dvd x \<Longrightarrow> cm_pool_end m + round64 kBlockSize \<le> x \<Longrightarrow> wd m' x = 0"
    and "\<And>i' j'. i' < 8 \<Longrightarrow> j' < 1024 \<Longrightarrow> seg_at B' m' i' j' =
       (if i' = i then if j' = 0 then cm_pool_end m + round64 kBlockSize else 0 else seg_at B m i' j')"
    and "wd m' (cm_pool_end m) = 0" "wd m' (cm_pool_end m + 8) = 1"
proof -
  have pool: "pool_inv m" using mi by (simp add: ia_mem_inv_def)
  note D = mem_invD [OF mi] and I = InitBlock_words [OF pool E]
  show old: "wd m' x = wd m x" if "x + 8 \<le> cm_pool_end m" for x
    using wd_outside_same [OF I(1)] that by simp
  have b8: "8 dvd cm_pool_end m" using I(8) by (auto elim!: dvdE)
  have rb: "kBlockSize \<le> round64 kBlockSize" by (rule round64_bounds(1))
  show "wd m' x = 0" if "8 dvd x" "cm_pool_end m + round64 kBlockSize \<le> x" for x
    using I(5) [OF that(1)] that(2) rb by (auto simp: ia_consts)
  show "wd m' (cm_pool_end m) = 0" "wd m' (cm_pool_end m + 8) = 1"
    using I(5) [of "cm_pool_end m"] I(5) [of "cm_pool_end m + 8"] b8 by (simp_all add: dvd_add)
  show "seg_at B' m' i' j' =
       (if i' = i then if j' = 0 then cm_pool_end m + round64 kBlockSize else 0 else seg_at B m i' j')"
    if "i' < 8" "j' < 1024" for i' j'
  proof (cases "i' = i")
    case True
    have u: "unat (of_nat (cm_pool_end m + round64 kBlockSize) :: u64) = cm_pool_end m + round64 kBlockSize"
      using I(9) by (rule unat_of_nat_u64)
    show ?thesis using True I(5) [of "cm_pool_end m + 64 + 8 * j'"] b8 I(10) u
      by (simp add: seg_at_def B'_def i_def dvd_add del: of_nat_add)
  next
    case False
    show ?thesis
    proof (cases "B i' = 0")
      case True
      then show ?thesis using False by (simp add: seg_at_def B'_def i_def)
    next
      case nz: False
      then have "live B m (Blk i')" using that by simp
      from D(4) [OF this] that have "B i' + 64 + 8 * j' + 8 \<le> cm_pool_end m" by (simp add: ia_consts)
      from old [OF this] False nz show ?thesis by (simp add: seg_at_def B'_def i_def)
    qed
  qed
qed

lemma InitBlock_regions:
  assumes mi: "ia_mem_inv B m" and i: "ia_meta_id a < 8" and z: "B (ia_meta_id a) = 0"
    and E: "InitBlock dfs a m = Some (dfs', a', m')"
  defines "B' \<equiv> B(ia_meta_id a := cm_pool_end m)"
  assumes l: "live B' m' r"
  obtains (old) "live B m r" "reg_start B' m' r = reg_start B m r"
  | (blk) "r = Blk (ia_meta_id a)" "reg_start B' m' r = cm_pool_end m"
  | (seg) "r = Seg (ia_meta_id a) 0" "reg_start B' m' r = cm_pool_end m + round64 kBlockSize"
proof (cases r)
  case (Blk i')
  then show thesis using l old blk by (cases "i' = ia_meta_id a") (auto simp: live_def B'_def)
next
  case (Seg i' j')
  with l have ij: "i' < 8" "j' < 1024" by (auto simp: live_def)
  note T = InitBlock_table(3) [OF mi i z E ij, folded B'_def]
  show thesis using l T Seg ij old seg by (auto simp: live_def split: if_splits)
qed

lemma InitBlock_mem_inv:
  assumes mi: "ia_mem_inv B m" and i: "ia_meta_id a < 8" and z: "B (ia_meta_id a) = 0"
    and E: "InitBlock dfs a m = Some (dfs', a', m')"
  shows "ia_mem_inv (B(ia_meta_id a := cm_pool_end m)) m'" (is "ia_mem_inv ?B m'")
proof -
  have pool: "pool_inv m" using mi by (simp add: ia_mem_inv_def)
  note D = mem_invD [OF mi] and I = InitBlock_words [OF pool E] and T = InitBlock_table [OF mi i z E]
  note R = InitBlock_regions [OF mi i z E, consumes 1, case_names old blk seg]
  have rb: "kBlockSize \<le> round64 kBlockSize" "64 dvd round64 kBlockSize"
    by (rule round64_bounds(1), rule round64_bounds(3))
  have base: "cm_pool_base m \<le> cm_pool_end m" by (simp add: cm_pool_end_def)
  show ?thesis unfolding ia_mem_inv_def
  proof (intro conjI allI impI)
    show "pool_inv m'" by (rule I(2))
  next
    fix r assume l: "live ?B m' r"
    from l show "64 dvd reg_start ?B m' r"
      by (cases rule: R) (use D(2) I(8) rb(2) in \<open>auto simp: dvd_add\<close>)
    from l show "cm_pool_base m' \<le> reg_start ?B m' r"
      by (cases rule: R) (use D(3) I(3) base in auto)
    from l show "reg_start ?B m' r + reg_len r \<le> cm_pool_end m'"
      by (cases rule: R) (use D(4) [of r] I(4) rb in auto)
  next
    fix r r' assume "live ?B m' r \<and> live ?B m' r' \<and> r \<noteq> r'"
    then have l: "live ?B m' r" "live ?B m' r'" "r \<noteq> r'" by auto
    from l(1) show "reg_start ?B m' r + reg_len r \<le> reg_start ?B m' r' \<or>
        reg_start ?B m' r' + reg_len r' \<le> reg_start ?B m' r"
    proof (cases rule: R)
      case old
      from l(2) show ?thesis by (cases rule: R) (use old D(4) [of r] D(5) [of r r'] l(3) in auto)
    next
      case blk
      from l(2) show ?thesis by (cases rule: R) (use blk D(4) [of r'] rb l(3) in auto)
    next
      case seg
      from l(2) show ?thesis by (cases rule: R) (use seg D(4) [of r'] rb l(3) in auto)
    qed
  next
    fix i' assume i': "i' < 8" "?B i' \<noteq> 0"
    have bl: "B i' + kBlockSize \<le> cm_pool_end m" if "i' \<noteq> ia_meta_id a"
      using D(4) [of "Blk i'"] i' that by (auto simp: live_def)
    show "wd m' (?B i') = 0"
      using T(4) T(1) [of "B i'"] D(6) [OF i'(1)] bl i' by (auto simp: ia_consts)
    fix j assume j: "j < 1024" "seg_at ?B m' i' j \<noteq> 0"
    show "j < unat (wd m' (?B i' + 8))"
      using T(3) [OF i'(1) j(1)] T(5) T(1) [of "B i' + 8"] D(7) [OF i'(1) _ j(1)] bl i' j(2)
      by (auto simp: ia_consts split: if_splits)
  next
    fix i' j' s :: nat assume h: "i' < 8" "j' < 1024" "s < 2 ^ 20" "seg_at ?B m' i' j' \<noteq> 0"
    have l: "live ?B m' (Seg i' j')" using h by (simp add: live_def)
    then show "\<not> ctrl_dirty (wd m' (seg_at ?B m' i' j' + s * 128))"
    proof (cases rule: R)
      case old
      have "seg_at B m i' j' + s * 128 + 8 \<le> cm_pool_end m"
        using D(4) [OF old(1)] h(3) by (simp add: ia_consts)
      from T(1) [OF this] D(8) [OF h(1-3)] old h(4) show ?thesis by simp
    next
      case seg
      have "8 dvd cm_pool_end m + round64 kBlockSize + s * 128"
        using I(8) rb(2) by (auto elim!: dvdE)
      from T(2) [OF this] seg show ?thesis by (simp add: ctrl_dirty_def)
    qed simp
  qed
qed

lemma ia_mem_inv_sub:
  assumes mi: "ia_mem_inv B m" and sub: "\<And>i. B' i = 0 \<or> B' i = B i"
  shows "ia_mem_inv B' m"
proof -
  have seg: "seg_at B' m i j \<noteq> 0 \<Longrightarrow> seg_at B' m i j = seg_at B m i j" for i j
    using sub [of i] by (auto simp: seg_at_def)
  have l: "live B m r \<and> reg_start B' m r = reg_start B m r" if "live B' m r" for r
  proof (cases r)
    case (Blk i)
    then show ?thesis using that sub [of i] by (auto simp: live_def)
  next
    case (Seg i j)
    then show ?thesis using that seg [of i j] by (auto simp: live_def)
  qed
  note D = mem_invD [OF mi]
  show ?thesis unfolding ia_mem_inv_def
  proof (intro conjI allI impI)
    show "pool_inv m" by (rule D(1))
  next
    fix r assume "live B' m r"
    then show "64 dvd reg_start B' m r" "cm_pool_base m \<le> reg_start B' m r"
      "reg_start B' m r + reg_len r \<le> cm_pool_end m" using l D(2-4) by auto
  next
    fix r r' assume "live B' m r \<and> live B' m r' \<and> r \<noteq> r'"
    then show "reg_start B' m r + reg_len r \<le> reg_start B' m r' \<or> reg_start B' m r' + reg_len r' \<le> reg_start B' m r"
      using l D(5) [of r r'] by auto
  next
    fix i assume i: "i < 8" "B' i \<noteq> 0"
    then show "wd m (B' i) = 0" using sub [of i] D(6) by auto
    show "j < unat (wd m (B' i + 8))" if "j < 1024" "seg_at B' m i j \<noteq> 0" for j
      using sub [of i] i D(7) [of i j] seg that by auto
  next
    fix i j s :: nat assume "i < 8" "j < 1024" "s < 2 ^ 20" "seg_at B' m i j \<noteq> 0"
    then show "\<not> ctrl_dirty (wd m (seg_at B' m i j + s * 128))" using seg [of i j] D(8) [of i j s] by auto
  qed
qed

lemma InodeArray_new_spec:
  assumes mi: "ia_mem_inv (dfs_inode_array_block_offset dfs) m" and i: "meta_id < 8"
    and z: "dfs_inode_array_block_offset dfs meta_id = 0" and base: "base_id = push_bit 50 (of_nat meta_id)"
    and E: "InodeArray_new meta_id n_mds base_id dfs m = Some (dfs', a', m')"
  shows "ia_mem_inv (dfs_inode_array_block_offset dfs') m'"
    and "dfs_inode_array_block_offset dfs' = (dfs_inode_array_block_offset dfs)(meta_id := cm_pool_end m)"
    and "ia_inv (ia_SetMds n dfs' a') m'"
    and "key_meta k = meta_id \<Longrightarrow> ia_abs (ia_SetMds n dfs' a') m' k = None"
    and "seg_at (ia_block_offs (ia_SetMds n dfs' a')) m' meta_id 0 \<noteq> 0"
proof -
  let ?a = "\<lparr>ia_meta_id = meta_id, ia_n_mds = n_mds, ia_base_id = base_id, ia_local_num_segments = 0,
        ia_block_offs = (\<lambda>_. 0), ia_seg_offsets = (\<lambda>_ _. 0)\<rparr>"
  let ?B = "dfs_inode_array_block_offset dfs"
  let ?a' = "ia_SetMds n dfs' a'"
  have E': "InitBlock dfs ?a m = Some (dfs', a', m')" using E by (simp add: InodeArray_new_def)
  have i': "ia_meta_id ?a < 8" "?B (ia_meta_id ?a) = 0" using i z by simp_all
  have pool: "pool_inv m" using mi by (simp add: ia_mem_inv_def)
  note I = InitBlock_words [OF pool E'] and T = InitBlock_table [OF mi i' E']
  show d: "dfs_inode_array_block_offset dfs' = ?B(meta_id := cm_pool_end m)" using I(6) by simp
  have "ia_mem_inv (?B(ia_meta_id ?a := cm_pool_end m)) m'" by (rule InitBlock_mem_inv [OF mi i' E'])
  then show mi': "ia_mem_inv (dfs_inode_array_block_offset dfs') m'" by (simp add: d)
  have B: "ia_block_offs ?a' i = (if i < n \<or> i = meta_id then dfs_inode_array_block_offset dfs' i else 0)" for i
    by (simp add: ia_SetMds_def I(7) set_seg_def d)
  have mi'': "ia_mem_inv (ia_block_offs ?a') m'"
    by (rule ia_mem_inv_sub [OF mi']) (simp add: B)
  have own: "seg_at (ia_block_offs ?a') m' meta_id j = (if j = 0 then cm_pool_end m + round64 kBlockSize else 0)"
    if "j < 1024" for j
    using T(3) [of meta_id j] i that by (simp add: seg_at_def B d split: if_splits)
  show "seg_at (ia_block_offs ?a') m' meta_id 0 \<noteq> 0" using own [of 0] round64_bounds(1) [of kBlockSize] by (simp add: ia_consts)
  have so: "ia_seg_offsets ?a' = (\<lambda>i j. if i = meta_id \<and> j = 0 then cm_pool_end m + round64 kBlockSize else 0)"
    by (auto simp: ia_SetMds_def I(7) set_seg_def fun_eq_iff)
  have "ia_cache_inv ?a' m'"
  proof -
    have f: "ia_meta_id ?a' = meta_id" "ia_base_id ?a' = base_id" "ia_block_offs ?a' meta_id \<noteq> 0"
      using I(10) by (simp_all add: ia_SetMds_def I(7) set_seg_def d)
    have "ia_seg_offsets ?a' meta_id j = seg_at (ia_block_offs ?a') m' meta_id j" if "j < 1024" for j
      by (simp only: so own [OF that]) simp
    moreover have "ia_seg_offsets ?a' i j = seg_at (ia_block_offs ?a') m' i j"
      if "j < 1024" "ia_seg_offsets ?a' i j \<noteq> 0" for i j
      using calculation [OF that(1)] that(2) by (cases "i = meta_id") (simp_all add: so)
    ultimately show ?thesis unfolding ia_cache_inv_def f using i base f(3) by blast
  qed
  with mi'' show "ia_inv ?a' m'" by (simp add: ia_inv_def)
  show "ia_abs ?a' m' k = None" if k: "key_meta k = meta_id"
  proof (cases "slot_addr (ia_block_offs ?a') m' k = 0")
    case False
    note K = slot_addr_Some [OF mi'' False]
    have "8 dvd slot_addr (ia_block_offs ?a') m' k" using K(3) by (auto elim!: dvdE)
    moreover have "cm_pool_end m + round64 kBlockSize \<le> slot_addr (ia_block_offs ?a') m' k"
      using K(1,2) own k by (auto simp: live_def split: if_splits)
    ultimately show ?thesis using T(2) by (simp add: ia_abs_def slot_val_def ctrl_valid_def)
  qed (simp add: ia_abs_def)
qed

end
