(* ===== verification/InodeCluster.thy ===== *)
theory InodeCluster
  imports InodeArray
begin

text \<open>
  The inode arrays of all metadata servers over the one shared memory: a cluster state, the commands a
  server executes on its own array object, the join of a server, and the refinement of all of it to one
  map from inode ids to inodes. The step from one command to sequences of commands is the locale
  \<open>total_refinement\<close> of the prelude.
\<close>

section \<open>Commands on the shared inode arrays\<close>

text \<open>
  Each metadata server runs its own \<open>InodeArray\<close> object over the one shared memory. A server that
  joins constructs its array, which registers its block in the shared header, and every server then
  learns the number of servers (\<open>SetMetaNum\<close>, which calls \<open>SetMds\<close>). Any other command names the
  server that executes it; a server inserts only ids of its own range (the ids its
  \<open>AllocateInodeId\<close> hands out), and reads, updates and erases any id.
\<close>

datatype ia_op = IaInsert u64 Inode | IaFind u64 | IaUpdate u64 "Inode \<Rightarrow> Inode" | IaErase u64

datatype ia_cmd = Join | On nat ia_op

datatype ia_res = RDone | RFound "Inode option" | RUpdated bool

record ia_cluster =
  cl_dfs :: DFSHeader
  cl_arrays :: "InodeArray list"
  cl_mem :: CXLMem

fun ia_do :: "ia_op \<Rightarrow> InodeArray \<Rightarrow> CXLMem \<Rightarrow> (ia_res \<times> InodeArray \<times> CXLMem) option" where
  "ia_do (IaInsert k v) a m = do { (a, m) \<leftarrow> ia_insert k v a m; Some (RDone, a, m) }"
| "ia_do (IaFind k) a m = do { (r, a) \<leftarrow> ia_find k a m; Some (RFound r, a, m) }"
| "ia_do (IaUpdate k f) a m = do { (b, a, m) \<leftarrow> ia_update_fn k f a m; Some (RUpdated b, a, m) }"
| "ia_do (IaErase k) a m = do { (r, a, m) \<leftarrow> ia_erase k a m; Some (RFound r, a, m) }"

fun ia_exec :: "ia_cmd \<Rightarrow> ia_cluster \<Rightarrow> (ia_res \<times> ia_cluster) option" where
  "ia_exec Join s =
    (let n = length (cl_arrays s) in
     do { (dfs, a, m) \<leftarrow> InodeArray_new n (n + 1) (push_bit INODE_ID_RANGE (of_nat n)) (cl_dfs s) (cl_mem s);
          Some (RDone, \<lparr>cl_dfs = dfs, cl_arrays = map (ia_SetMds (n + 1) dfs) (cl_arrays s @ [a]), cl_mem = m\<rparr>) })"
| "ia_exec (On i c) s =
    do { (r, a, m) \<leftarrow> ia_do c (cl_arrays s ! i) (cl_mem s);
         Some (r, s\<lparr>cl_arrays := (cl_arrays s)[i := a], cl_mem := m\<rparr>) }"

text \<open>The specification: one map from inode ids to inodes, whoever executes the command.\<close>

fun ia_spec :: "ia_cmd \<Rightarrow> (u64 \<Rightarrow> Inode option) \<Rightarrow> ia_res \<times> (u64 \<Rightarrow> Inode option)" where
  "ia_spec Join M = (RDone, M)"
| "ia_spec (On i (IaInsert k v)) M = (RDone, M(k \<mapsto> v))"
| "ia_spec (On i (IaFind k)) M = (RFound (M k), M)"
| "ia_spec (On i (IaUpdate k f)) M = (RUpdated (M k \<noteq> None), M(k := map_option f (M k)))"
| "ia_spec (On i (IaErase k)) M = (RFound (M k), M(k := None))"

definition cl_offs :: "ia_cluster \<Rightarrow> nat \<Rightarrow> nat" where
  "cl_offs s = dfs_inode_array_block_offset (cl_dfs s)"

definition cluster_inv :: "ia_cluster \<Rightarrow> bool" where
  "cluster_inv s \<longleftrightarrow> length (cl_arrays s) \<le> 8 \<and> ia_mem_inv (cl_offs s) (cl_mem s) \<and>
     (\<forall>i\<ge>length (cl_arrays s). cl_offs s i = 0) \<and>
     (\<forall>i<length (cl_arrays s). ia_cache_inv (cl_arrays s ! i) (cl_mem s) \<and> ia_meta_id (cl_arrays s ! i) = i \<and>
        ia_block_offs (cl_arrays s ! i) = cl_offs s)"

definition cluster_abs :: "ia_cluster \<Rightarrow> u64 \<Rightarrow> Inode option" where
  "cluster_abs s k =
    (let o' = slot_addr (cl_offs s) (cl_mem s) k in if o' = 0 then None else slot_val (cl_mem s) o')"

fun cluster_ok :: "ia_cluster \<Rightarrow> ia_cmd \<Rightarrow> bool" where
  "cluster_ok s Join = (length (cl_arrays s) < 8)"
| "cluster_ok s (On i (IaInsert k v)) = (i < length (cl_arrays s) \<and> key_meta k = i \<and> key_seg k < 1024)"
| "cluster_ok s (On i _) = (i < length (cl_arrays s))"

text \<open>How many more joins or new segments the pool has room for.\<close>

definition cluster_room :: "ia_cluster \<Rightarrow> nat" where
  "cluster_room s = (na_capacity (cm_alloc (cl_mem s)) - na_offset (cm_alloc (cl_mem s))) div
     (round64 kBlockSize + kSegmentSize)"

text \<open>What one server does to memory keeps the invariant of every other server.\<close>

lemma other_server_inv:
  assumes b: "ia_inv b m" and a': "ia_inv a' m'" and B: "ia_block_offs a' = ia_block_offs b"
    and g: "segs_grow i (ia_block_offs b) m m'" and ne: "ia_meta_id b \<noteq> i"
  shows "ia_inv b m'"
proof -
  have c: "ia_cache_inv b m" using b by (simp add: ia_inv_def)
  have seg: "seg_at (ia_block_offs b) m' i' j = seg_at (ia_block_offs b) m i' j"
    if "i' < 8" "j < 1024" "i' \<noteq> i \<or> seg_at (ia_block_offs b) m i' j \<noteq> 0" for i' j
    using g that by (auto simp: segs_grow_def)
  have "ia_cache_inv b m'"
    unfolding ia_cache_inv_def
  proof (intro conjI allI impI)
    show "ia_meta_id b < 8" "ia_base_id b = push_bit 50 (of_nat (ia_meta_id b))"
      "ia_block_offs b (ia_meta_id b) \<noteq> 0" using c by (auto simp: ia_cache_inv_def)
  next
    fix i' j :: nat assume h: "i' < 8" "j < 1024" "ia_seg_offsets b i' j \<noteq> 0"
    then have e: "ia_seg_offsets b i' j = seg_at (ia_block_offs b) m i' j" using c unfolding ia_cache_inv_def by blast
    with h seg [OF h(1,2)] show "ia_seg_offsets b i' j = seg_at (ia_block_offs b) m' i' j" by simp
  next
    fix j :: nat assume "j < 1024"
    moreover have i: "ia_meta_id b < 8" using c unfolding ia_cache_inv_def by blast
    ultimately have "ia_seg_offsets b (ia_meta_id b) j = seg_at (ia_block_offs b) m (ia_meta_id b) j"
      using c unfolding ia_cache_inv_def by blast
    then show "ia_seg_offsets b (ia_meta_id b) j = seg_at (ia_block_offs b) m' (ia_meta_id b) j"
      using seg [OF i \<open>j < 1024\<close>] ne by simp
  qed
  then show ?thesis using a' B by (simp add: ia_inv_def)
qed

lemma clusterD:
  assumes "cluster_inv s" "i < length (cl_arrays s)"
  shows "ia_inv (cl_arrays s ! i) (cl_mem s)" "ia_meta_id (cl_arrays s ! i) = i"
    "ia_block_offs (cl_arrays s ! i) = cl_offs s" "ia_abs (cl_arrays s ! i) (cl_mem s) = cluster_abs s"
proof -
  show 1: "ia_meta_id (cl_arrays s ! i) = i" "ia_block_offs (cl_arrays s ! i) = cl_offs s"
    using assms by (auto simp: cluster_inv_def)
  then show "ia_inv (cl_arrays s ! i) (cl_mem s)" using assms by (auto simp: cluster_inv_def ia_inv_def)
  show "ia_abs (cl_arrays s ! i) (cl_mem s) = cluster_abs s"
    by (simp add: fun_eq_iff ia_abs_def cluster_abs_def 1 Let_def)
qed

lemma cluster_step:
  assumes inv: "cluster_inv s" and i: "i < length (cl_arrays s)"
    and a: "ia_inv a m'" "ia_meta_id a = i" "ia_block_offs a = cl_offs s"
    and g: "segs_grow i (cl_offs s) (cl_mem s) m'"
  defines "s' \<equiv> s\<lparr>cl_arrays := (cl_arrays s)[i := a], cl_mem := m'\<rparr>"
  shows "cluster_inv s'" "cluster_abs s' = ia_abs a m'"
proof -
  note I = clusterD [OF inv]
  have o': "cl_offs s' = cl_offs s" by (simp add: s'_def cl_offs_def)
  have old: "ia_inv (cl_arrays s ! j) m'" if "j < length (cl_arrays s)" "j \<noteq> i" for j
    by (rule other_server_inv [OF I(1) [OF that(1)] a(1), of i]) (use g that I(2,3) [OF that(1)] a(3) in simp_all)
  have "ia_cache_inv (cl_arrays s' ! j) m' \<and> ia_meta_id (cl_arrays s' ! j) = j \<and> ia_block_offs (cl_arrays s' ! j) = cl_offs s"
    if "j < length (cl_arrays s)" for j
    using old that I(2,3) [OF that] a i by (cases "j = i") (simp_all add: s'_def ia_inv_def)
  moreover have "ia_mem_inv (cl_offs s) m'" using a by (simp add: ia_inv_def)
  ultimately show "cluster_inv s'" using inv o' unfolding cluster_inv_def by (simp add: s'_def)
  show "cluster_abs s' = ia_abs a m'"
    by (simp add: fun_eq_iff cluster_abs_def ia_abs_def o' a(3) Let_def) (simp add: s'_def)
qed

text \<open>A command of one server on its array: what it returns, and what it does to the map.\<close>

lemma ia_do_spec:
  assumes a: "ia_inv a m" and own: "\<And>k v. c = IaInsert k v \<Longrightarrow> own_key a k"
    and e: "ia_do c a m = Some (r, a', m')"
  shows "ia_inv a' m' \<and> ia_meta_id a' = ia_meta_id a \<and> ia_block_offs a' = ia_block_offs a \<and>
    segs_grow (ia_meta_id a) (ia_block_offs a) m m' \<and>
    ia_spec (On i c) (ia_abs a m) = (r, ia_abs a' m') \<and> na_capacity (cm_alloc m') = na_capacity (cm_alloc m) \<and>
    na_offset (cm_alloc m') \<le> na_offset (cm_alloc m) + kSegmentSize"
proof (cases c)
  case (IaInsert k v)
  then have e': "ia_insert k v a m = Some (a', m')" "r = RDone" using e by (auto split: bind_splits)
  show ?thesis using ia_insert_spec [OF a own [OF IaInsert] e'(1)] e'(2) IaInsert by simp
next
  case (IaFind k)
  then show ?thesis using e by (auto intro: ia_find_spec [OF a, of k])
next
  case (IaUpdate k f)
  then show ?thesis using e by (auto intro: ia_update_fn_spec [OF a, of k f])
next
  case (IaErase k)
  then show ?thesis using e by (auto intro: ia_erase_spec [OF a, of k])
qed

lemma ia_do_total:
  assumes a: "ia_inv a m" and own: "\<And>k v. c = IaInsert k v \<Longrightarrow> own_key a k \<and> key_seg k < 1024"
    and room: "na_offset (cm_alloc m) + kSegmentSize \<le> na_capacity (cm_alloc m)"
  shows "\<exists>r a' m'. ia_do c a m = Some (r, a', m')"
proof (cases c)
  case (IaInsert k v)
  then show ?thesis using ia_insert_total [OF a _ _ room, of k v] own by auto
next
  case (IaFind k)
  then show ?thesis by (auto intro: ia_find_spec [OF a, of k])
next
  case (IaUpdate k f)
  then show ?thesis by (auto intro: ia_update_fn_spec [OF a, of k f])
next
  case (IaErase k)
  then show ?thesis by (auto intro: ia_erase_spec [OF a, of k])
qed

text \<open>A join adds a block and a segment of zeroes to the pool, and leaves the map as it was.\<close>

lemma InitBlock_ok:
  assumes pool: "pool_inv m"
    and room: "na_offset (cm_alloc m) + (round64 kBlockSize + kSegmentSize) \<le> na_capacity (cm_alloc m)"
  shows "\<exists>dfs' a' m'. InitBlock dfs a m = Some (dfs', a', m')"
proof -
  obtain b m1 where a1: "cm_Alloc kBlockSize m = Some (b, m1)"
    using room by (auto simp: cm_Alloc_def CXLMallocOffset_def Let_def)
  note A1 = cm_Alloc_wd [OF a1]
  obtain s m2 where a2: "cm_Alloc kSegmentSize m1 = Some (s, m2)"
    using room A1(7,8) by (auto simp: cm_Alloc_def CXLMallocOffset_def Let_def)
  note A2 = cm_Alloc_wd [OF a2]
  have fit: "b + kBlockSize \<le> cm_pool_end m2"
    using A1(3,4) A2(4) round64_bounds(1) [of kBlockSize] by simp
  obtain m3 where w1: "write_words (b + kIAHeaderSize) [of_nat s, 0, 0, 0, 0, 0, 0, 0] m2 = Some m3"
    using write_words_ok [of "b + kIAHeaderSize" "[of_nat s, 0, 0, 0, 0, 0, 0, 0]" m2] fit by (auto simp: ia_consts)
  have l8: "8 dvd length [x1, x2, x3, x4, x5, x6, x7, x8 :: u64]" for x1 x2 x3 x4 x5 x6 x7 x8
    by (simp add: numeral_eq_Suc)
  have "cm_pool_end m3 = cm_pool_end m2" using write_words_wd(2,3) [OF w1 l8] by (simp add: cm_pool_end_def)
  then show ?thesis
    using a1 a2 w1 fit write_words_ok [of b "[0, 1, ia_base_id a, of_nat (ia_meta_id a), 1, 0, 0, 0]" m3]
    by (auto simp: InitBlock_def Let_def header_words_def ia_consts)
qed

lemma join_old_array:
  assumes mi: "ia_mem_inv B m" and n: "n < 8" "B n = 0"
    and E: "InodeArray_new n k base dfs m = Some (dfs', a', m')"
    and b: "ia_cache_inv b m" "ia_block_offs b = B" "ia_meta_id b \<noteq> n"
    and B': "ia_block_offs b' = B(n := cm_pool_end m)"
    and b': "ia_meta_id b' = ia_meta_id b" "ia_base_id b' = ia_base_id b" "ia_seg_offsets b' = ia_seg_offsets b"
  shows "ia_cache_inv b' m'"
proof -
  note T = InitBlock_table(3) [OF mi _ _ E [unfolded InodeArray_new_def], unfolded InodeArray.InodeArray.select_convs, OF n]
  have z: "seg_at B m n j = 0" for j using n by (simp add: seg_at_def)
  have c: "ia_meta_id b < 8" "ia_base_id b = push_bit 50 (of_nat (ia_meta_id b))" "B (ia_meta_id b) \<noteq> 0"
    "\<And>i j. i < 8 \<Longrightarrow> j < 1024 \<Longrightarrow> ia_seg_offsets b i j \<noteq> 0 \<Longrightarrow> ia_seg_offsets b i j = seg_at B m i j"
    "\<And>j. j < 1024 \<Longrightarrow> ia_seg_offsets b (ia_meta_id b) j = seg_at B m (ia_meta_id b) j"
    using b(1,2) unfolding ia_cache_inv_def by blast+
  have "ia_seg_offsets b i j = seg_at (B(n := cm_pool_end m)) m' i j"
    if h: "i < 8" "j < 1024" "ia_seg_offsets b i j \<noteq> 0" for i j
    using T [OF h(1,2)] c(4) [OF h] h(3) z by (cases "i = n") simp_all
  moreover have "ia_seg_offsets b (ia_meta_id b) j = seg_at (B(n := cm_pool_end m)) m' (ia_meta_id b) j"
    if "j < 1024" for j
    using T [OF c(1) that] c(5) [OF that] b(3) by simp
  ultimately show ?thesis unfolding ia_cache_inv_def B' b' using c(1-3) b(3) by (auto simp del: fun_upd_apply simp: fun_upd_other)
qed

lemma join_slot:
  assumes mi: "ia_mem_inv B m" and n: "n < 8" "B n = 0"
    and E: "InodeArray_new n k base dfs m = Some (dfs', a', m')"
  defines "B' \<equiv> B(n := cm_pool_end m)"
  shows "(if slot_addr B' m' key = 0 then None else slot_val m' (slot_addr B' m' key)) =
    (if slot_addr B m key = 0 then None else slot_val m (slot_addr B m key))"
proof -
  note E' = E [unfolded InodeArray_new_def]
  note IT = InitBlock_table [OF mi _ _ E', unfolded InodeArray.InodeArray.select_convs, OF n, folded B'_def]
  have mi': "ia_mem_inv B' m'"
    using InitBlock_mem_inv [OF mi _ _ E', unfolded InodeArray.InodeArray.select_convs, OF n] by (simp add: B'_def)
  show ?thesis
  proof (cases "slot_addr B' m' key = 0")
    case True
    then show ?thesis using IT(3) [of "key_meta key" "key_seg key"] n
      by (auto simp: slot_addr_def seg_at_def split: if_splits)
  next
    case False
    note K = slot_addr_Some [OF mi' False]
    have ij: "key_meta key < 8" "key_seg key < 1024" using K(1) by simp_all
    note T = IT(3) [OF ij]
    show ?thesis
    proof (cases "key_meta key = n")
      case True
      have "8 dvd slot_addr B' m' key" using K(3) by (auto elim!: dvdE)
      moreover have "cm_pool_end m + round64 kBlockSize \<le> slot_addr B' m' key"
        using K(1,2) T True by (auto split: if_splits)
      ultimately have "wd m' (slot_addr B' m' key) = 0" by (rule IT(2))
      then show ?thesis using True n by (simp add: slot_val_def ctrl_valid_def slot_addr_def seg_at_def)
    next
      case old: False
      then have eq: "slot_addr B' m' key = slot_addr B m key" using T ij by (simp add: slot_addr_def)
      then have "slot_addr B m key + 128 \<le> cm_pool_end m" using slot_addr_Some(4) [OF mi, of key] False by simp
      then have "wd m' (slot_addr B m key + x) = wd m (slot_addr B m key + x)" if "x \<le> 120" for x
        using that by (intro IT(1)) simp
      from this [of 0] this [of "8 + 8 * _"] have "slot_val m' (slot_addr B m key) = slot_val m (slot_addr B m key)"
        by (auto simp: slot_val_def slot_inode_def add.assoc intro!: arg_cong [of _ _ words_inode] map_cong)
      then show ?thesis by (simp add: eq)
    qed
  qed
qed

lemma cluster_join:
  assumes inv: "cluster_inv s" and n: "length (cl_arrays s) < 8" and e: "ia_exec Join s = Some (r, s')"
  shows "cluster_inv s'" "r = RDone" "cluster_abs s' = cluster_abs s"
proof -
  let ?n = "length (cl_arrays s)" and ?B = "cl_offs s"
  obtain dfs a m where E: "InodeArray_new ?n (?n + 1) (push_bit INODE_ID_RANGE (of_nat ?n)) (cl_dfs s) (cl_mem s) = Some (dfs, a, m)"
    and s': "r = RDone" "s' = \<lparr>cl_dfs = dfs, cl_arrays = map (ia_SetMds (?n + 1) dfs) (cl_arrays s @ [a]), cl_mem = m\<rparr>"
    using e by (auto simp: Let_def split: bind_splits)
  have mi: "ia_mem_inv ?B (cl_mem s)" and z: "\<And>i. ?n \<le> i \<Longrightarrow> ?B i = 0"
    using inv by (auto simp: cluster_inv_def)
  note N = InodeArray_new_spec [OF mi [unfolded cl_offs_def] n z [unfolded cl_offs_def, OF order_refl] _ E, unfolded INODE_ID_RANGE_def, OF refl]
  have o': "cl_offs s' = ?B(?n := cm_pool_end (cl_mem s))" using N(2) by (simp add: s' cl_offs_def)
  have mem: "cl_mem s' = m" by (simp add: s')
  show "r = RDone" by (rule s'(1))
  show "cluster_abs s' = cluster_abs s"
    unfolding fun_eq_iff cluster_abs_def Let_def mem o' using join_slot [OF mi n z [OF order_refl] E] by blast
  have sm: "ia_block_offs (ia_SetMds (?n + 1) dfs b) = cl_offs s'" if "\<And>i. ?n < i \<Longrightarrow> ia_block_offs b i = 0" for b
    using that z by (auto simp: ia_SetMds_def fun_eq_iff s' cl_offs_def N(2))
  have old: "ia_cache_inv (cl_arrays s' ! i) m \<and> ia_meta_id (cl_arrays s' ! i) = i \<and> ia_block_offs (cl_arrays s' ! i) = cl_offs s'"
    if i: "i < ?n" for i
  proof -
    note I = clusterD [OF inv i]
    have f: "cl_arrays s' ! i = ia_SetMds (?n + 1) dfs (cl_arrays s ! i)" using i by (simp add: s' nth_append)
    have B: "ia_block_offs (cl_arrays s' ! i) = cl_offs s'" unfolding f by (rule sm) (simp add: I(3) z)
    have "ia_cache_inv (cl_arrays s' ! i) m"
      by (rule join_old_array [OF mi n z [OF order_refl] E, of "cl_arrays s ! i"])
        (use i I B o' in \<open>simp_all add: ia_inv_def f ia_SetMds_def\<close>)
    then show ?thesis using B I(2) by (simp add: f ia_SetMds_def)
  qed
  have a: "ia_block_offs a = (\<lambda>_. 0)(?n := cm_pool_end (cl_mem s))" "ia_meta_id a = ?n"
    using InitBlock_words(7) [OF mem_invD(1) [OF mi] E [unfolded InodeArray_new_def]] by (simp_all add: set_seg_def)
  have "ia_block_offs (ia_SetMds (?n + 1) dfs a) = cl_offs s'" by (rule sm) (simp add: a)
  moreover have "ia_inv (ia_SetMds (?n + 1) dfs a) m" by (rule N(3))
  moreover have "ia_meta_id (ia_SetMds (?n + 1) dfs a) = ?n" by (simp add: ia_SetMds_def a)
  ultimately have new: "ia_cache_inv (cl_arrays s' ! ?n) m \<and> ia_meta_id (cl_arrays s' ! ?n) = ?n \<and>
      ia_block_offs (cl_arrays s' ! ?n) = cl_offs s'"
    by (simp add: s' nth_append ia_inv_def)
  have "ia_mem_inv (cl_offs s') m" using N(1) by (simp add: s' cl_offs_def)
  then show "cluster_inv s'" using old new n z o'
    unfolding cluster_inv_def by (auto simp: s'(2) less_Suc_eq)
qed

lemma join_alloc:
  assumes inv: "cluster_inv s" and e: "ia_exec Join s = Some (r, s')"
  shows "na_capacity (cm_alloc (cl_mem s')) = na_capacity (cm_alloc (cl_mem s))"
    "na_offset (cm_alloc (cl_mem s')) = na_offset (cm_alloc (cl_mem s)) + (round64 kBlockSize + kSegmentSize)"
proof -
  have pool: "pool_inv (cl_mem s)" using inv by (simp add: cluster_inv_def ia_mem_inv_def)
  obtain dfs a0 a m where E: "InitBlock (cl_dfs s) a0 (cl_mem s) = Some (dfs, a, m)" and m: "cl_mem s' = m"
    using e by (auto simp: InodeArray_new_def Let_def split: bind_splits)
  note I = InitBlock_words [OF pool E]
  show "na_offset (cm_alloc (cl_mem s')) = na_offset (cm_alloc (cl_mem s)) + (round64 kBlockSize + kSegmentSize)"
    using I(3,4) m by (simp add: cm_pool_end_def)
  show "na_capacity (cm_alloc (cl_mem s')) = na_capacity (cm_alloc (cl_mem s))"
    using E unfolding m by (auto simp: InitBlock_def Let_def cm_Alloc_def CXLMallocOffset_def write_words_def
        cm_Write_def split: bind_splits if_splits)
qed

lemma room_unit_pos [simp]: "0 < round64 kBlockSize + kSegmentSize"
  by (simp add: ia_consts)

lemma room_step:
  assumes "na_capacity a' = na_capacity a" "na_offset a' \<le> na_offset a + u" "0 < u"
  shows "(na_capacity a - na_offset a) div u \<le> Suc ((na_capacity a' - na_offset a') div u)"
proof -
  have "(na_capacity a - na_offset a) div u \<le> ((na_capacity a' - na_offset a') + u) div u"
    using assms(1,2) by (intro div_le_mono) simp
  then show ?thesis using div_add_self2 [of u "na_capacity a' - na_offset a'"] assms(3) by simp
qed

lemma room_pos:
  assumes "cluster_inv s" "0 < cluster_room s"
  shows "na_offset (cm_alloc (cl_mem s)) + (round64 kBlockSize + kSegmentSize) \<le> na_capacity (cm_alloc (cl_mem s))"
proof -
  have "na_offset (cm_alloc (cl_mem s)) \<le> na_capacity (cm_alloc (cl_mem s))"
    using assms(1) by (simp add: cluster_inv_def ia_mem_inv_def pool_inv_def)
  moreover have "round64 kBlockSize + kSegmentSize \<le> na_capacity (cm_alloc (cl_mem s)) - na_offset (cm_alloc (cl_mem s))"
    using assms(2) by (simp add: cluster_room_def div_greater_zero_iff)
  ultimately show ?thesis by linarith
qed

lemma cluster_exec_On:
  assumes inv: "cluster_inv s" and ok: "cluster_ok s (On i c)" and e: "ia_exec (On i c) s = Some (r, s')"
  shows "cluster_inv s'" "ia_spec (On i c) (cluster_abs s) = (r, cluster_abs s')" "cluster_room s \<le> Suc (cluster_room s')"
proof -
  have i: "i < length (cl_arrays s)" using ok by (cases c) simp_all
  note I = clusterD [OF inv i]
  obtain a m where d: "ia_do c (cl_arrays s ! i) (cl_mem s) = Some (r, a, m)"
    and s': "s' = s\<lparr>cl_arrays := (cl_arrays s)[i := a], cl_mem := m\<rparr>"
    using e by (auto split: bind_splits)
  have own: "own_key (cl_arrays s ! i) k" if "c = IaInsert k v" for k v
    using ok that I(2) by (simp add: own_key_def)
  have D: "ia_inv a m \<and> ia_meta_id a = i \<and> ia_block_offs a = cl_offs s \<and>
    segs_grow i (cl_offs s) (cl_mem s) m \<and> ia_spec (On i c) (cluster_abs s) = (r, ia_abs a m) \<and>
    na_capacity (cm_alloc m) = na_capacity (cm_alloc (cl_mem s)) \<and>
    na_offset (cm_alloc m) \<le> na_offset (cm_alloc (cl_mem s)) + kSegmentSize"
    by (rule ia_do_spec [OF I(1) _ d, unfolded I(2-4)]) (rule own)
  note S = cluster_step [OF inv i, of a m, folded s']
  show "cluster_inv s'" using S(1) D by blast
  show "ia_spec (On i c) (cluster_abs s) = (r, cluster_abs s')" using S(2) D by simp
  show "cluster_room s \<le> Suc (cluster_room s')"
    unfolding cluster_room_def using D by (intro room_step) (simp_all add: s' del: add_gr_0)
qed

interpretation ic: total_refinement cluster_inv cluster_abs cluster_ok ia_exec ia_spec cluster_room
proof
  fix s c r s'
  assume h: "cluster_inv s" "cluster_ok s c" "ia_exec c s = Some (r, s')"
  show "cluster_inv s'"
    using cluster_join [of s r s'] cluster_exec_On [of s _ _ r s'] h by (cases c) simp_all
  show "ia_spec c (cluster_abs s) = (r, cluster_abs s')"
    using cluster_join [of s r s'] cluster_exec_On [of s _ _ r s'] h by (cases c) simp_all
next
  fix s c
  assume h: "cluster_inv s" "cluster_ok s c" "0 < cluster_room s"
  note room = room_pos [OF h(1,3)]
  show "\<exists>r s'. ia_exec c s = Some (r, s') \<and> cluster_room s \<le> Suc (cluster_room s')"
  proof (cases c)
    case Join
    have pool: "pool_inv (cl_mem s)" using h(1) by (simp add: cluster_inv_def ia_mem_inv_def)
    obtain dfs' a' m' where "InodeArray_new (length (cl_arrays s)) (length (cl_arrays s) + 1)
        (push_bit INODE_ID_RANGE (of_nat (length (cl_arrays s)))) (cl_dfs s) (cl_mem s) = Some (dfs', a', m')"
      unfolding InodeArray_new_def using InitBlock_ok [OF pool room] by blast
    then obtain r s' where e: "ia_exec Join s = Some (r, s')" by (simp add: Let_def)
    have "cluster_room s \<le> Suc (cluster_room s')"
      unfolding cluster_room_def using join_alloc [OF h(1) e]
      by (intro room_step) (simp_all del: add_gr_0)
    then show ?thesis using e Join by blast
  next
    case (On i c')
    have i: "i < length (cl_arrays s)" using h(2) On by (cases c') simp_all
    note I = clusterD [OF h(1) i]
    have "own_key (cl_arrays s ! i) k \<and> key_seg k < 1024" if "c' = IaInsert k v" for k v
      using h(2) that On I(2) by (simp add: own_key_def)
    then obtain r a' m' where "ia_do c' (cl_arrays s ! i) (cl_mem s) = Some (r, a', m')"
      using ia_do_total [OF I(1), of c'] room by auto
    then obtain s' where e: "ia_exec (On i c') s = Some (r, s')" by simp
    from cluster_exec_On(3) [OF h(1) _ e] h(2) On e show ?thesis by blast
  qed
qed

section \<open>The properties\<close>

text \<open>The state before the first server starts: a zeroed pool, nothing registered.\<close>

definition fresh_cluster :: "nat \<Rightarrow> nat \<Rightarrow> ia_cluster" where
  "fresh_cluster pool_base capacity =
    \<lparr>cl_dfs = \<lparr>dfs_inode_array_block_offset = (\<lambda>_. 0)\<rparr>, cl_arrays = [],
     cl_mem = \<lparr>cm_buf = (\<lambda>_. 0), cm_pool_base = pool_base,
       cm_alloc = na_Init capacity \<lparr>na_magic = 0, na_capacity = 0, na_offset = 0, na_free_size = 0\<rparr>\<rparr>\<rparr>"

lemma fresh_cluster_inv:
  assumes "0 < pool_base" "64 dvd pool_base" "pool_base + capacity < 2 ^ 64"
  shows "cluster_inv (fresh_cluster pool_base capacity)"
    "cluster_abs (fresh_cluster pool_base capacity) = (\<lambda>_. None)"
proof -
  have "seg_at (\<lambda>_. 0) m i j = 0" for m i j by (simp add: seg_at_def)
  moreover have "\<not> live (\<lambda>_. 0) m r" for m r by (cases r) (simp_all add: live_def seg_at_def)
  ultimately show "cluster_inv (fresh_cluster pool_base capacity)"
    using assms by (simp add: cluster_inv_def fresh_cluster_def cl_offs_def ia_mem_inv_def pool_inv_def na_Init_def)
  show "cluster_abs (fresh_cluster pool_base capacity) = (\<lambda>_. None)"
    by (simp add: fun_eq_iff cluster_abs_def fresh_cluster_def cl_offs_def slot_addr_def seg_at_def)
qed

text \<open>Which commands are allowed depends on the number of servers alone.\<close>

fun cmds_ok :: "nat \<Rightarrow> ia_cmd list \<Rightarrow> bool" where
  "cmds_ok n [] = True"
| "cmds_ok n (Join # cs) = (n < 8 \<and> cmds_ok (n + 1) cs)"
| "cmds_ok n (On i (IaInsert k v) # cs) = (i < n \<and> key_meta k = i \<and> key_seg k < 1024 \<and> cmds_ok n cs)"
| "cmds_ok n (On i _ # cs) = (i < n \<and> cmds_ok n cs)"

lemma cmds_ok_run_ok: "cmds_ok (length (cl_arrays s)) cs \<Longrightarrow> run_ok ia_exec cluster_ok cs s"
proof (induction cs arbitrary: s)
  case (Cons c cs)
  show ?case
  proof (cases c)
    case Join
    with Cons show ?thesis by (auto simp: Let_def split: option.splits bind_splits)
  next
    case (On i c')
    with Cons.prems have "cmds_ok (length (cl_arrays s)) cs" "cluster_ok s c" by (cases c'; simp)+
    with On Cons.IH show ?thesis by (auto split: option.splits bind_splits)
  qed
qed simp

text \<open>C1: Any sequence of joins, insertions, lookups, updates and erasures by up to eight servers over one
  shared zeroed pool returns, as long as the pool has room for a block and a segment per command, and
  every result is the one a single map from inode ids to inodes gives; in particular every server sees at
  once what any other server wrote.\<close>

theorem inode_cluster_refines_map:
  assumes "0 < pool_base" "64 dvd pool_base" "pool_base + capacity < 2 ^ 64"
    and "cmds_ok 0 cs" and "length cs * (round64 kBlockSize + kSegmentSize) \<le> capacity"
  shows "\<exists>rs t. run_ops ia_exec cs (fresh_cluster pool_base capacity) = Some (rs, t) \<and> cluster_inv t \<and>
    run_spec ia_spec cs (\<lambda>_. None) = (rs, cluster_abs t)"
proof -
  note F = fresh_cluster_inv [OF assms(1-3)]
  have "length cs \<le> cluster_room (fresh_cluster pool_base capacity)"
    using assms(5) by (simp add: cluster_room_def fresh_cluster_def na_Init_def less_eq_div_iff_mult_less_eq
        del: add_gr_0)
  moreover have "run_ok ia_exec cluster_ok cs (fresh_cluster pool_base capacity)"
    using assms(4) by (intro cmds_ok_run_ok) (simp add: fresh_cluster_def)
  ultimately show ?thesis using ic.run_total [OF F(1), of cs] by (simp add: F(2))
qed

theorem inode_cluster_refines_map_witness:
  "\<exists>t. run_ops ia_exec
     [Join, Join, On 1 (IaInsert (2 ^ 50 + 5) Inode_zero), On 0 (IaFind (2 ^ 50 + 5)),
      On 0 (IaUpdate (2 ^ 50 + 5) (\<lambda>i. i\<lparr>i_nlink := 3\<rparr>)), On 1 (IaErase (2 ^ 50 + 5)), On 0 (IaFind (2 ^ 50 + 5))]
     (fresh_cluster 64 (2 ^ 40)) =
     Some ([RDone, RDone, RDone, RFound (Some Inode_zero), RUpdated True,
       RFound (Some (Inode_zero\<lparr>i_nlink := 3\<rparr>)), RFound None], t)"
proof -
  have "key_meta (2 ^ 50 + 5) = 1" "key_seg (2 ^ 50 + 5) = 0" by (simp_all add: key_meta_def key_seg_def)
  then show ?thesis
    using inode_cluster_refines_map [of 64 "2 ^ 40" "[Join, Join, On 1 (IaInsert (2 ^ 50 + 5) Inode_zero),
      On 0 (IaFind (2 ^ 50 + 5)), On 0 (IaUpdate (2 ^ 50 + 5) (\<lambda>i. i\<lparr>i_nlink := 3\<rparr>)),
      On 1 (IaErase (2 ^ 50 + 5)), On 0 (IaFind (2 ^ 50 + 5))]"]
    by (auto simp: ia_consts round64_def simp del: run_ops.simps)
qed

end
