(* ===== verification/TagHint.thy ===== *)
theory TagHint
  imports Prelude
begin

text \<open>
  The local tag hint of the level hash table (\<open>tag_hint.h\<close>): eight 32-bit tags per bucket that mirror
  the slots of the bucket's hash region. The hint is advisory: a stale tag costs a read, never a result.
\<close>

unbundle bit_operations_syntax

section \<open>Operations\<close>

definition kSlotsPerBucket :: nat where "kSlotsPerBucket = 8"

record TagHint =
  th_n :: nat
  th_data :: "nat \<Rightarrow> u32"

definition TagHint_new :: "nat \<Rightarrow> TagHint" where
  "TagHint_new total_buckets = \<lparr>th_n = total_buckets, th_data = (\<lambda>_. 0)\<rparr>"

definition fp_to_tag :: "u64 \<Rightarrow> u32" where
  "fp_to_tag fp = (let t = ucast fp in if t = 0 then 1 else t)"

definition th_set :: "nat \<Rightarrow> nat \<Rightarrow> u64 \<Rightarrow> TagHint \<Rightarrow> TagHint" where
  "th_set bucket_id slot_idx fp h =
    (if bucket_id \<ge> th_n h \<or> slot_idx \<ge> kSlotsPerBucket then h
     else h\<lparr>th_data := (th_data h)(bucket_id * kSlotsPerBucket + slot_idx := fp_to_tag fp)\<rparr>)"

definition th_clear :: "nat \<Rightarrow> nat \<Rightarrow> TagHint \<Rightarrow> TagHint" where
  "th_clear bucket_id slot_idx h =
    (if bucket_id \<ge> th_n h \<or> slot_idx \<ge> kSlotsPerBucket then h
     else h\<lparr>th_data := (th_data h)(bucket_id * kSlotsPerBucket + slot_idx := 0)\<rparr>)"

definition th_test :: "nat \<Rightarrow> u64 \<Rightarrow> TagHint \<Rightarrow> bool" where
  "th_test bucket_id fp h =
    (bucket_id \<ge> th_n h \<or>
     list_ex (\<lambda>i. th_data h (bucket_id * kSlotsPerBucket + i) = fp_to_tag fp) [0..<kSlotsPerBucket])"

definition th_copy_from :: "TagHint \<Rightarrow> nat \<Rightarrow> nat \<Rightarrow> nat \<Rightarrow> TagHint \<Rightarrow> TagHint" where
  "th_copy_from src src_start dst_start cnt h =
    fold (\<lambda>i h. let si = src_start + i; di = dst_start + i in
       if si < th_n src \<and> di < th_n h
       then fold (\<lambda>s h. h\<lparr>th_data := (th_data h)(di * kSlotsPerBucket + s :=
                    th_data src (si * kSlotsPerBucket + s))\<rparr>) [0..<kSlotsPerBucket] h
       else h) [0..<cnt] h"

definition th_reset :: "TagHint \<Rightarrow> TagHint" where
  "th_reset h = h\<lparr>th_data := (\<lambda>_. 0)\<rparr>"

definition th_memory_bytes :: "TagHint \<Rightarrow> nat" where
  "th_memory_bytes h = th_n h * kSlotsPerBucket * 4"

section \<open>The hint reports what was recorded\<close>

lemma fp_to_tag_nonzero [simp]: "fp_to_tag fp \<noteq> 0" "0 \<noteq> fp_to_tag fp"
  by (simp_all add: fp_to_tag_def Let_def)

lemma th_n_simps [simp]:
  "th_n (th_set b s fp h) = th_n h" "th_n (th_clear b s h) = th_n h" "th_n (TagHint_new n) = n"
  by (simp_all add: th_set_def th_clear_def TagHint_new_def)

lemma row_index_eq:
  assumes "s < kSlotsPerBucket" "s' < kSlotsPerBucket"
  shows "b * kSlotsPerBucket + s = b' * kSlotsPerBucket + s' \<longleftrightarrow> b = b' \<and> s = s'"
proof
  assume e: "b * kSlotsPerBucket + s = b' * kSlotsPerBucket + s'"
  have "(b * 8 + s) div 8 = b" "(b * 8 + s) mod 8 = s" "(b' * 8 + s') div 8 = b'" "(b' * 8 + s') mod 8 = s'"
    using assms by (simp_all add: kSlotsPerBucket_def)
  with e show "b = b' \<and> s = s'" by (simp add: kSlotsPerBucket_def)
qed simp

lemma th_data_set:
  assumes "s' < kSlotsPerBucket"
  shows "th_data (th_set b s fp h) (b' * kSlotsPerBucket + s') =
    (if b < th_n h \<and> b' = b \<and> s' = s then fp_to_tag fp else th_data h (b' * kSlotsPerBucket + s'))"
  using assms row_index_eq [of s' s b' b] by (auto simp: th_set_def)

lemma th_data_clear:
  assumes "s' < kSlotsPerBucket"
  shows "th_data (th_clear b s h) (b' * kSlotsPerBucket + s') =
    (if b < th_n h \<and> b' = b \<and> s' = s then 0 else th_data h (b' * kSlotsPerBucket + s'))"
  using assms row_index_eq [of s' s b' b] by (auto simp: th_clear_def)

lemma th_test_iff:
  "th_test b fp h \<longleftrightarrow> b \<ge> th_n h \<or> (\<exists>s<kSlotsPerBucket. th_data h (b * kSlotsPerBucket + s) = fp_to_tag fp)"
  by (auto simp: th_test_def list_ex_iff)

lemma th_data_new [simp]: "th_data (TagHint_new n) i = 0"
  by (simp add: TagHint_new_def)



end
