(* ===== verification/LevelHashtable.thy ===== *)
theory LevelHashtable
  imports CxlMem MetadataTypes TagHint
begin

text \<open>
  The two-level hash table of \<open>level_hashtable.h\<close> with its key traits, over shared memory seen as typed
  buckets: a region of buckets is named by its base offset, and bucket \<open>bi\<close> of the region at \<open>base\<close>
  stands for the bytes at \<open>base + bi * kBucketSize\<close>: the eight words of its hash region and its eight
  values. The table object of one server is the record \<open>ht\<close>; what it shares with the other servers
  (buckets, \<open>ResizeMeta\<close>, notification words, allocator) is the record \<open>hmem\<close>. Every operation of one
  server runs here without interference; \<open>None\<close> stands for \<open>std::exit\<close> in the allocator and for a
  wait that never ends. The hash function and the key traits are parameters (record \<open>ht_traits\<close>).
\<close>

unbundle bit_operations_syntax

section \<open>Constants and words of the hash region\<close>

definition ht_kDirtyBit :: u64 where "ht_kDirtyBit = push_bit 63 1"
definition ht_kVersionBits :: nat where "ht_kVersionBits = 7"
definition ht_kVersionShift :: nat where "ht_kVersionShift = 63 - ht_kVersionBits"
definition kVersionValueMask :: u64 where "kVersionValueMask = push_bit ht_kVersionBits 1 - 1"
definition kFpMask :: u64 where "kFpMask = push_bit ht_kVersionShift 1 - 1"
definition kSlots :: nat where "kSlots = 8"
definition kValueSize :: nat where "kValueSize = 128"
definition kHashRegionSize :: nat where "kHashRegionSize = kSlots * 8"
definition kBucketSize :: nat where "kBucketSize = kHashRegionSize + kSlots * kValueSize"
definition kEpochRetryMax :: nat where "kEpochRetryMax = 1"

definition is_dirty :: "u64 \<Rightarrow> bool" where "is_dirty w \<longleftrightarrow> w AND ht_kDirtyBit \<noteq> 0"

definition make_locked :: "u64 \<Rightarrow> u64" where
  "make_locked meta0 =
    (let fp = meta0 AND kFpMask;
         ver = (drop_bit ht_kVersionShift meta0 AND kVersionValueMask) + 1
     in ht_kDirtyBit OR push_bit ht_kVersionShift (ver AND kVersionValueMask) OR fp)"

definition make_unlocked :: "u64 \<Rightarrow> u64 \<Rightarrow> u64" where
  "make_unlocked pre_cas_meta0 fp =
    (let ver = (drop_bit ht_kVersionShift pre_cas_meta0 AND kVersionValueMask) + 1
     in push_bit ht_kVersionShift (ver AND kVersionValueMask) OR fp)"

section \<open>Shared state\<close>

datatype ResizeState = RS_NORMAL | RS_MIGRATING

fun resize_code :: "ResizeState \<Rightarrow> u64" where
  "resize_code RS_NORMAL = 0"
| "resize_code RS_MIGRATING = 1"

record ResizeMeta =
  rm_ctrl :: u64
  rm_version :: u64
  rm_tl_offset :: nat
  rm_tl_size :: nat
  rm_bl_offset :: nat
  rm_bl_size :: nat
  rm_old_bl_offset :: nat
  rm_old_bl_size :: nat

definition rc_state :: "u64 \<Rightarrow> u8" where "rc_state raw = ucast (raw AND 0xFF)"
definition rc_initiator :: "u64 \<Rightarrow> u8" where "rc_initiator raw = ucast (drop_bit 8 raw AND 0xFF)"
definition rc_n_mds :: "u64 \<Rightarrow> u8" where "rc_n_mds raw = ucast (drop_bit 16 raw AND 0xFF)"
definition rc_done_count :: "u64 \<Rightarrow> u8" where "rc_done_count raw = ucast (drop_bit 24 raw AND 0xFF)"

definition rc_pack :: "u8 \<Rightarrow> u8 \<Rightarrow> u8 \<Rightarrow> u8 \<Rightarrow> u64" where
  "rc_pack st init nm dc =
     ucast st OR push_bit 8 (ucast init) OR push_bit 16 (ucast nm) OR push_bit 24 (ucast dc)"

record 'v bucket =
  bk_meta :: "nat \<Rightarrow> u64"
  bk_val :: "nat \<Rightarrow> 'v"

record 'v hmem =
  hm_bucket :: "nat \<Rightarrow> nat \<Rightarrow> 'v bucket"
  hm_meta :: ResizeMeta
  hm_notify :: "nat \<Rightarrow> u64"
  hm_pool_base :: nat
  hm_alloc :: NaiveAllocator

definition read_hr :: "nat \<Rightarrow> nat \<Rightarrow> 'v hmem \<Rightarrow> nat \<Rightarrow> u64" where
  "read_hr base bi m = bk_meta (hm_bucket m base bi)"

definition write_hr :: "nat \<Rightarrow> nat \<Rightarrow> (nat \<Rightarrow> u64) \<Rightarrow> 'v hmem \<Rightarrow> 'v hmem" where
  "write_hr base bi keys m =
    m\<lparr>hm_bucket := (hm_bucket m)(base := (hm_bucket m base)(bi := (hm_bucket m base bi)\<lparr>bk_meta := keys\<rparr>))\<rparr>"

definition read_val :: "nat \<Rightarrow> nat \<Rightarrow> nat \<Rightarrow> 'v hmem \<Rightarrow> 'v" where
  "read_val base bi s m = bk_val (hm_bucket m base bi) s"

definition write_val :: "nat \<Rightarrow> nat \<Rightarrow> nat \<Rightarrow> 'v \<Rightarrow> 'v hmem \<Rightarrow> 'v hmem" where
  "write_val base bi s v m =
    m\<lparr>hm_bucket := (hm_bucket m)(base := (hm_bucket m base)(bi :=
        (hm_bucket m base bi)\<lparr>bk_val := (bk_val (hm_bucket m base bi))(s := v)\<rparr>))\<rparr>"

text \<open>\<open>CXLAtomicCasSync\<close> on the first word of a hash region.\<close>

definition cas_hr :: "nat \<Rightarrow> nat \<Rightarrow> u64 \<Rightarrow> u64 \<Rightarrow> 'v hmem \<Rightarrow> bool \<times> 'v hmem" where
  "cas_hr base bi expected desired m =
    (if read_hr base bi m 0 = expected
     then (True, write_hr base bi ((read_hr base bi m)(0 := desired)) m) else (False, m))"

definition ht_malloc :: "nat \<Rightarrow> 'v hmem \<Rightarrow> (nat \<times> 'v hmem) option" where
  "ht_malloc sz m =
    do { (off, a) \<leftarrow> CXLMallocOffset sz (hm_alloc m);
         Some (off + hm_pool_base m, m\<lparr>hm_alloc := a\<rparr>) }"

section \<open>The table object of a server\<close>

record LocalResizeCache =
  lc_state :: ResizeState
  lc_tl_offset :: nat
  lc_tl_size :: nat
  lc_bl_offset :: nat
  lc_bl_size :: nat
  lc_old_bl_offset :: nat
  lc_old_bl_size :: nat
  lc_version :: u64
  lc_range_end :: nat
  lc_local_cursor :: nat
  lc_range_done :: bool
  lc_done_reported :: bool

record ht =
  ht_tl_offset :: nat
  ht_bl_offset :: nat
  ht_tl_n :: nat
  ht_bl_n :: nat
  ht_layout_epoch :: u64
  ht_n_mds :: nat
  ht_size :: u64
  ht_hint :: TagHint
  ht_mig_active :: bool
  ht_mig_old_bl_offset :: nat
  ht_mig_old_bl_n :: nat
  ht_resize_enabled :: bool
  ht_migration_begun :: bool
  ht_mds_id :: nat
  ht_rcfg_n_mds :: nat
  ht_cache :: LocalResizeCache

record ('k, 'v) ht_traits =
  tr_hash :: "'k \<Rightarrow> u64"
  tr_match :: "'v \<Rightarrow> 'k \<Rightarrow> bool"
  tr_extract :: "'v \<Rightarrow> 'k"

type_synonym 'v hts = "ht \<times> 'v hmem"

definition cache_init :: LocalResizeCache where
  "cache_init = \<lparr>lc_state = RS_NORMAL, lc_tl_offset = 0, lc_tl_size = 0, lc_bl_offset = 0, lc_bl_size = 0,
     lc_old_bl_offset = 0, lc_old_bl_size = 0, lc_version = 0, lc_range_end = 0, lc_local_cursor = 0,
     lc_range_done = True, lc_done_reported = False\<rparr>"

text \<open>The constructor over given regions, and the one that allocates them.\<close>

definition ht_attach :: "nat \<Rightarrow> nat \<Rightarrow> nat \<Rightarrow> nat \<Rightarrow> ht" where
  "ht_attach tl_num_buckets tl_offset bl_offset n_mds =
    \<lparr>ht_tl_offset = tl_offset, ht_bl_offset = bl_offset, ht_tl_n = tl_num_buckets,
     ht_bl_n = tl_num_buckets div 2, ht_layout_epoch = 0, ht_n_mds = n_mds, ht_size = 0,
     ht_hint = TagHint_new (tl_num_buckets + tl_num_buckets div 2), ht_mig_active = False,
     ht_mig_old_bl_offset = 0, ht_mig_old_bl_n = 0, ht_resize_enabled = False,
     ht_migration_begun = False, ht_mds_id = 0, ht_rcfg_n_mds = 1, ht_cache = cache_init\<rparr>"

definition ht_new :: "nat \<Rightarrow> nat \<Rightarrow> 'v hmem \<Rightarrow> 'v hts option" where
  "ht_new tl_num_buckets n_mds m =
    do { (tl_offset, m) \<leftarrow> ht_malloc (tl_num_buckets * kBucketSize) m;
         (bl_offset, m) \<leftarrow> ht_malloc (tl_num_buckets div 2 * kBucketSize) m;
         Some (ht_attach tl_num_buckets tl_offset bl_offset n_mds, m) }"

definition ht_SetMds :: "nat \<Rightarrow> ht \<Rightarrow> ht" where
  "ht_SetMds n_mds t = t\<lparr>ht_n_mds := n_mds, ht_rcfg_n_mds := n_mds\<rparr>"

definition RequiredMemory :: "nat \<Rightarrow> nat" where
  "RequiredMemory tl_num_buckets = (tl_num_buckets + tl_num_buckets div 2) * kBucketSize"

definition enable_resize :: "nat \<Rightarrow> nat \<Rightarrow> 'v hts \<Rightarrow> 'v hts" where
  "enable_resize mds_id n_mds = (\<lambda>(t, m).
     (t\<lparr>ht_mds_id := mds_id, ht_rcfg_n_mds := n_mds, ht_resize_enabled := True,
        ht_cache := (ht_cache t)\<lparr>lc_version := rm_version (hm_meta m)\<rparr>\<rparr>, m))"

definition GetElementNum :: "ht \<Rightarrow> u64" where "GetElementNum t = ht_size t"
definition GetSpaceNum :: "ht \<Rightarrow> nat" where "GetSpaceNum t = (ht_tl_n t + ht_bl_n t) * kSlots"
definition ht_GetSpace :: "ht \<Rightarrow> nat" where "ht_GetSpace t = (ht_tl_n t + ht_bl_n t) * kBucketSize"

section \<open>Slots, locks and hashing\<close>

definition slot_fp :: "(nat \<Rightarrow> u64) \<Rightarrow> nat \<Rightarrow> u64" where
  "slot_fp keys s = keys s AND kFpMask"

definition has_empty_slot :: "(nat \<Rightarrow> u64) \<Rightarrow> bool" where
  "has_empty_slot keys = list_ex (\<lambda>s. slot_fp keys s = 0) [0..<kSlots]"

text \<open>The slot searches return a slot, or \<open>None\<close> for \<open>-1\<close>.\<close>

definition find_empty_slot :: "(nat \<Rightarrow> u64) \<Rightarrow> nat option" where
  "find_empty_slot keys = List.find (\<lambda>s. slot_fp keys s = 0) [0..<kSlots]"

definition find_fp_slot :: "(nat \<Rightarrow> u64) \<Rightarrow> u64 \<Rightarrow> nat option" where
  "find_fp_slot keys fp = List.find (\<lambda>s. slot_fp keys s \<noteq> 0 \<and> slot_fp keys s = fp) [0..<kSlots]"

definition set_unlocked_meta0 :: "(nat \<Rightarrow> u64) \<Rightarrow> u64 \<Rightarrow> u64 \<Rightarrow> nat \<Rightarrow> u64" where
  "set_unlocked_meta0 new_keys pre_cas_meta0 fp = new_keys(0 := make_unlocked pre_cas_meta0 fp)"

definition unlock_bucket :: "nat \<Rightarrow> nat \<Rightarrow> (nat \<Rightarrow> u64) \<Rightarrow> 'v hmem \<Rightarrow> 'v hmem" where
  "unlock_bucket base bi keys m =
     write_hr base bi (set_unlocked_meta0 keys (keys 0) (keys 0 AND kFpMask)) m"

definition commit_bucket :: "nat \<Rightarrow> nat \<Rightarrow> (nat \<Rightarrow> u64) \<Rightarrow> nat \<Rightarrow> u64 \<Rightarrow> 'v hmem \<Rightarrow> 'v hmem" where
  "commit_bucket base bi keys target new_fp m =
    (let new_keys = keys(target := new_fp);
         meta0_fp = (if target = 0 then new_fp else keys 0 AND kFpMask)
     in write_hr base bi (set_unlocked_meta0 new_keys (keys 0) meta0_fp) m)"

fun wait_spin :: "nat \<Rightarrow> nat \<Rightarrow> nat \<Rightarrow> 'v hmem \<Rightarrow> bool" where
  "wait_spin 0 base bi m = False"
| "wait_spin (Suc n) base bi m = (if \<not> is_dirty (read_hr base bi m 0) then True else wait_spin n base bi m)"

definition wait_for_unlock :: "nat \<Rightarrow> nat \<Rightarrow> 'v hmem \<Rightarrow> bool \<times> (nat \<Rightarrow> u64) \<times> 'v hmem" where
  "wait_for_unlock base bi m =
    (if wait_spin 1000 base bi m then (True, read_hr base bi m, m)
     else let keys = read_hr base bi m;
              (swapped, m) = cas_hr base bi (keys 0) (keys 0 AND NOT ht_kDirtyBit) m;
              keys = read_hr base bi m
          in (\<not> is_dirty (keys 0), keys, m))"

definition level_offset :: "nat \<Rightarrow> ht \<Rightarrow> nat" where
  "level_offset level t =
    (if level = 0 then ht_tl_offset t else if level = 1 then ht_bl_offset t else ht_mig_old_bl_offset t)"

definition global_bucket_id :: "nat \<Rightarrow> nat \<Rightarrow> ht \<Rightarrow> nat" where
  "global_bucket_id level bi t = (if level = 0 then bi else ht_tl_n t + bi)"

definition hint_set :: "nat \<Rightarrow> nat \<Rightarrow> u64 \<Rightarrow> ht \<Rightarrow> ht" where
  "hint_set gbi slot_idx fp t = t\<lparr>ht_hint := th_set gbi slot_idx fp (ht_hint t)\<rparr>"

definition hint_clear :: "nat \<Rightarrow> nat \<Rightarrow> ht \<Rightarrow> ht" where
  "hint_clear gbi slot_idx t = t\<lparr>ht_hint := th_clear gbi slot_idx (ht_hint t)\<rparr>"

definition make_fp :: "('k, 'v) ht_traits \<Rightarrow> 'k \<Rightarrow> u64" where
  "make_fp T key = (let fp = tr_hash T key AND kFpMask in if fp = 0 then 1 else fp)"

definition mix_h1 :: "u64 \<Rightarrow> u64" where
  "mix_h1 h =
    (let z = h + 0x9E3779B97F4A7C15;
         z = (z XOR drop_bit 30 z) * 0xBF58476D1CE4E5B9;
         z = (z XOR drop_bit 27 z) * 0x94D049BB133111EB
     in z XOR drop_bit 31 z)"

definition mix_h2 :: "u64 \<Rightarrow> u64" where
  "mix_h2 h =
    (let z = h + 0xC2B2AE3D27D4EB4F;
         z = (z XOR drop_bit 33 z) * 0xFF51AFD7ED558CCD;
         z = (z XOR drop_bit 33 z) * 0xC4CEB9FE1A85EC53
     in z XOR drop_bit 33 z)"

definition f_idx :: "u64 \<Rightarrow> nat \<Rightarrow> nat" where
  "f_idx h level_n = unat h mod (level_n div 2)"

definition s_idx :: "u64 \<Rightarrow> nat \<Rightarrow> nat" where
  "s_idx h level_n = unat h mod (level_n div 2) + level_n div 2"

text \<open>The candidate buckets of a key with the layout they were computed against. Nothing intervenes
  between the two reads of \<open>migration_.active\<close> here.\<close>

record cand =
  c_level :: nat
  c_base :: nat
  c_idx :: nat

record Candidates =
  cs_list :: "cand list"
  cs_tl_n :: nat
  cs_bl_n :: nat

definition get_candidates :: "('k, 'v) ht_traits \<Rightarrow> 'k \<Rightarrow> ht \<Rightarrow> Candidates" where
  "get_candidates T key t =
    (let raw = tr_hash T key; h1 = mix_h1 raw; h2 = mix_h2 raw;
         tl_off = ht_tl_offset t; tl_n = ht_tl_n t; bl_off = ht_bl_offset t; bl_n = ht_bl_n t;
         old_bl_off = ht_mig_old_bl_offset t; old_bl_n = ht_mig_old_bl_n t;
         cs = [\<lparr>c_level = 0, c_base = tl_off, c_idx = f_idx h1 tl_n\<rparr>,
               \<lparr>c_level = 0, c_base = tl_off, c_idx = s_idx h2 tl_n\<rparr>,
               \<lparr>c_level = 1, c_base = bl_off, c_idx = f_idx h1 bl_n\<rparr>,
               \<lparr>c_level = 1, c_base = bl_off, c_idx = s_idx h2 bl_n\<rparr>];
         old = [\<lparr>c_level = 2, c_base = old_bl_off, c_idx = f_idx h1 old_bl_n\<rparr>,
                \<lparr>c_level = 2, c_base = old_bl_off, c_idx = s_idx h2 old_bl_n\<rparr>]
     in \<lparr>cs_list = (if ht_mig_active t then old @ cs else cs), cs_tl_n = tl_n, cs_bl_n = bl_n\<rparr>)"

section \<open>Insertion\<close>

text \<open>What an attempt on one bucket reports: 1, 0 or -1 in the source.\<close>

datatype 'a probe = Found 'a | NotFound | Busy

text \<open>Locking a bucket, writing a value and its fingerprint into an empty slot. \<open>try_insert_into\<close>
  counts the entry; the migration and the displacement of a victim, which repeat the same steps, do not.\<close>

definition place_into :: "bool \<Rightarrow> cand \<Rightarrow> (nat \<Rightarrow> u64) \<Rightarrow> u64 \<Rightarrow> 'v \<Rightarrow> 'v hts \<Rightarrow> unit probe \<times> 'v hts" where
  "place_into counted c keys fp v = (\<lambda>(t, m).
    (case cas_hr (c_base c) (c_idx c) (keys 0) (make_locked (keys 0)) m of
       (swapped, m) \<Rightarrow>
         if \<not> swapped then (Busy, t, m)
         else (case find_empty_slot keys of
             None \<Rightarrow> (NotFound, t, unlock_bucket (c_base c) (c_idx c) keys m)
           | Some target \<Rightarrow>
               let m = write_val (c_base c) (c_idx c) target v m;
                   m = commit_bucket (c_base c) (c_idx c) keys target fp m;
                   t = (if counted then t\<lparr>ht_size := ht_size t + 1\<rparr> else t);
                   t = hint_set (global_bucket_id (c_level c) (c_idx c) t) target fp t
               in (Found (), t, m))))"

definition try_insert_into :: "cand \<Rightarrow> (nat \<Rightarrow> u64) \<Rightarrow> u64 \<Rightarrow> 'v \<Rightarrow> 'v hts \<Rightarrow> unit probe \<times> 'v hts" where
  "try_insert_into = place_into True"

text \<open>The first pass over the candidates also yields those that were locked, in their order.\<close>

fun insert_pass1 ::
  "(cand \<Rightarrow> (nat \<Rightarrow> u64) \<Rightarrow> 'v hts \<Rightarrow> unit probe \<times> 'v hts) \<Rightarrow> cand list \<Rightarrow> 'v hts \<Rightarrow> bool \<times> cand list \<times> 'v hts" where
  "insert_pass1 place [] s = (False, [], s)"
| "insert_pass1 place (c # cs) s =
    (if c_level c = 2 then insert_pass1 place cs s
     else let keys = read_hr (c_base c) (c_idx c) (snd s) in
       if is_dirty (keys 0) then (case insert_pass1 place cs s of (r, con, s) \<Rightarrow> (r, c # con, s))
       else if \<not> has_empty_slot keys then insert_pass1 place cs s
       else (case place c keys s of
           (Found _, s) \<Rightarrow> (True, [], s)
         | (NotFound, s) \<Rightarrow> insert_pass1 place cs s
         | (Busy, s) \<Rightarrow> (case insert_pass1 place cs s of (r, con, s) \<Rightarrow> (r, c # con, s))))"

fun insert_retry ::
  "(cand \<Rightarrow> (nat \<Rightarrow> u64) \<Rightarrow> 'v hts \<Rightarrow> unit probe \<times> 'v hts) \<Rightarrow> nat \<Rightarrow> cand \<Rightarrow> 'v hts \<Rightarrow> bool \<times> 'v hts" where
  "insert_retry place 0 c s = (False, s)"
| "insert_retry place (Suc n) c (t, m) =
    (let keys = read_hr (c_base c) (c_idx c) m;
         (ready, keys, m) = (if is_dirty (keys 0) then wait_for_unlock (c_base c) (c_idx c) m else (True, keys, m))
     in if \<not> ready \<or> \<not> has_empty_slot keys then (False, t, m)
        else (case place c keys (t, m) of
            (Found _, s) \<Rightarrow> (True, s)
          | (NotFound, s) \<Rightarrow> (False, s)
          | (Busy, s) \<Rightarrow> insert_retry place n c s))"

text \<open>A loop that stops at the first attempt that succeeds.\<close>

fun first_success :: "('a \<Rightarrow> 's \<Rightarrow> bool \<times> 's) \<Rightarrow> 'a list \<Rightarrow> 's \<Rightarrow> bool \<times> 's" where
  "first_success f [] s = (False, s)"
| "first_success f (x # xs) s = (case f x s of (r, s) \<Rightarrow> if r then (True, s) else first_success f xs s)"

definition insert_passes ::
  "(cand \<Rightarrow> (nat \<Rightarrow> u64) \<Rightarrow> 'v hts \<Rightarrow> unit probe \<times> 'v hts) \<Rightarrow> cand list \<Rightarrow> 'v hts \<Rightarrow> bool \<times> 'v hts" where
  "insert_passes place cs s =
    (case insert_pass1 place cs s of
       (r, con, s) \<Rightarrow> if r then (True, s) else first_success (insert_retry place 3) con s)"

section \<open>Displacement\<close>

text \<open>\<open>child\<close> is what may be tried when the alternate bucket of a victim is full: nothing on the
  one-hop calls, one more displacement on the calls that \<open>try_migrate_and_insert\<close> makes while resizing.\<close>

type_synonym 'v child = "(nat \<Rightarrow> u64 \<Rightarrow> 'v \<Rightarrow> 'v hts \<Rightarrow> bool \<times> 'v hts) option"

definition displace_to ::
  "'v child \<Rightarrow> cand \<Rightarrow> u64 \<Rightarrow> 'v \<Rightarrow> 'v hts \<Rightarrow> bool \<times> 'v hts" where
  "displace_to child c v_fp v_value s =
    (let keys = read_hr (c_base c) (c_idx c) (snd s) in
     if is_dirty (keys 0) then (False, s)
     else if \<not> has_empty_slot keys
     then (case child of None \<Rightarrow> (False, s) | Some f \<Rightarrow> f (c_idx c) v_fp v_value s)
     else (case place_into False c keys v_fp v_value s of
         (Found _, s) \<Rightarrow> (True, s) | (NotFound, s) \<Rightarrow> (False, s) | (Busy, s) \<Rightarrow> (False, s)))"

definition place_vacated :: "bool \<Rightarrow> cand \<Rightarrow> (nat \<Rightarrow> u64) \<Rightarrow> nat \<Rightarrow> u64 \<Rightarrow> 'v \<Rightarrow> 'v hts \<Rightarrow> 'v hts" where
  "place_vacated count_insert c keys s fp_new v = (\<lambda>(t, m).
    (let m = write_val (c_base c) (c_idx c) s v m;
         m = commit_bucket (c_base c) (c_idx c) keys s fp_new m;
         t = (if count_insert then t\<lparr>ht_size := ht_size t + 1\<rparr> else t)
     in (hint_set (global_bucket_id (c_level c) (c_idx c) t) s fp_new t, m)))"

definition lock_and_move ::
  "cand \<Rightarrow> ((nat \<Rightarrow> u64) \<Rightarrow> nat \<Rightarrow> 'v hts \<Rightarrow> bool \<times> 'v hts) \<Rightarrow> 'v hts \<Rightarrow> bool \<times> 'v hts" where
  "lock_and_move c move = (\<lambda>(t, m).
    (let keys = read_hr (c_base c) (c_idx c) m in
     if is_dirty (keys 0) then (False, t, m)
     else (case cas_hr (c_base c) (c_idx c) (keys 0) (make_locked (keys 0)) m of
        (swapped, m) \<Rightarrow>
          if \<not> swapped then (False, t, m)
          else (case first_success (move keys) [0..<kSlots] (t, m) of
             (r, t, m) \<Rightarrow> if r then (True, t, m) else (False, t, unlock_bucket (c_base c) (c_idx c) keys m)))))"

definition same_level_slot ::
  "('k, 'v) ht_traits \<Rightarrow> 'v child \<Rightarrow> cand \<Rightarrow> nat \<Rightarrow> u64 \<Rightarrow> 'v \<Rightarrow> bool \<Rightarrow> (nat \<Rightarrow> u64) \<Rightarrow> nat \<Rightarrow> 'v hts \<Rightarrow> bool \<times> 'v hts" where
  "same_level_slot T child c level_n fp_new v count_insert keys s st =
    (let v_fp = slot_fp keys s in
     if v_fp = 0 then (False, st)
     else let v_value = read_val (c_base c) (c_idx c) s (snd st);
              v_raw = tr_hash T (tr_extract T v_value);
              jdx = (if c_idx c < level_n div 2 then s_idx (mix_h2 v_raw) level_n
                     else f_idx (mix_h1 v_raw) level_n)
          in if jdx = c_idx c then (False, st)
             else (case displace_to child (c\<lparr>c_idx := jdx\<rparr>) v_fp v_value st of
                 (moved, st) \<Rightarrow>
                   if moved then (True, place_vacated count_insert c keys s fp_new v st) else (False, st)))"

definition same_level_movement_and_place ::
  "('k, 'v) ht_traits \<Rightarrow> 'v child \<Rightarrow> cand \<Rightarrow> nat \<Rightarrow> u64 \<Rightarrow> 'v \<Rightarrow> bool \<Rightarrow> 'v hts \<Rightarrow> bool \<times> 'v hts" where
  "same_level_movement_and_place T child c level_n fp_new v count_insert =
     lock_and_move c (same_level_slot T child c level_n fp_new v count_insert)"

definition b2t_slot ::
  "('k, 'v) ht_traits \<Rightarrow> 'v child \<Rightarrow> cand \<Rightarrow> nat \<Rightarrow> nat \<Rightarrow> u64 \<Rightarrow> 'v \<Rightarrow> bool \<Rightarrow> (nat \<Rightarrow> u64) \<Rightarrow> nat \<Rightarrow> 'v hts \<Rightarrow> bool \<times> 'v hts" where
  "b2t_slot T child c tl_base tl_n fp_new v count_insert keys s st =
    (let v_fp = slot_fp keys s in
     if v_fp = 0 then (False, st)
     else let v_value = read_val (c_base c) (c_idx c) s (snd st);
              v_raw = tr_hash T (tr_extract T v_value)
          in first_success (\<lambda>tl_bi st.
               (case displace_to child \<lparr>c_level = 0, c_base = tl_base, c_idx = tl_bi\<rparr> v_fp v_value st of
                  (moved, st) \<Rightarrow>
                    if moved then (True, place_vacated count_insert c keys s fp_new v st) else (False, st)))
             [f_idx (mix_h1 v_raw) tl_n, s_idx (mix_h2 v_raw) tl_n] st)"

definition b2t_movement_and_place ::
  "('k, 'v) ht_traits \<Rightarrow> 'v child \<Rightarrow> cand \<Rightarrow> nat \<Rightarrow> nat \<Rightarrow> u64 \<Rightarrow> 'v \<Rightarrow> bool \<Rightarrow> 'v hts \<Rightarrow> bool \<times> 'v hts" where
  "b2t_movement_and_place T child c tl_base tl_n fp_new v count_insert =
     lock_and_move c (b2t_slot T child c tl_base tl_n fp_new v count_insert)"

text \<open>The two nested calls of phase C: a full alternate bucket is relieved by a one-hop displacement on
  its own level, or, for a bottom-level bucket, by a promotion.\<close>

definition same_level_child :: "('k, 'v) ht_traits \<Rightarrow> Candidates \<Rightarrow> cand \<Rightarrow> nat \<Rightarrow> 'v child" where
  "same_level_child T cands c level_n = Some (\<lambda>jdx v_fp v_value st.
    (case same_level_movement_and_place T None (c\<lparr>c_idx := jdx\<rparr>) level_n v_fp v_value False st of
       (placed, st) \<Rightarrow>
         if placed then (True, st)
         else if c_level c = 1 then
           (case List.find (\<lambda>c'. c_level c' = 0) (cs_list cands) of
              None \<Rightarrow> (False, st)
            | Some c' \<Rightarrow> b2t_movement_and_place T None (c\<lparr>c_idx := jdx\<rparr>) (c_base c') (cs_tl_n cands) v_fp v_value False st)
         else (False, st)))"

definition b2t_child :: "('k, 'v) ht_traits \<Rightarrow> nat \<Rightarrow> nat \<Rightarrow> 'v child" where
  "b2t_child T tl_base tl_n = Some (\<lambda>tl_bi v_fp v_value st.
     same_level_movement_and_place T None \<lparr>c_level = 0, c_base = tl_base, c_idx = tl_bi\<rparr> tl_n v_fp v_value False st)"

definition try_migrate_and_insert ::
  "('k, 'v) ht_traits \<Rightarrow> 'v \<Rightarrow> u64 \<Rightarrow> Candidates \<Rightarrow> 'v hts \<Rightarrow> bool \<times> 'v hts" where
  "try_migrate_and_insert T v fp_new cands st =
    (let tl_base = (case List.find (\<lambda>c. c_level c = 0) (cs_list cands) of None \<Rightarrow> 0 | Some c \<Rightarrow> c_base c);
         cs = filter (\<lambda>c. c_level c \<noteq> 2) (cs_list cands);
         bl = filter (\<lambda>c. c_level c = 1) (cs_list cands);
         level_n = (\<lambda>c. if c_level c = 0 then cs_tl_n cands else cs_bl_n cands);
         resizing = list_ex (\<lambda>c. c_level c = 2) (cs_list cands)
     in case first_success (\<lambda>c. same_level_movement_and_place T None c (level_n c) fp_new v True) cs st of
          (r, st) \<Rightarrow> if r then (True, st) else
        (case first_success (\<lambda>c. b2t_movement_and_place T None c tl_base (cs_tl_n cands) fp_new v True) bl st of
          (r, st) \<Rightarrow> if r then (True, st) else
        if \<not> resizing then (False, st) else
        (case first_success (\<lambda>c. same_level_movement_and_place T (same_level_child T cands c (level_n c)) c
                (level_n c) fp_new v True) cs st of
          (r, st) \<Rightarrow> if r then (True, st) else
         first_success (\<lambda>c. b2t_movement_and_place T (b2t_child T tl_base (cs_tl_n cands)) c tl_base
                (cs_tl_n cands) fp_new v True) bl st)))"

definition insert_impl :: "('k, 'v) ht_traits \<Rightarrow> 'k \<Rightarrow> 'v \<Rightarrow> 'v hts \<Rightarrow> bool \<times> 'v hts" where
  "insert_impl T key v st =
    (let fp = make_fp T key; cands = get_candidates T key (fst st) in
     case insert_passes (\<lambda>c keys. try_insert_into c keys fp v) (cs_list cands) st of
       (r, st) \<Rightarrow> if r then (True, st) else try_migrate_and_insert T v fp cands st)"

section \<open>Probing the candidates: find, update, erase\<close>

text \<open>The three operations go over the candidates in the same four phases: those whose hint row
  matches, the others, those that were locked (until each is decided), and, if a bucket of the level
  under migration was locked, the two current levels once more. A phase yields the result if there is
  one, the candidates its guard passed over, and the candidates that were locked.\<close>

fun probe_phase ::
  "(cand \<Rightarrow> 's \<Rightarrow> bool) \<Rightarrow> (cand \<Rightarrow> 's \<Rightarrow> 'a probe \<times> 's) \<Rightarrow> cand list \<Rightarrow> 's \<Rightarrow> 'a option \<times> cand list \<times> cand list \<times> 's" where
  "probe_phase guard attempt [] s = (None, [], [], s)"
| "probe_phase guard attempt (c # cs) s =
    (if \<not> guard c s then (case probe_phase guard attempt cs s of (r, skipped, con, s) \<Rightarrow> (r, c # skipped, con, s))
     else (case attempt c s of
         (Found v, s) \<Rightarrow> (Some v, [], [], s)
       | (NotFound, s) \<Rightarrow> probe_phase guard attempt cs s
       | (Busy, s) \<Rightarrow> (case probe_phase guard attempt cs s of (r, skipped, con, s) \<Rightarrow> (r, skipped, c # con, s))))"

fun retry_phase :: "(cand \<Rightarrow> 's \<Rightarrow> ('a option \<times> 's) option) \<Rightarrow> cand list \<Rightarrow> 's \<Rightarrow> ('a option \<times> 's) option" where
  "retry_phase retry [] s = Some (None, s)"
| "retry_phase retry (c # cs) s =
    do { (r, s) \<leftarrow> retry c s;
         (case r of Some v \<Rightarrow> Some (Some v, s) | None \<Rightarrow> retry_phase retry cs s) }"

definition hint_test :: "u64 \<Rightarrow> cand \<Rightarrow> 'v hts \<Rightarrow> bool" where
  "hint_test fp c st = th_test (global_bucket_id (c_level c) (c_idx c) (fst st)) fp (ht_hint (fst st))"

definition probe_impl ::
  "u64 \<Rightarrow> (cand \<Rightarrow> 'v hts \<Rightarrow> 'a probe \<times> 'v hts) \<Rightarrow> (cand \<Rightarrow> 'v hts \<Rightarrow> 'a probe \<times> 'v hts) \<Rightarrow>
   (cand \<Rightarrow> 'v hts \<Rightarrow> ('a option \<times> 'v hts) option) \<Rightarrow> (cand \<Rightarrow> 'v hts \<Rightarrow> 'a probe \<times> 'v hts) \<Rightarrow>
   cand list \<Rightarrow> 'v hts \<Rightarrow> ('a option \<times> 'v hts) option" where
  "probe_impl fp try_hinted attempt retry try_last cs st =
    (case probe_phase (hint_test fp) try_hinted cs st of
       (r, unsearched, con1, st) \<Rightarrow>
    (case r of Some v \<Rightarrow> Some (Some v, st) | None \<Rightarrow>
    (case probe_phase (\<lambda>_ _. True) attempt unsearched st of
       (r, _, con2, st) \<Rightarrow>
    (case r of Some v \<Rightarrow> Some (Some v, st) | None \<Rightarrow>
     do { (r, st) \<leftarrow> retry_phase retry (filter (\<lambda>c. c \<in> set (con1 @ con2)) cs) st;
          (case r of Some v \<Rightarrow> Some (Some v, st) | None \<Rightarrow>
           if list_ex (\<lambda>c. c_level c = 2) (con1 @ con2)
           then (case probe_phase (\<lambda>_ _. True) try_last (filter (\<lambda>c. c_level c \<noteq> 2) cs) st of
                   (r, _, _, st) \<Rightarrow> Some (r, st))
           else Some (None, st)) }))))"

fun scan_bucket_slots ::
  "('k, 'v) ht_traits \<Rightarrow> cand \<Rightarrow> (nat \<Rightarrow> u64) \<Rightarrow> u64 \<Rightarrow> 'k \<Rightarrow> bool \<Rightarrow> nat list \<Rightarrow> 'v hts \<Rightarrow> 'v probe \<times> 'v hts" where
  "scan_bucket_slots T c keys fp key set_hint [] st = (NotFound, st)"
| "scan_bucket_slots T c keys fp key set_hint (s # ss) (t, m) =
    (let sfp = slot_fp keys s in
     if sfp = 0 \<or> sfp \<noteq> fp then scan_bucket_slots T c keys fp key set_hint ss (t, m)
     else let candidate = read_val (c_base c) (c_idx c) s m;
              keys2 = read_hr (c_base c) (c_idx c) m
          in if keys2 0 \<noteq> keys 0 then (Busy, t, m)
             else if tr_match T candidate key
             then (Found candidate,
                   (if set_hint \<and> c_level c \<noteq> 2 then hint_set (global_bucket_id (c_level c) (c_idx c) t) s fp t else t), m)
             else scan_bucket_slots T c keys fp key set_hint ss (t, m))"

definition find_in_bucket ::
  "('k, 'v) ht_traits \<Rightarrow> u64 \<Rightarrow> 'k \<Rightarrow> bool \<Rightarrow> cand \<Rightarrow> 'v hts \<Rightarrow> 'v probe \<times> 'v hts" where
  "find_in_bucket T fp key set_hint c st =
    (let keys = read_hr (c_base c) (c_idx c) (snd st) in
     if is_dirty (keys 0) then (Busy, st) else scan_bucket_slots T c keys fp key set_hint [0..<kSlots] st)"

partial_function (option) find_retry ::
  "('k, 'v) ht_traits \<Rightarrow> u64 \<Rightarrow> 'k \<Rightarrow> cand \<Rightarrow> 'v hts \<Rightarrow> ('v option \<times> 'v hts) option" where
  "find_retry T fp key c st =
    (let keys = read_hr (c_base c) (c_idx c) (snd st) in
     if is_dirty (keys 0)
     then find_retry T fp key c (fst st, snd (snd (wait_for_unlock (c_base c) (c_idx c) (snd st))))
     else (case scan_bucket_slots T c keys fp key True [0..<kSlots] st of
         (r, st) \<Rightarrow> (case r of
             Found v \<Rightarrow> Some (Some v, st)
           | NotFound \<Rightarrow> Some (None, st)
           | Busy \<Rightarrow> find_retry T fp key c st)))"

definition find_impl :: "('k, 'v) ht_traits \<Rightarrow> 'k \<Rightarrow> 'v hts \<Rightarrow> ('v option \<times> 'v hts) option" where
  "find_impl T key st =
    (let fp = make_fp T key; cands = get_candidates T key (fst st) in
     probe_impl fp (find_in_bucket T fp key False) (find_in_bucket T fp key True)
       (find_retry T fp key) (find_in_bucket T fp key True) (cs_list cands) st)"

text \<open>The slot of a locked bucket that holds the key.\<close>

definition match_slot :: "('k, 'v) ht_traits \<Rightarrow> cand \<Rightarrow> (nat \<Rightarrow> u64) \<Rightarrow> u64 \<Rightarrow> 'k \<Rightarrow> 'v hmem \<Rightarrow> nat option" where
  "match_slot T c keys fp key m =
     List.find (\<lambda>s. slot_fp keys s = fp \<and> tr_match T (read_val (c_base c) (c_idx c) s m) key) [0..<kSlots]"

definition try_update_in ::
  "('k, 'v) ht_traits \<Rightarrow> ('v \<Rightarrow> 'v) \<Rightarrow> cand \<Rightarrow> (nat \<Rightarrow> u64) \<Rightarrow> u64 \<Rightarrow> 'k \<Rightarrow> 'v hts \<Rightarrow> unit probe \<times> 'v hts" where
  "try_update_in T write_fn c keys fp key = (\<lambda>(t, m).
    (case cas_hr (c_base c) (c_idx c) (keys 0) (make_locked (keys 0)) m of
       (swapped, m) \<Rightarrow>
         if \<not> swapped then (Busy, t, m)
         else (case match_slot T c keys fp key m of
             None \<Rightarrow> (NotFound, t, unlock_bucket (c_base c) (c_idx c) keys m)
           | Some s \<Rightarrow>
               let m = write_val (c_base c) (c_idx c) s (write_fn (read_val (c_base c) (c_idx c) s m)) m;
                   m = unlock_bucket (c_base c) (c_idx c) keys m;
                   t = (if c_level c \<noteq> 2 then hint_set (global_bucket_id (c_level c) (c_idx c) t) s fp t else t)
               in (Found (), t, m))))"

definition try_erase_from ::
  "('k, 'v) ht_traits \<Rightarrow> cand \<Rightarrow> (nat \<Rightarrow> u64) \<Rightarrow> u64 \<Rightarrow> 'k \<Rightarrow> 'v hts \<Rightarrow> 'v probe \<times> 'v hts" where
  "try_erase_from T c keys fp key = (\<lambda>(t, m).
    (case cas_hr (c_base c) (c_idx c) (keys 0) (make_locked (keys 0)) m of
       (swapped, m) \<Rightarrow>
         if \<not> swapped then (Busy, t, m)
         else (case match_slot T c keys fp key m of
             None \<Rightarrow> (NotFound, t, unlock_bucket (c_base c) (c_idx c) keys m)
           | Some s \<Rightarrow>
               let out_val = read_val (c_base c) (c_idx c) s m;
                   new_keys = set_unlocked_meta0 (keys(s := 0)) (keys 0) (if s = 0 then 0 else keys 0 AND kFpMask);
                   m = write_hr (c_base c) (c_idx c) new_keys m;
                   t = t\<lparr>ht_size := ht_size t - 1\<rparr>;
                   t = (if c_level c \<noteq> 2 then hint_clear (global_bucket_id (c_level c) (c_idx c) t) s t else t)
               in (Found out_val, t, m))))"

text \<open>The lambda \<open>try_bucket\<close> of \<open>update_impl\<close> and \<open>erase_impl\<close>, over the routine that works on a locked
  bucket.\<close>

definition try_bucket ::
  "(cand \<Rightarrow> (nat \<Rightarrow> u64) \<Rightarrow> 'v hts \<Rightarrow> 'a probe \<times> 'v hts) \<Rightarrow> u64 \<Rightarrow> cand \<Rightarrow> 'v hts \<Rightarrow> 'a probe \<times> 'v hts" where
  "try_bucket work fp c st =
    (let keys = read_hr (c_base c) (c_idx c) (snd st) in
     if is_dirty (keys 0) then (Busy, st)
     else if find_fp_slot keys fp = None then (NotFound, st) else work c keys st)"

text \<open>Phase three of the two writers. \<open>update_impl\<close> gives up on a bucket that does not come free.\<close>

partial_function (option) write_retry ::
  "(cand \<Rightarrow> (nat \<Rightarrow> u64) \<Rightarrow> 'v hts \<Rightarrow> 'a probe \<times> 'v hts) \<Rightarrow> u64 \<Rightarrow> cand \<Rightarrow> 'v hts \<Rightarrow> ('a option \<times> 'v hts) option" where
  "write_retry work fp c st =
    (let keys = read_hr (c_base c) (c_idx c) (snd st);
         (ready, keys, m) = (if is_dirty (keys 0) then wait_for_unlock (c_base c) (c_idx c) (snd st)
                             else (True, keys, snd st))
     in if \<not> ready \<or> find_fp_slot keys fp = None then Some (None, fst st, m)
        else (case work c keys (fst st, m) of
            (r, st) \<Rightarrow> (case r of
                Found v \<Rightarrow> Some (Some v, st)
              | NotFound \<Rightarrow> Some (None, st)
              | Busy \<Rightarrow> write_retry work fp c st)))"

text \<open>The last phase of the two writers resolves the base of the level again.\<close>

definition try_last ::
  "(cand \<Rightarrow> (nat \<Rightarrow> u64) \<Rightarrow> 'v hts \<Rightarrow> 'a probe \<times> 'v hts) \<Rightarrow> u64 \<Rightarrow> cand \<Rightarrow> 'v hts \<Rightarrow> 'a probe \<times> 'v hts" where
  "try_last work fp c st = try_bucket work fp (c\<lparr>c_base := level_offset (c_level c) (fst st)\<rparr>) st"

definition update_impl ::
  "('k, 'v) ht_traits \<Rightarrow> 'k \<Rightarrow> ('v \<Rightarrow> 'v) \<Rightarrow> 'v hts \<Rightarrow> (unit option \<times> 'v hts) option" where
  "update_impl T key write_fn st =
    (let fp = make_fp T key; cands = get_candidates T key (fst st);
         work = (\<lambda>c keys. try_update_in T write_fn c keys fp key)
     in probe_impl fp (try_bucket work fp) (try_bucket work fp) (write_retry work fp) (try_last work fp)
          (cs_list cands) st)"

definition erase_impl :: "('k, 'v) ht_traits \<Rightarrow> 'k \<Rightarrow> 'v hts \<Rightarrow> ('v option \<times> 'v hts) option" where
  "erase_impl T key st =
    (let fp = make_fp T key; cands = get_candidates T key (fst st);
         work = (\<lambda>c keys. try_erase_from T c keys fp key)
     in probe_impl fp (try_bucket work fp) (try_bucket work fp) (write_retry work fp) (try_last work fp)
          (cs_list cands) st)"

section \<open>Resizing\<close>

definition read_meta_ctrl :: "'v hmem \<Rightarrow> u64" where "read_meta_ctrl m = rm_ctrl (hm_meta m)"
definition read_meta_version :: "'v hmem \<Rightarrow> u64" where "read_meta_version m = rm_version (hm_meta m)"

definition cas_meta_ctrl :: "u64 \<Rightarrow> u64 \<Rightarrow> 'v hmem \<Rightarrow> bool \<times> 'v hmem" where
  "cas_meta_ctrl expected desired m =
    (if rm_ctrl (hm_meta m) = expected then (True, m\<lparr>hm_meta := (hm_meta m)\<lparr>rm_ctrl := desired\<rparr>\<rparr>) else (False, m))"

partial_function (option) increment_done_count :: "'v hmem \<Rightarrow> 'v hmem option" where
  "increment_done_count m =
    (let ctrl = read_meta_ctrl m;
         dc = rc_done_count ctrl;
         new_ctrl = (ctrl AND NOT (push_bit 24 0xFF)) OR push_bit 24 (ucast dc + 1)
     in case cas_meta_ctrl ctrl new_ctrl m of
          (swapped, m) \<Rightarrow> if swapped then Some m else increment_done_count m)"

definition notify_all_mds :: "u64 \<Rightarrow> 'v hts \<Rightarrow> 'v hts" where
  "notify_all_mds new_version = (\<lambda>(t, m).
     (t, m\<lparr>hm_notify := (\<lambda>i. if i < ht_rcfg_n_mds t \<or> i = ht_mds_id t then new_version else hm_notify m i)\<rparr>))"

definition poll_local_version :: "'v hts \<Rightarrow> u64" where
  "poll_local_version = (\<lambda>(t, m). hm_notify m (ht_mds_id t))"

definition check_version_changed :: "'v hts \<Rightarrow> bool" where
  "check_version_changed st = (poll_local_version st \<noteq> lc_version (ht_cache (fst st)))"

definition refresh_cache :: "'v hts \<Rightarrow> 'v hts" where
  "refresh_cache = (\<lambda>(t, m).
    (let rm = hm_meta m; ctrl = rm_ctrl rm; c = ht_cache t;
         state = (if rc_state ctrl = 0 then RS_NORMAL else RS_MIGRATING);
         c = c\<lparr>lc_state := state, lc_version := rm_version rm,
               lc_tl_offset := rm_tl_offset rm, lc_tl_size := rm_tl_size rm,
               lc_bl_offset := rm_bl_offset rm, lc_bl_size := rm_bl_size rm,
               lc_old_bl_offset := rm_old_bl_offset rm, lc_old_bl_size := rm_old_bl_size rm\<rparr>;
         n = unat (rc_n_mds ctrl)
     in (t\<lparr>ht_cache :=
          (if state = RS_MIGRATING \<and> lc_old_bl_size c > 0 \<and> n > 0
           then let chunk = lc_old_bl_size c div n in
             c\<lparr>lc_range_end := (if ht_mds_id t = n - 1 then lc_old_bl_size c else (ht_mds_id t + 1) * chunk),
               lc_local_cursor := ht_mds_id t * chunk, lc_range_done := False, lc_done_reported := False\<rparr>
           else c\<lparr>lc_range_done := True\<rparr>)\<rparr>, m)))"

definition new_layout :: "ht \<Rightarrow> ht" where
  "new_layout t =
    (let c = ht_cache t in
     t\<lparr>ht_tl_offset := lc_tl_offset c, ht_tl_n := lc_tl_size c, ht_bl_offset := lc_bl_offset c,
       ht_bl_n := lc_bl_size c, ht_hint := TagHint_new (lc_tl_size c + lc_bl_size c)\<rparr>)"

definition begin_migration :: "ht \<Rightarrow> ht" where
  "begin_migration t =
    (let c = ht_cache t in
     (new_layout t)\<lparr>ht_mig_old_bl_offset := lc_old_bl_offset c, ht_mig_old_bl_n := lc_old_bl_size c,
        ht_mig_active := True, ht_layout_epoch := ht_layout_epoch t + 1\<rparr>)"

definition end_migration :: "ht \<Rightarrow> ht" where
  "end_migration t = t\<lparr>ht_mig_active := False, ht_layout_epoch := ht_layout_epoch t + 1\<rparr>"

definition adopt_layout :: "ht \<Rightarrow> ht" where
  "adopt_layout t = (new_layout t)\<lparr>ht_layout_epoch := ht_layout_epoch t + 1\<rparr>"

text \<open>The waits of a single thread: they return at once or, with nobody else to change the state, never.\<close>

partial_function (option) wait_layout_ready :: "ht \<Rightarrow> unit option" where
  "wait_layout_ready t =
    (if ht_migration_begun t then (if ht_mig_active t then Some () else wait_layout_ready t) else Some ())"

partial_function (option) refresh_until_ready :: "'v hts \<Rightarrow> 'v hts option" where
  "refresh_until_ready st =
    (if lc_tl_size (ht_cache (fst st)) = 0 then refresh_until_ready (refresh_cache st) else Some st)"

partial_function (option) wait_version :: "u64 \<Rightarrow> 'v hts \<Rightarrow> unit option" where
  "wait_version cur_ver st =
    (if read_meta_version (snd st) = cur_ver
     then (if ht_mig_active (fst st) then Some () else wait_version cur_ver st) else Some ())"

definition check_resize :: "'v hts \<Rightarrow> 'v hts option" where
  "check_resize st =
    (let (t, m) = st in
     if ht_migration_begun t then
       do { _ \<leftarrow> (if \<not> ht_mig_active t then wait_layout_ready t else Some ());
            if check_version_changed st \<and> rc_state (read_meta_ctrl m) = ucast (resize_code RS_NORMAL)
            then let (t, m) = refresh_cache (t\<lparr>ht_migration_begun := False\<rparr>, m) in Some (end_migration t, m)
            else Some st }
     else if \<not> check_version_changed st then Some st
     else if rc_state (read_meta_ctrl m) = ucast (resize_code RS_MIGRATING) then
       do { (t, m) \<leftarrow> refresh_until_ready (refresh_cache (t\<lparr>ht_migration_begun := True\<rparr>, m));
            Some (begin_migration t, m) }
     else if rc_state (read_meta_ctrl m) = ucast (resize_code RS_NORMAL) then
       (let (t, m) = refresh_cache st in Some (adopt_layout t, m))
     else Some st)"

definition join_migration :: "'v hts \<Rightarrow> 'v hts option" where
  "join_migration st =
    do { (t, m) \<leftarrow> refresh_until_ready st;
         if \<not> ht_migration_begun t then Some (begin_migration (t\<lparr>ht_migration_begun := True\<rparr>), m)
         else do { _ \<leftarrow> wait_layout_ready t; Some (t, m) } }"

definition try_initiate_resize :: "'v hts \<Rightarrow> (bool \<times> 'v hts) option" where
  "try_initiate_resize st =
    (let (t, m) = st; ctrl = read_meta_ctrl m in
     if rc_state ctrl \<noteq> ucast (resize_code RS_NORMAL) then
       do { _ \<leftarrow> wait_version (lc_version (ht_cache t)) st; Some (False, st) }
     else
       (case cas_meta_ctrl ctrl ((ctrl AND NOT 0xFF) OR resize_code RS_MIGRATING) m of
          (swapped, m) \<Rightarrow>
        if \<not> swapped then do { _ \<leftarrow> wait_version (lc_version (ht_cache t)) (t, m); Some (False, t, m) }
        else
          let prev = hm_meta m;
              t = (if rm_tl_size prev > 0
                   then t\<lparr>ht_tl_offset := rm_tl_offset prev, ht_tl_n := rm_tl_size prev,
                          ht_bl_offset := rm_bl_offset prev, ht_bl_n := rm_bl_size prev\<rparr> else t);
              new_version = rm_version prev + 1;
              ctrl = rc_pack (ucast (resize_code RS_MIGRATING)) (of_nat (ht_mds_id t)) (of_nat (ht_rcfg_n_mds t)) 0;
              m = m\<lparr>hm_meta := \<lparr>rm_ctrl = ctrl, rm_version = new_version, rm_tl_offset = 0, rm_tl_size = 0,
                     rm_bl_offset = 0, rm_bl_size = 0, rm_old_bl_offset = 0, rm_old_bl_size = 0\<rparr>\<rparr>;
              (t, m) = notify_all_mds new_version (t, m);
              new_tl_n = ht_tl_n t * 2
          in do { (new_tl_off, m) \<leftarrow> ht_malloc (new_tl_n * kBucketSize) m;
                  let m = m\<lparr>hm_meta := \<lparr>rm_ctrl = ctrl, rm_version = new_version,
                        rm_tl_offset = new_tl_off, rm_tl_size = new_tl_n,
                        rm_bl_offset = ht_tl_offset t, rm_bl_size = ht_tl_n t,
                        rm_old_bl_offset = ht_bl_offset t, rm_old_bl_size = ht_bl_n t\<rparr>\<rparr>;
                  Some (True, refresh_cache (notify_all_mds new_version (t, m))) }))"

definition do_resize :: "'v hts \<Rightarrow> 'v hts option" where
  "do_resize st =
    (if check_version_changed st then
       (let (t, m) = refresh_cache st in
        if lc_state (ht_cache t) = RS_NORMAL then Some (adopt_layout t, m) else join_migration (t, m))
     else
       do { (_, t, m) \<leftarrow> try_initiate_resize st;
            if \<not> ht_migration_begun t then
              (let (t, m) = refresh_cache (t\<lparr>ht_migration_begun := True\<rparr>, m) in
               if lc_state (ht_cache t) = RS_MIGRATING
               then do { (t, m) \<leftarrow> refresh_until_ready (t, m); Some (begin_migration t, m) }
               else Some (adopt_layout (t\<lparr>ht_migration_begun := False\<rparr>), m))
            else do { _ \<leftarrow> wait_layout_ready t; Some (t, m) } })"

definition insert_to_new_layout :: "('k, 'v) ht_traits \<Rightarrow> u64 \<Rightarrow> 'v \<Rightarrow> 'v hts \<Rightarrow> bool \<times> 'v hts" where
  "insert_to_new_layout T fp v st =
    (let cands = get_candidates T (tr_extract T v) (fst st) in
     case insert_passes (\<lambda>c keys. place_into False c keys fp v) (cs_list cands) st of
       (r, st) \<Rightarrow> if r then (True, st)
         else (case try_migrate_and_insert T v fp cands st of
            (r, t, m) \<Rightarrow> if r then (True, t\<lparr>ht_size := ht_size t - 1\<rparr>, m) else (False, t, m)))"

text \<open>The slots of a locked bucket, one after another: which of them have moved.\<close>

fun migrate_slots ::
  "('k, 'v) ht_traits \<Rightarrow> nat \<Rightarrow> nat \<Rightarrow> (nat \<Rightarrow> u64) \<Rightarrow> nat list \<Rightarrow> (nat \<Rightarrow> bool) \<Rightarrow> 'v hts \<Rightarrow> (nat \<Rightarrow> bool) \<times> 'v hts" where
  "migrate_slots T base bi metas [] migrated st = (migrated, st)"
| "migrate_slots T base bi metas (j # js) migrated st =
    (let sfp = slot_fp metas j in
     if sfp = 0 then migrate_slots T base bi metas js (migrated(j := True)) st
     else (case insert_to_new_layout T sfp (read_val base bi j (snd st)) st of
         (r, st) \<Rightarrow> migrate_slots T base bi metas js (migrated(j := r)) st))"

definition migrate_step :: "('k, 'v) ht_traits \<Rightarrow> 'v hts \<Rightarrow> 'v hts option" where
  "migrate_step T st =
    (let (t, m) = st; c = ht_cache t; i = lc_local_cursor c; old_bl = lc_old_bl_offset c in
     if lc_state c \<noteq> RS_MIGRATING \<or> lc_range_done c then Some st
     else if i \<ge> lc_range_end c then
       do { m \<leftarrow> (if \<not> lc_done_reported c then increment_done_count m else Some m);
            Some (t\<lparr>ht_cache := c\<lparr>lc_done_reported := True, lc_range_done := True\<rparr>\<rparr>, m) }
     else
       (let metas = read_hr old_bl i m in
        if is_dirty (metas 0) then Some st
        else if \<not> list_ex (\<lambda>j. slot_fp metas j \<noteq> 0) [0..<kSlots]
        then Some (t\<lparr>ht_cache := c\<lparr>lc_local_cursor := i + 1\<rparr>\<rparr>, m)
        else (case cas_hr old_bl i (metas 0) (make_locked (metas 0)) m of
          (swapped, m) \<Rightarrow>
            if \<not> swapped then Some (t, m)
            else (case migrate_slots T old_bl i metas [0..<kSlots] (\<lambda>_. False) (t, m) of
              (migrated, t, m) \<Rightarrow>
                let new_metas = set_unlocked_meta0
                      (\<lambda>j. if 1 \<le> j \<and> j < kSlots \<and> \<not> migrated j then slot_fp metas j else 0)
                      (metas 0) (if migrated 0 then 0 else slot_fp metas 0);
                    m = write_hr old_bl i new_metas m
                in if list_all migrated [0..<kSlots]
                   then Some (t\<lparr>ht_cache := (ht_cache t)\<lparr>lc_local_cursor := i + 1\<rparr>\<rparr>, m)
                   else Some (t, m)))))"

definition check_finalize :: "'v hts \<Rightarrow> 'v hts" where
  "check_finalize st =
    (let (t, m) = st; ctrl = read_meta_ctrl m in
     if \<not> ht_migration_begun t \<or> \<not> lc_range_done (ht_cache t) then st
     else if ht_mds_id t \<noteq> unat (rc_initiator ctrl) then st
     else if rc_done_count ctrl < rc_n_mds ctrl then st
     else let new_ctrl = (ctrl AND NOT 0xFF) OR resize_code RS_NORMAL in
       (case cas_meta_ctrl ctrl new_ctrl m of
          (swapped, m) \<Rightarrow>
            if \<not> swapped then (t, m)
            else let v = rm_version (hm_meta m) + 1;
                     m = m\<lparr>hm_meta := (hm_meta m)\<lparr>rm_ctrl := new_ctrl, rm_version := v\<rparr>\<rparr>;
                     (t, m) = refresh_cache (notify_all_mds v (t, m))
                 in ((end_migration t)\<lparr>ht_migration_begun := False\<rparr>, m)))"

section \<open>The public operations\<close>

definition pre_op :: "'v hts \<Rightarrow> 'v hts option" where
  "pre_op st = (if \<not> ht_resize_enabled (fst st) then Some st else check_resize st)"

definition post_op :: "('k, 'v) ht_traits \<Rightarrow> 'v hts \<Rightarrow> 'v hts option" where
  "post_op T st =
    (if \<not> ht_resize_enabled (fst st) \<or> \<not> ht_migration_begun (fst st) then Some st
     else do { st \<leftarrow> migrate_step T st; Some (check_finalize st) })"

fun insert_attempts :: "('k, 'v) ht_traits \<Rightarrow> nat \<Rightarrow> 'k \<Rightarrow> 'v \<Rightarrow> 'v hts \<Rightarrow> (bool \<times> 'v hts) option" where
  "insert_attempts T 0 key v st = Some (False, st)"
| "insert_attempts T (Suc n) key v st =
    do { st \<leftarrow> pre_op st;
         let e0 = ht_layout_epoch (fst st);
         let (r, st) = insert_impl T key v st;
         if r then do { st \<leftarrow> post_op T st; Some (True, st) }
         else do {
           (r, st) \<leftarrow> (if ht_resize_enabled (fst st) \<and> \<not> ht_mig_active (fst st)
                       then do { st \<leftarrow> do_resize st; Some (insert_impl T key v st) }
                       else Some (False, st));
           let e1 = ht_layout_epoch (fst st);
           st \<leftarrow> post_op T st;
           if r then Some (True, st)
           else if e0 = e1 then Some (False, st) else insert_attempts T n key v st } }"

definition ht_insert :: "('k, 'v) ht_traits \<Rightarrow> 'k \<Rightarrow> 'v \<Rightarrow> 'v hts \<Rightarrow> (bool \<times> 'v hts) option" where
  "ht_insert T = insert_attempts T kEpochRetryMax"

text \<open>\<open>find\<close>, \<open>update_fn\<close> and \<open>erase\<close> wrap their implementation in the same loop.\<close>

fun op_attempts ::
  "('k, 'v) ht_traits \<Rightarrow> ('v hts \<Rightarrow> ('a option \<times> 'v hts) option) \<Rightarrow> nat \<Rightarrow> 'v hts \<Rightarrow> ('a option \<times> 'v hts) option" where
  "op_attempts T impl 0 st = Some (None, st)"
| "op_attempts T impl (Suc n) st =
    do { st \<leftarrow> pre_op st;
         let e0 = ht_layout_epoch (fst st);
         (r, st) \<leftarrow> impl st;
         let e1 = ht_layout_epoch (fst st);
         st \<leftarrow> post_op T st;
         if r \<noteq> None \<or> e0 = e1 then Some (r, st) else op_attempts T impl n st }"

definition ht_find :: "('k, 'v) ht_traits \<Rightarrow> 'k \<Rightarrow> 'v hts \<Rightarrow> ('v option \<times> 'v hts) option" where
  "ht_find T key = op_attempts T (find_impl T key) kEpochRetryMax"

definition ht_update_fn :: "('k, 'v) ht_traits \<Rightarrow> 'k \<Rightarrow> ('v \<Rightarrow> 'v) \<Rightarrow> 'v hts \<Rightarrow> (bool \<times> 'v hts) option" where
  "ht_update_fn T key func st =
    do { (r, st) \<leftarrow> op_attempts T (update_impl T key func) kEpochRetryMax st; Some (r \<noteq> None, st) }"

definition ht_update :: "('k, 'v) ht_traits \<Rightarrow> 'k \<Rightarrow> 'v \<Rightarrow> 'v hts \<Rightarrow> (bool \<times> 'v hts) option" where
  "ht_update T key v = ht_update_fn T key (\<lambda>_. v)"

definition ht_erase :: "('k, 'v) ht_traits \<Rightarrow> 'k \<Rightarrow> 'v hts \<Rightarrow> ('v option \<times> 'v hts) option" where
  "ht_erase T key = op_attempts T (erase_impl T key) kEpochRetryMax"

section \<open>The traits of directory entries and inodes\<close>

definition dirent_match :: "Dirent \<Rightarrow> u64 \<times> cstring \<Rightarrow> bool" where
  "dirent_match d key \<longleftrightarrow> d_pid d = fst key \<and> take 64 (d_name d) = take 64 (snd key)"

definition dirent_extract :: "Dirent \<Rightarrow> u64 \<times> cstring" where
  "dirent_extract d = (d_pid d, d_name d)"

text \<open>\<open>std::hash\<close> of an integer and of a string are the library's; the combination is the source's.\<close>

definition PairHash_LH :: "(u64 \<Rightarrow> u64) \<Rightarrow> (cstring \<Rightarrow> u64) \<Rightarrow> u64 \<times> cstring \<Rightarrow> u64" where
  "PairHash_LH hash_u64 hash_string p =
    (let h1 = hash_u64 (fst p); h2 = hash_string (snd p)
     in h1 XOR (h2 + 0x517cc1b727220a95 + push_bit 6 h1 + drop_bit 2 h1))"

definition dirent_traits :: "(u64 \<Rightarrow> u64) \<Rightarrow> (cstring \<Rightarrow> u64) \<Rightarrow> (u64 \<times> cstring, Dirent) ht_traits" where
  "dirent_traits hash_u64 hash_string =
    \<lparr>tr_hash = PairHash_LH hash_u64 hash_string, tr_match = dirent_match, tr_extract = dirent_extract\<rparr>"

definition inode_traits :: "(u64, Inode) ht_traits" where
  "inode_traits = \<lparr>tr_hash = (\<lambda>p. p), tr_match = (\<lambda>i key. i_id i = key), tr_extract = i_id\<rparr>"

end
