(* ===== verification/LevelHashtableCells.thy ===== *)
theory LevelHashtableCells
  imports LevelHashtable "HOL-Library.Multiset"
begin

text \<open>
  What a level hash table stores, read off its buckets: the cells of its levels, the bag of values they
  hold, and the invariant that each value lies in one of the buckets of its key under the fingerprint of
  that key. The primitive steps on a bucket (lock, unlock, commit) are described by their effect on cells.
\<close>

unbundle bit_operations_syntax

section \<open>The words of the hash region\<close>

lemma kFpMask_mask: "kFpMask = mask 56" "kVersionValueMask = mask 7"
  by (simp_all add: kFpMask_def kVersionValueMask_def ht_kVersionShift_def ht_kVersionBits_def mask_eq_decr_exp
      push_bit_eq_mult)

lemma bit_ht_consts [simp]:
  "bit kFpMask n \<longleftrightarrow> n < 56" "bit kVersionValueMask n \<longleftrightarrow> n < 7" "bit ht_kDirtyBit n \<longleftrightarrow> n = 63"
proof -
  show "bit kFpMask n \<longleftrightarrow> n < 56" "bit kVersionValueMask n \<longleftrightarrow> n < 7"
    by (auto simp: kFpMask_mask bit_mask_iff)
  show "bit ht_kDirtyBit n \<longleftrightarrow> n = 63"
    unfolding ht_kDirtyBit_def by (auto simp: bit_push_bit_iff simp del: push_bit_of_1)
qed

lemma is_dirty_bit: "is_dirty w \<longleftrightarrow> bit w 63"
proof -
  have "w AND ht_kDirtyBit = (if bit w 63 then ht_kDirtyBit else 0)"
    by (rule bit_word_eqI) (auto simp: bit_and_iff)
  moreover have "ht_kDirtyBit \<noteq> 0" using bit_ht_consts(3) [of 63] by force
  ultimately show ?thesis by (simp add: is_dirty_def)
qed

lemma locked_word [simp]:
  "make_locked w AND kFpMask = w AND kFpMask" "is_dirty (make_locked w)"
  by (auto intro!: bit_word_eqI simp: is_dirty_bit make_locked_def Let_def bit_simps ht_kVersionShift_def
      ht_kVersionBits_def)

lemma unlocked_word:
  assumes "fp AND kFpMask = fp"
  shows "make_unlocked w fp AND kFpMask = fp" "\<not> is_dirty (make_unlocked w fp)"
proof -
  have fp: "bit fp n \<Longrightarrow> n < 56" for n using assms by (metis bit_and_iff bit_ht_consts(1))
  show "make_unlocked w fp AND kFpMask = fp"
    by (auto intro!: bit_word_eqI simp: make_unlocked_def Let_def bit_simps ht_kVersionShift_def ht_kVersionBits_def
        dest: fp)
  show "\<not> is_dirty (make_unlocked w fp)"
    using fp [of 63] by (auto simp: is_dirty_bit make_unlocked_def Let_def bit_simps ht_kVersionShift_def ht_kVersionBits_def)
qed

lemma cleared_word [simp]:
  "(w AND NOT ht_kDirtyBit) AND kFpMask = w AND kFpMask" "\<not> is_dirty (w AND NOT ht_kDirtyBit)"
  by (auto intro!: bit_word_eqI simp: is_dirty_bit bit_simps)

lemma and_mask_idem [simp]: "(w AND kFpMask) AND kFpMask = w AND kFpMask"
  by (simp add: and.assoc)

lemma make_fp_masked [simp]: "make_fp T k AND kFpMask = make_fp T k" "make_fp T k \<noteq> 0"
proof -
  have "(1 :: u64) AND kFpMask = 1" by (rule bit_word_eqI) (auto simp: bit_simps)
  then show "make_fp T k AND kFpMask = make_fp T k" by (simp add: make_fp_def Let_def)
  show "make_fp T k \<noteq> 0" by (simp add: make_fp_def Let_def)
qed

section \<open>Cells, regions and the bag of entries\<close>

text \<open>What the table stores, slot by slot: nothing, or a fingerprint with a value.\<close>

definition cell :: "'v hmem \<Rightarrow> nat \<Rightarrow> nat \<Rightarrow> nat \<Rightarrow> (u64 \<times> 'v) option" where
  "cell m b i s =
    (if slot_fp (read_hr b i m) s = 0 then None else Some (slot_fp (read_hr b i m) s, read_val b i s m))"

definition levels :: "ht \<Rightarrow> (nat \<times> nat) list" where
  "levels t = [(ht_tl_offset t, ht_tl_n t), (ht_bl_offset t, ht_bl_n t)] @
     (if ht_mig_active t then [(ht_mig_old_bl_offset t, ht_mig_old_bl_n t)] else [])"

definition locs :: "(nat \<times> nat) list \<Rightarrow> (nat \<times> nat \<times> nat) set" where
  "locs L = (\<Union>(b, n)\<in>set L. {b} \<times> {..<n} \<times> {..<kSlots})"

definition cell_bag :: "(u64 \<times> 'v) option \<Rightarrow> 'v multiset" where
  "cell_bag c = (case c of None \<Rightarrow> {#} | Some (fp, v) \<Rightarrow> {#v#})"

definition bag :: "(nat \<times> nat) list \<Rightarrow> 'v hmem \<Rightarrow> 'v multiset" where
  "bag L m = (\<Sum>(b, i, s)\<in>locs L. cell_bag (cell m b i s))"

lemma finite_locs [simp]: "finite (locs L)"
  by (auto simp: locs_def)

lemma mem_locs: "(b, i, s) \<in> locs L \<longleftrightarrow> (\<exists>n. (b, n) \<in> set L \<and> i < n \<and> s < kSlots)"
  by (auto simp: locs_def)

lemma cell_bag_simps [simp]: "cell_bag None = {#}" "cell_bag (Some (fp, v)) = {#v#}"
  by (simp_all add: cell_bag_def)

lemma bag_cong: "(\<And>b i s. (b, i, s) \<in> locs L \<Longrightarrow> cell m' b i s = cell m b i s) \<Longrightarrow> bag L m' = bag L m"
  unfolding bag_def by (rule sum.cong) auto

lemma bag_upd:
  assumes l: "(b, i, s) \<in> locs L"
    and eq: "\<And>b' i' s'. (b', i', s') \<in> locs L \<Longrightarrow> (b', i', s') \<noteq> (b, i, s) \<Longrightarrow> cell m' b' i' s' = cell m b' i' s'"
  shows "bag L m' + cell_bag (cell m b i s) = bag L m + cell_bag (cell m' b i s)"
proof -
  let ?f = "\<lambda>m (b, i, s). cell_bag (cell m b i s)"
  have "sum (?f m') (locs L - {(b, i, s)}) = sum (?f m) (locs L - {(b, i, s)})"
  proof (rule sum.cong)
    fix x assume "x \<in> locs L - {(b, i, s)}"
    then show "?f m' x = ?f m x" using eq by (cases x) force
  qed simp
  then show ?thesis
    using sum.remove [OF finite_locs l, of "?f m'"] sum.remove [OF finite_locs l, of "?f m"]
    by (simp add: bag_def ac_simps)
qed

lemma in_bag: "v \<in># bag L m \<longleftrightarrow> (\<exists>b i s fp. (b, i, s) \<in> locs L \<and> cell m b i s = Some (fp, v))"
proof -
  have "v \<in># cell_bag c \<longleftrightarrow> (\<exists>fp. c = Some (fp, v))" for c
    by (cases c) auto
  then show ?thesis
    unfolding bag_def by (force simp: set_mset_sum)
qed

section \<open>How the primitive steps change the cells\<close>

lemma read_write [simp]:
  "read_hr b i (write_hr b' i' ks m) = (if b = b' \<and> i = i' then ks else read_hr b i m)"
  "read_hr b i (write_val b' i' s v m) = read_hr b i m"
  "read_val b i s (write_hr b' i' ks m) = read_val b i s m"
  "read_val b i s (write_val b' i' s' v m) = (if b = b' \<and> i = i' \<and> s = s' then v else read_val b i s m)"
  by (auto simp: read_hr_def write_hr_def read_val_def write_val_def)

lemma cell_cong:
  "slot_fp (read_hr b i m') s = slot_fp (read_hr b i m) s \<Longrightarrow> read_val b i s m' = read_val b i s m \<Longrightarrow>
    cell m' b i s = cell m b i s"
  by (simp add: cell_def)

text \<open>A snapshot \<open>keys\<close> of a hash region is current when the region still has its fingerprints.\<close>

definition current :: "nat \<Rightarrow> nat \<Rightarrow> (nat \<Rightarrow> u64) \<Rightarrow> 'v hmem \<Rightarrow> bool" where
  "current b i keys m \<longleftrightarrow> (\<forall>s. slot_fp (read_hr b i m) s = slot_fp keys s)"

lemma current_read [simp]: "current b i (read_hr b i m) m"
  by (simp add: current_def)

lemma cas_hr_cell:
  assumes "cas_hr b i e d m = (r, m')" "d AND kFpMask = e AND kFpMask"
  shows "cell m' = cell m" "\<And>b i keys. current b i keys m' = current b i keys m"
proof -
  have *: "slot_fp (read_hr b' i' m') s = slot_fp (read_hr b' i' m) s" for b' i' s
    using assms by (auto simp: cas_hr_def slot_fp_def split: if_splits)
  have "read_val b' i' s m' = read_val b' i' s m" for b' i' s
    using assms(1) by (auto simp: cas_hr_def split: if_splits)
  with * show "cell m' = cell m" by (simp add: cell_def fun_eq_iff)
  show "\<And>b i keys. current b i keys m' = current b i keys m" using * by (simp add: current_def)
qed

lemma slot_fp_unlocked:
  assumes "fp AND kFpMask = fp"
  shows "slot_fp (set_unlocked_meta0 ks w fp) s = (if s = 0 then fp else slot_fp ks s)"
  using unlocked_word(1) [OF assms] by (simp add: slot_fp_def set_unlocked_meta0_def)

lemma unlock_bucket_cell:
  assumes "current b i keys m"
  shows "cell (unlock_bucket b i keys m) = cell m"
proof -
  have "slot_fp (read_hr b' i' (unlock_bucket b i keys m)) s = slot_fp (read_hr b' i' m) s" for b' i' s
    using assms by (auto simp: unlock_bucket_def slot_fp_unlocked current_def) (simp_all add: slot_fp_def)
  then show ?thesis by (auto simp: cell_def fun_eq_iff unlock_bucket_def)
qed

lemma commit_bucket_cell:
  assumes "current b i keys m" "fp AND kFpMask = fp" "fp \<noteq> 0"
  shows "cell (commit_bucket b i keys s fp (write_val b i s v m)) b' i' s' =
    (if b' = b \<and> i' = i \<and> s' = s then Some (fp, v) else cell m b' i' s')"
proof -
  have "slot_fp (read_hr b' i' (commit_bucket b i keys s fp (write_val b i s v m))) s' =
    (if b' = b \<and> i' = i \<and> s' = s then fp else slot_fp (read_hr b' i' m) s')"
    using assms by (auto simp: commit_bucket_def Let_def slot_fp_unlocked current_def) (simp_all add: slot_fp_def)
  then show ?thesis using assms(3) by (auto simp: cell_def commit_bucket_def Let_def)
qed

lemma find_empty_slotD:
  "find_empty_slot keys = Some s \<Longrightarrow> s < kSlots \<and> slot_fp keys s = 0"
  by (auto simp: find_empty_slot_def find_Some_iff)

lemma find_empty_slot_None: "find_empty_slot keys = None \<longleftrightarrow> \<not> has_empty_slot keys"
  by (auto simp: find_empty_slot_def has_empty_slot_def find_None_iff list_ex_iff)

section \<open>Placement and the effect of an operation\<close>

definition well_placed :: "('k, 'v) ht_traits \<Rightarrow> nat \<Rightarrow> nat \<Rightarrow> 'v \<Rightarrow> bool" where
  "well_placed T n i v \<longleftrightarrow>
    (let h = tr_hash T (tr_extract T v) in i = f_idx (mix_h1 h) n \<or> i = s_idx (mix_h2 h) n)"

text \<open>Every entry carries the fingerprint of its key and lies in one of the two buckets that the key has
  on its level.\<close>

definition placed :: "('k, 'v) ht_traits \<Rightarrow> ('v \<Rightarrow> bool) \<Rightarrow> (nat \<times> nat) list \<Rightarrow> 'v hmem \<Rightarrow> bool" where
  "placed T valid L m \<longleftrightarrow>
    (\<forall>b n i s fp v. (b, n) \<in> set L \<and> i < n \<and> s < kSlots \<and> cell m b i s = Some (fp, v) \<longrightarrow>
       valid v \<and> fp = make_fp T (tr_extract T v) \<and> well_placed T n i v)"

definition layout_ok :: "(nat \<times> nat) list \<Rightarrow> bool" where
  "layout_ok L \<longleftrightarrow> distinct (map fst L) \<and> (\<forall>(b, n)\<in>set L. 2 \<le> n)"

text \<open>A step that touches only buckets of the regions \<open>Bs\<close>, the hint and the element count.\<close>

definition bucket_frame :: "nat set \<Rightarrow> 'v hts \<Rightarrow> 'v hts \<Rightarrow> bool" where
  "bucket_frame Bs st st' \<longleftrightarrow>
     (\<exists>h z. fst st' = (fst st)\<lparr>ht_hint := h, ht_size := z\<rparr>) \<and>
     (\<exists>B. snd st' = (snd st)\<lparr>hm_bucket := B\<rparr>) \<and>
     (\<forall>b. b \<notin> Bs \<longrightarrow> hm_bucket (snd st') b = hm_bucket (snd st) b)"

definition keeps_locked :: "'v hmem \<Rightarrow> 'v hmem \<Rightarrow> bool" where
  "keeps_locked m m' \<longleftrightarrow>
     (\<forall>b i. is_dirty (read_hr b i m 0) \<longrightarrow> hm_bucket m' b i = hm_bucket m b i)"

definition adds :: "('k, 'v) ht_traits \<Rightarrow> ('v \<Rightarrow> bool) \<Rightarrow> (nat \<times> nat) list \<Rightarrow> nat set \<Rightarrow>
    'v multiset \<Rightarrow> u64 \<Rightarrow> 'v hts \<Rightarrow> 'v hts \<Rightarrow> bool" where
  "adds T valid L Bs D d st st' \<longleftrightarrow> bucket_frame Bs st st' \<and>
     bag L (snd st') = bag L (snd st) + D \<and> ht_size (fst st') = ht_size (fst st) + d \<and>
     placed T valid L (snd st')"

lemma bucket_frameI:
  "fst st' = (fst st)\<lparr>ht_hint := h, ht_size := z\<rparr> \<Longrightarrow> snd st' = (snd st)\<lparr>hm_bucket := B\<rparr> \<Longrightarrow>
    (\<And>b. b \<notin> Bs \<Longrightarrow> B b = hm_bucket (snd st) b) \<Longrightarrow> bucket_frame Bs st st'"
  unfolding bucket_frame_def by (intro conjI exI) simp_all

lemma bucket_frame_refl [simp]: "bucket_frame Bs st st"
  by (rule bucket_frameI [where h = "ht_hint (fst st)" and z = "ht_size (fst st)" and B = "hm_bucket (snd st)"]) simp_all

lemma bucket_frame_trans:
  assumes "bucket_frame Bs st st'" "bucket_frame Bs st' st''"
  shows "bucket_frame Bs st st''"
proof -
  from assms obtain h z B h' z' B' where
    1: "fst st' = (fst st)\<lparr>ht_hint := h, ht_size := z\<rparr>" "snd st' = (snd st)\<lparr>hm_bucket := B\<rparr>"
      "\<And>b. b \<notin> Bs \<Longrightarrow> hm_bucket (snd st') b = hm_bucket (snd st) b" and
    2: "fst st'' = (fst st')\<lparr>ht_hint := h', ht_size := z'\<rparr>" "snd st'' = (snd st')\<lparr>hm_bucket := B'\<rparr>"
      "\<And>b. b \<notin> Bs \<Longrightarrow> hm_bucket (snd st'') b = hm_bucket (snd st') b"
    unfolding bucket_frame_def by blast
  show ?thesis by (rule bucket_frameI [where h = h' and z = z' and B = B']) (use 1 2 in simp_all)
qed

lemma keeps_locked_refl [simp]: "keeps_locked m m"
  by (simp add: keeps_locked_def)

lemma keeps_locked_trans: "keeps_locked m m' \<Longrightarrow> keeps_locked m' m'' \<Longrightarrow> keeps_locked m m''"
  by (simp add: keeps_locked_def read_hr_def)

lemma adds_refl: "placed T valid L (snd st) \<Longrightarrow> adds T valid L Bs {#} 0 st st"
  by (simp add: adds_def)

lemma adds_trans:
  "adds T valid L Bs D d st st' \<Longrightarrow> adds T valid L Bs D' d' st' st'' \<Longrightarrow> adds T valid L Bs (D + D') (d + d') st st''"
  by (auto simp: adds_def ac_simps intro: bucket_frame_trans)

lemma addsD: "adds T valid L Bs D d st st' \<Longrightarrow> placed T valid L (snd st')"
  by (simp add: adds_def)

lemma placed_cong:
  "(\<And>b n i s. (b, n) \<in> set L \<Longrightarrow> i < n \<Longrightarrow> s < kSlots \<Longrightarrow> cell m' b i s = cell m b i s) \<Longrightarrow>
    placed T valid L m' = placed T valid L m"
  unfolding placed_def by (intro iff_allI) metis

text \<open>Steps that leave the cells as they are.\<close>

definition still :: "nat \<Rightarrow> 'v hts \<Rightarrow> 'v hts \<Rightarrow> bool" where
  "still b st st' \<longleftrightarrow> bucket_frame {b} st st' \<and> cell (snd st') = cell (snd st) \<and> ht_size (fst st') = ht_size (fst st)"

lemma frame_mono: "bucket_frame Bs st st' \<Longrightarrow> Bs \<subseteq> Bs' \<Longrightarrow> bucket_frame Bs' st st'"
  by (auto simp: bucket_frame_def)

lemma still_adds:
  "still b st st' \<Longrightarrow> b \<in> Bs \<Longrightarrow> placed T valid L (snd st) \<Longrightarrow> adds T valid L Bs {#} 0 st st'"
  using bag_cong [of L "snd st'" "snd st"] placed_cong [of L "snd st'" "snd st"]
  by (auto simp: still_def adds_def intro: frame_mono)

lemma write_hr_frame: "b \<in> Bs \<Longrightarrow> bucket_frame Bs (t, m) (t, write_hr b i ks m)"
  by (rule bucket_frameI [where h = "ht_hint t" and z = "ht_size t" and B = "hm_bucket (write_hr b i ks m)"])
    (auto simp: write_hr_def)

lemma write_val_frame: "b \<in> Bs \<Longrightarrow> bucket_frame Bs (t, m) (t, write_val b i s v m)"
  by (rule bucket_frameI [where h = "ht_hint t" and z = "ht_size t" and B = "hm_bucket (write_val b i s v m)"])
    (auto simp: write_val_def)

lemma cas_hr_frame: "cas_hr b i e d m = (r, m') \<Longrightarrow> b \<in> Bs \<Longrightarrow> bucket_frame Bs (t, m) (t, m')"
  by (auto simp: cas_hr_def write_hr_frame split: if_splits)

lemma other_bucket [simp]:
  "b' \<noteq> b \<or> i' \<noteq> i \<Longrightarrow> hm_bucket (write_hr b i ks m) b' i' = hm_bucket m b' i'"
  "b' \<noteq> b \<or> i' \<noteq> i \<Longrightarrow> hm_bucket (write_val b i s v m) b' i' = hm_bucket m b' i'"
  "b' \<noteq> b \<or> i' \<noteq> i \<Longrightarrow> hm_bucket (unlock_bucket b i ks m) b' i' = hm_bucket m b' i'"
  "b' \<noteq> b \<or> i' \<noteq> i \<Longrightarrow> hm_bucket (commit_bucket b i ks s fp m) b' i' = hm_bucket m b' i'"
  by (auto simp: write_hr_def write_val_def unlock_bucket_def commit_bucket_def Let_def)

lemma cas_hr_other: "cas_hr b i e d m = (r, m') \<Longrightarrow> b' \<noteq> b \<or> i' \<noteq> i \<Longrightarrow> hm_bucket m' b' i' = hm_bucket m b' i'"
  by (auto simp: cas_hr_def split: if_splits)

lemma lock_still:
  assumes "cas_hr b i e (make_locked e) m = (r, m')"
  shows "still b (t, m) (t, m')" "current b i keys m' = current b i keys m"
    "r \<Longrightarrow> is_dirty (read_hr b i m' 0)" "\<not> r \<Longrightarrow> m' = m"
proof -
  note C = cas_hr_cell [OF assms locked_word(1)]
  show "still b (t, m) (t, m')" using C(1) cas_hr_frame [OF assms] by (simp add: still_def)
  show "current b i keys m' = current b i keys m" by (rule C(2))
  show "r \<Longrightarrow> is_dirty (read_hr b i m' 0)" "\<not> r \<Longrightarrow> m' = m"
    using assms by (auto simp: cas_hr_def split: if_splits)
qed

lemma unlock_still: "current b i keys m \<Longrightarrow> still b (t, m) (t, unlock_bucket b i keys m)"
  by (simp add: still_def unlock_bucket_cell) (simp add: unlock_bucket_def write_hr_frame)

lemma hint_set_frame: "bucket_frame Bs (t, m) (hint_set g s fp t, m)"
  by (rule bucket_frameI [where h = "th_set g s fp (ht_hint t)" and z = "ht_size t" and B = "hm_bucket m"]) (simp_all add: hint_set_def)

lemma hint_set_simps [simp]:
  "ht_size (hint_set g s fp t) = ht_size t" "ht_tl_n (hint_set g s fp t) = ht_tl_n t" "levels (hint_set g s fp t) = levels t"
  by (simp_all add: hint_set_def levels_def)

text \<open>A step that changes one cell, to nothing or to an entry that may lie there.\<close>

lemma cell_change:
  assumes L: "(b, n) \<in> set L" "i < n" "s < kSlots" and lay: "layout_ok L" and pl: "placed T valid L m"
    and c: "\<And>b' i' s'. cell m' b' i' s' = (if b' = b \<and> i' = i \<and> s' = s then x else cell m b' i' s')"
    and x: "\<And>fp v. x = Some (fp, v) \<Longrightarrow> valid v \<and> fp = make_fp T (tr_extract T v) \<and> well_placed T n i v"
  shows "bag L m' + cell_bag (cell m b i s) = bag L m + cell_bag x" "placed T valid L m'"
proof -
  have "bag L m' + cell_bag (cell m b i s) = bag L m + cell_bag (cell m' b i s)"
    by (rule bag_upd) (use L in \<open>auto simp: mem_locs c\<close>)
  then show "bag L m' + cell_bag (cell m b i s) = bag L m + cell_bag x" by (simp add: c)
  have n: "n' = n" if "(b, n') \<in> set L" for n'
    using lay L(1) that by (auto simp: layout_ok_def dest: eq_key_imp_eq_value)
  show "placed T valid L m'"
    unfolding placed_def c using pl x n by (auto simp: placed_def split: if_splits)
qed

text \<open>Writing an entry into a slot of a bucket: into an empty one, or over the entry it replaces.\<close>

lemma store_adds:
  assumes L: "(b, n) \<in> set L" "i < n" "s < kSlots" and Bs: "b \<in> Bs"
    and lay: "layout_ok L" and pl: "placed T valid L m"
    and cur: "current b i keys m" and v: "valid v" "well_placed T n i v"
    and old: "cell_bag (cell m b i s) = W"
    and st': "st' = (t\<lparr>ht_hint := h, ht_size := ht_size t + d\<rparr>,
        commit_bucket b i keys s (make_fp T (tr_extract T v)) (write_val b i s v m))"
  shows "bucket_frame Bs (t, m) st'" "bag L (snd st') + W = bag L m + {#v#}" "placed T valid L (snd st')"
proof -
  let ?x = "Some (make_fp T (tr_extract T v), v)"
  have c: "cell (snd st') b' i' s' = (if b' = b \<and> i' = i \<and> s' = s then ?x else cell m b' i' s')" for b' i' s'
    by (simp add: st' commit_bucket_cell [OF cur])
  note C = cell_change [where x = ?x, OF L lay pl c]
  show "bucket_frame Bs (t, m) st'"
    by (rule bucket_frameI [where h = h and z = "ht_size t + d" and B = "hm_bucket (snd st')"])
      (use Bs in \<open>auto simp: st' commit_bucket_def Let_def write_hr_def write_val_def\<close>)
  show "bag L (snd st') + W = bag L m + {#v#}" "placed T valid L (snd st')" using C v old by auto
qed

end
