(* ===== verification/LevelHashtableInsert.thy ===== *)
theory LevelHashtableInsert
  imports LevelHashtableCells
begin

text \<open>
  Insertion into the level hash table, with the displacement of entries inside a level and to the level
  above, adds exactly the new value to the bag of the table or leaves the bag as it was.
\<close>

unbundle bit_operations_syntax

section \<open>Insertion and displacement add exactly the new entry\<close>

definition outcome :: "('k, 'v) ht_traits \<Rightarrow> ('v \<Rightarrow> bool) \<Rightarrow> (nat \<times> nat) list \<Rightarrow> nat set \<Rightarrow>
    bool \<Rightarrow> 'v \<Rightarrow> u64 \<Rightarrow> 'v hts \<Rightarrow> 'v hts \<Rightarrow> bool" where
  "outcome T valid L Bs r v d st st' \<longleftrightarrow>
     adds T valid L Bs (if r then {#v#} else {#}) (if r then d else 0) st st' \<and> keeps_locked (snd st) (snd st')"

text \<open>The bucket \<open>c\<close> is one where an entry \<open>v\<close> may lie.\<close>

definition goes :: "('k, 'v) ht_traits \<Rightarrow> (nat \<times> nat) list \<Rightarrow> nat set \<Rightarrow> cand \<Rightarrow> 'v \<Rightarrow> bool" where
  "goes T L Bs c v \<longleftrightarrow>
     c_base c \<in> Bs \<and> (\<exists>n. (c_base c, n) \<in> set L \<and> c_idx c < n \<and> well_placed T n (c_idx c) v)"

lemma outcome_refl: "placed T valid L (snd st) \<Longrightarrow> outcome T valid L Bs False v d st st"
  by (simp add: outcome_def adds_refl)

lemma outcome_trans:
  "outcome T valid L Bs False w d' st st' \<Longrightarrow> outcome T valid L Bs r v d st' st'' \<Longrightarrow> outcome T valid L Bs r v d st st''"
  unfolding outcome_def using adds_trans [of T valid L Bs "{#}" 0 st st'] keeps_locked_trans by fastforce

lemma outcome_False: "outcome T valid L Bs False w d st st' \<longleftrightarrow> outcome T valid L Bs False v d' st st'"
  by (simp add: outcome_def)

lemma outcomeD: "outcome T valid L Bs r v d st st' \<Longrightarrow> placed T valid L (snd st')"
  by (simp add: outcome_def adds_def)

lemma first_success_rule:
  assumes "first_success f xs s0 = (r, s')" "P s0"
    and "\<And>x s s'. x \<in> set xs \<Longrightarrow> P s \<Longrightarrow> f x s = (False, s') \<Longrightarrow> P s'"
    and "\<And>x s s'. x \<in> set xs \<Longrightarrow> P s \<Longrightarrow> f x s = (True, s') \<Longrightarrow> Q s'"
  shows "if r then Q s' else P s'"
  using assms
proof (induction xs arbitrary: s0)
  case (Cons x xs)
  obtain r1 s1 where f: "f x s0 = (r1, s1)" by (cases "f x s0")
  show ?case
  proof (cases r1)
    case True
    then have "r" "s' = s1" using f Cons.prems(1) by auto
    then show ?thesis using Cons.prems(4) [of x s0 s1] Cons.prems(2) f True by simp
  next
    case False
    then have "first_success f xs s1 = (r, s')" "P s1"
      using f Cons.prems(1,2) Cons.prems(3) [of x s0 s1] by auto
    then show ?thesis by (rule Cons.IH) (auto intro: Cons.prems(3,4))
  qed
qed simp

lemma first_success_outcome:
  assumes e: "first_success f xs st = (r, st')" and pl: "placed T valid L (snd st)"
    and f: "\<And>x st1 r1 st2. x \<in> set xs \<Longrightarrow> placed T valid L (snd st1) \<Longrightarrow> f x st1 = (r1, st2) \<Longrightarrow>
      outcome T valid L Bs r1 v d st1 st2"
  shows "outcome T valid L Bs r v d st st'"
proof -
  have "if r then outcome T valid L Bs True v d st st' else outcome T valid L Bs False v d st st'"
  proof (rule first_success_rule [OF e, of "outcome T valid L Bs False v d st"])
    show "outcome T valid L Bs False v d st st" by (rule outcome_refl [OF pl])
  next
    fix x s s' assume h: "x \<in> set xs" "outcome T valid L Bs False v d st s"
    show "f x s = (False, s') \<Longrightarrow> outcome T valid L Bs False v d st s'"
      "f x s = (True, s') \<Longrightarrow> outcome T valid L Bs True v d st s'"
      using outcome_trans [OF h(2)] f [OF h(1) outcomeD [OF h(2)]] by blast+
  qed
  then show ?thesis by (simp split: if_splits)
qed

lemma keeps_locked_one:
  "\<not> is_dirty (read_hr b i m 0) \<Longrightarrow> (\<And>b' i'. b' \<noteq> b \<or> i' \<noteq> i \<Longrightarrow> hm_bucket m' b' i' = hm_bucket m b' i') \<Longrightarrow>
    keeps_locked m m'"
  unfolding keeps_locked_def by metis

lemma counted_hint:
  "hint_set g s fp (if counted then t\<lparr>ht_size := ht_size t + 1\<rparr> else t) =
    t\<lparr>ht_hint := th_set g s fp (ht_hint t), ht_size := ht_size t + (if counted then 1 else 0)\<rparr>"
  by (simp add: hint_set_def)

lemma place_into_spec:
  assumes lay: "layout_ok L" and pl: "placed T valid L m" and c: "goes T L Bs c v" and v: "valid v"
    and cur: "current (c_base c) (c_idx c) keys m" and nd: "\<not> is_dirty (read_hr (c_base c) (c_idx c) m 0)"
    and e: "place_into counted c keys (make_fp T (tr_extract T v)) v (t, m) = (r, st')"
  shows "outcome T valid L Bs (r = Found ()) v (if counted then 1 else 0) (t, m) st'"
proof -
  let ?b = "c_base c" and ?i = "c_idx c"
  obtain n where n: "(?b, n) \<in> set L" "?i < n" "well_placed T n ?i v" and Bs: "?b \<in> Bs" using c by (auto simp: goes_def)
  obtain sw m1 where l: "cas_hr ?b ?i (keys 0) (make_locked (keys 0)) m = (sw, m1)" by fastforce
  note LS = lock_still [OF l]
  have o1: "hm_bucket m1 b' i' = hm_bucket m b' i'" if "b' \<noteq> ?b \<or> i' \<noteq> ?i" for b' i'
    using cas_hr_other [OF l that] .
  have a1: "adds T valid L Bs {#} 0 (t, m) (t, m1)" using still_adds [OF LS(1)] Bs pl by simp
  show ?thesis
  proof (cases "sw \<and> find_empty_slot keys \<noteq> None")
    case False
    then consider "\<not> sw" "r \<noteq> Found ()" "st' = (t, m)" | "sw" "r \<noteq> Found ()" "st' = (t, unlock_bucket ?b ?i keys m1)"
      using e l LS(4) by (auto simp: place_into_def split: if_splits option.splits)
    then show ?thesis
    proof cases
      case 1
      then show ?thesis using outcome_refl [of T valid L "(t, m)"] pl by (simp add: outcome_def)
    next
      case 2
      have "still ?b (t, m1) st'" unfolding 2 using LS(2) cur by (intro unlock_still) simp
      from adds_trans [OF a1 still_adds [OF this Bs]] addsD [OF a1] 2 show ?thesis
        by (auto simp: outcome_def o1 intro!: keeps_locked_one [OF nd])
    qed
  next
    case True
    then obtain s where s: "find_empty_slot keys = Some s" and sw: "sw" by auto
    note E = find_empty_slotD [OF s]
    have cur1: "current ?b ?i keys m1" using LS(2) cur by simp
    then have empty: "cell_bag (cell m1 ?b ?i s) = {#}" using E by (simp add: cell_def current_def)
    define h where "h = th_set (global_bucket_id (c_level c) ?i (if counted then t\<lparr>ht_size := ht_size t + 1\<rparr> else t)) s
      (make_fp T (tr_extract T v)) (ht_hint t)"
    have st': "r = Found ()" "st' = (t\<lparr>ht_hint := h, ht_size := ht_size t + (if counted then 1 else 0)\<rparr>,
        commit_bucket ?b ?i keys s (make_fp T (tr_extract T v)) (write_val ?b ?i s v m1))"
      using e l sw s by (simp_all add: place_into_def Let_def counted_hint h_def)
    have p1: "placed T valid L m1" using addsD [OF a1] by simp
    note S = store_adds [OF n(1,2) conjunct1 [OF E] Bs lay p1 cur1 v n(3) empty st'(2)]
    have "adds T valid L Bs {#v#} (if counted then 1 else 0) (t, m1) st'"
      using S by (simp add: adds_def st'(2))
    from adds_trans [OF a1 this] st' show ?thesis
      by (auto simp: outcome_def o1 intro!: keeps_locked_one [OF nd])
  qed
qed

lemma keeps_locked_after_lock:
  assumes l: "cas_hr b i e (make_locked e) m = (sw, m1)" and nd: "\<not> is_dirty (read_hr b i m 0)"
    and h: "\<And>b' i'. b' \<noteq> b \<or> i' \<noteq> i \<Longrightarrow> is_dirty (read_hr b' i' m1 0) \<Longrightarrow> hm_bucket m' b' i' = hm_bucket m1 b' i'"
  shows "keeps_locked m m'"
  unfolding keeps_locked_def
proof (intro allI impI)
  fix b' i' assume d: "is_dirty (read_hr b' i' m 0)"
  have ne: "b' \<noteq> b \<or> i' \<noteq> i" using d nd by auto
  show "hm_bucket m' b' i' = hm_bucket m b' i'"
    using h [OF ne] cas_hr_other [OF l ne] d by (simp add: read_hr_def)
qed

text \<open>A routine that locks a bucket and tries its slots in turn.\<close>

lemma lock_and_move_spec:
  assumes pl: "placed T valid L (snd st)" and Bs: "c_base c \<in> Bs"
    and e: "lock_and_move c move st = (r, st')"
    and move: "\<And>keys s st1 r1 st2. s < kSlots \<Longrightarrow> placed T valid L (snd st1) \<Longrightarrow>
      current (c_base c) (c_idx c) keys (snd st1) \<Longrightarrow> is_dirty (read_hr (c_base c) (c_idx c) (snd st1) 0) \<Longrightarrow>
      move keys s st1 = (r1, st2) \<Longrightarrow>
      adds T valid L Bs (if r1 then {#v#} else {#}) (if r1 then d else 0) st1 st2 \<and>
      (\<forall>b i. b \<noteq> c_base c \<or> i \<noteq> c_idx c \<or> \<not> r1 \<longrightarrow> is_dirty (read_hr b i (snd st1) 0) \<longrightarrow>
         hm_bucket (snd st2) b i = hm_bucket (snd st1) b i)"
  shows "outcome T valid L Bs r v d st st'"
proof -
  let ?b = "c_base c" and ?i = "c_idx c"
  obtain t m where st: "st = (t, m)" by fastforce
  let ?keys = "read_hr ?b ?i m"
  obtain sw m1 where l: "cas_hr ?b ?i (?keys 0) (make_locked (?keys 0)) m = (sw, m1)" by fastforce
  note LS = lock_still [OF l]
  have a1: "adds T valid L Bs {#} 0 (t, m) (t, m1)" using still_adds [OF LS(1)] Bs pl by (simp add: st)
  show ?thesis
  proof (cases "is_dirty (?keys 0) \<or> \<not> sw")
    case True
    then have "r = False" "st' = st" using e l LS(4) by (auto simp: lock_and_move_def st Let_def split: if_splits)
    then show ?thesis using outcome_refl [OF pl] by simp
  next
    case False
    then have nd: "\<not> is_dirty (?keys 0)" and sw: sw by auto
    obtain r1 t2 m2 where f: "first_success (move ?keys) [0..<kSlots] (t, m1) = (r1, t2, m2)" by (metis surj_pair)
    have st': "r = r1" "st' = (if r1 then (t2, m2) else (t2, unlock_bucket ?b ?i ?keys m2))"
      using e l nd sw f by (auto simp: lock_and_move_def st Let_def split: if_splits)
    have o1: "hm_bucket m1 b' i' = hm_bucket m b' i'" if "b' \<noteq> ?b \<or> i' \<noteq> ?i" for b' i'
      using cas_hr_other [OF l that] .
    note held = keeps_locked_after_lock [OF l nd]
    define P where "P s \<longleftrightarrow> adds T valid L Bs {#} 0 (t, m) s \<and>
      (\<forall>b i. is_dirty (read_hr b i m1 0) \<longrightarrow> hm_bucket (snd s) b i = hm_bucket m1 b i)" for s
    define Q where "Q s \<longleftrightarrow> adds T valid L Bs {#v#} d (t, m) s \<and>
      (\<forall>b i. b \<noteq> ?b \<or> i \<noteq> ?i \<longrightarrow> is_dirty (read_hr b i m1 0) \<longrightarrow> hm_bucket (snd s) b i = hm_bucket m1 b i)" for s
    have step: "(\<not> r3 \<longrightarrow> P s') \<and> (r3 \<longrightarrow> Q s')"
      if "k < kSlots" "P s" "move ?keys k s = (r3, s')" for k s r3 s'
    proof -
      have same: "hm_bucket (snd s) ?b ?i = hm_bucket m1 ?b ?i" using that(2) LS(3) [OF sw] by (simp add: P_def)
      have cur: "current ?b ?i ?keys (snd s)" "is_dirty (read_hr ?b ?i (snd s) 0)"
        using LS(2) [of ?keys] LS(3) [OF sw] same by (simp_all add: current_def read_hr_def)
      have ps: "placed T valid L (snd s)" using that(2) by (simp add: P_def adds_def)
      note M = move [OF that(1) ps cur that(3)]
      have a: "adds T valid L Bs {#} 0 (t, m) s" using that(2) by (simp add: P_def)
      show ?thesis using adds_trans [OF a conjunct1 [OF M]] M that(2)
        by (auto simp: P_def Q_def read_hr_def split: if_splits)
    qed
    have "P (t, m1)" using a1 by (simp add: P_def)
    then have res: "if r1 then Q (t2, m2) else P (t2, m2)"
      by (rule first_success_rule [OF f]) (auto dest: step)
    show ?thesis
    proof (cases r1)
      case True
      then have "adds T valid L Bs {#v#} d (t, m) (t2, m2)" using res by (simp add: Q_def)
      moreover have "keeps_locked m m2"
        using res True by (intro held) (auto simp: Q_def)
      ultimately show ?thesis using True st' by (simp add: outcome_def st)
    next
      case False
      then have a2: "adds T valid L Bs {#} 0 (t, m) (t2, m2)" and
        k2: "\<And>b i. is_dirty (read_hr b i m1 0) \<Longrightarrow> hm_bucket m2 b i = hm_bucket m1 b i" using res by (simp_all add: P_def)
      have "current ?b ?i ?keys m2"
        using LS(2) [of ?keys] k2 [OF LS(3) [OF sw]] by (simp add: current_def read_hr_def)
      then have "still ?b (t2, m2) st'" using st'(2) False by (simp add: unlock_still)
      from adds_trans [OF a2 still_adds [OF this Bs]] addsD [OF a2]
      have "adds T valid L Bs {#} 0 (t, m) st'" by simp
      moreover have "keeps_locked m (snd st')"
        using st'(2) False k2 by (intro held) simp
      ultimately show ?thesis using False st' by (simp add: outcome_def st)
    qed
  qed
qed

text \<open>What may be tried when the alternate bucket of a victim is full must itself place the victim.\<close>

definition child_ok :: "('k, 'v) ht_traits \<Rightarrow> ('v \<Rightarrow> bool) \<Rightarrow> (nat \<times> nat) list \<Rightarrow> nat set \<Rightarrow> nat \<Rightarrow> 'v child \<Rightarrow> bool" where
  "child_ok T valid L Bs b child \<longleftrightarrow>
    (\<forall>f. child = Some f \<longrightarrow> (\<forall>j w st r st'. placed T valid L (snd st) \<longrightarrow> valid w \<longrightarrow>
       goes T L Bs \<lparr>c_level = 0, c_base = b, c_idx = j\<rparr> w \<longrightarrow> f j (make_fp T (tr_extract T w)) w st = (r, st') \<longrightarrow>
       outcome T valid L Bs r w 0 st st'))"

lemma child_ok_None [simp]: "child_ok T valid L Bs b None"
  by (simp add: child_ok_def)

lemma displace_to_spec:
  assumes lay: "layout_ok L" and pl: "placed T valid L (snd st)" and c: "goes T L Bs c w" and w: "valid w"
    and ch: "child_ok T valid L Bs (c_base c) child"
    and e: "displace_to child c (make_fp T (tr_extract T w)) w st = (r, st')"
  shows "outcome T valid L Bs r w 0 st st'"
proof -
  obtain t m where st: "st = (t, m)" by fastforce
  let ?keys = "read_hr (c_base c) (c_idx c) m"
  have pl': "placed T valid L m" using pl by (simp add: st)
  have idle: "outcome T valid L Bs False w 0 st st" by (rule outcome_refl [OF pl])
  show ?thesis
  proof (cases "is_dirty (?keys 0)")
    case True
    then show ?thesis using e idle by (auto simp: displace_to_def st)
  next
    case nd: False
    show ?thesis
    proof (cases "has_empty_slot ?keys")
      case True
      obtain p st1 where p: "place_into False c ?keys (make_fp T (tr_extract T w)) w (t, m) = (p, st1)" by (rule prod.exhaust)
      have "r \<longleftrightarrow> p = Found ()" "st' = st1"
        using e nd True p by (auto simp: displace_to_def st split: probe.splits)
      then show ?thesis using place_into_spec [where valid = valid, OF lay pl' c w current_read nd p] by (simp add: st)
    next
      case full: False
      show ?thesis
      proof (cases child)
        case None
        then show ?thesis using e nd full idle by (auto simp: displace_to_def st)
      next
        case (Some f)
        have "goes T L Bs \<lparr>c_level = 0, c_base = c_base c, c_idx = c_idx c\<rparr> w" using c by (simp add: goes_def)
        moreover have "f (c_idx c) (make_fp T (tr_extract T w)) w st = (r, st')"
          using e nd full Some by (simp add: displace_to_def st)
        ultimately show ?thesis using ch pl w Some unfolding child_ok_def by blast
      qed
    qed
  qed
qed

text \<open>The effect of one slot of a locked bucket: nothing, or its victim has moved and \<open>v\<close> is in its place.\<close>

definition vacates where
  "vacates T valid L Bs c r v d st st' \<longleftrightarrow>
    adds T valid L Bs (if r then {#v#} else {#}) (if r then d else 0) st st' \<and>
    (\<forall>b i. b \<noteq> c_base c \<or> i \<noteq> c_idx c \<or> \<not> r \<longrightarrow> is_dirty (read_hr b i (snd st) 0) \<longrightarrow>
       hm_bucket (snd st') b i = hm_bucket (snd st) b i)"

lemma vacates_False: "vacates T valid L Bs c False v d st st' \<longleftrightarrow> outcome T valid L Bs False w d' st st'"
  by (auto simp: vacates_def outcome_def keeps_locked_def)

lemma place_vacated_spec:
  assumes lay: "layout_ok L" and c: "goes T L Bs c v" and v: "valid v" and s: "s < kSlots"
    and cur: "current (c_base c) (c_idx c) keys (snd st)" and d: "is_dirty (read_hr (c_base c) (c_idx c) (snd st) 0)"
    and cell: "cell (snd st) (c_base c) (c_idx c) s = Some (fp, w)"
    and o: "outcome T valid L Bs True w 0 st st2"
  shows "vacates T valid L Bs c True v (if cnt then 1 else 0) st
    (place_vacated cnt c keys s (make_fp T (tr_extract T v)) v st2)"
proof -
  let ?b = "c_base c" and ?i = "c_idx c"
  obtain t2 m2 where st2: "st2 = (t2, m2)" by fastforce
  obtain n where n: "(?b, n) \<in> set L" "?i < n" "well_placed T n ?i v" and Bs: "?b \<in> Bs" using c by (auto simp: goes_def)
  have k: "is_dirty (read_hr b i (snd st) 0) \<Longrightarrow> hm_bucket m2 b i = hm_bucket (snd st) b i" for b i
    using o by (simp add: outcome_def keeps_locked_def st2)
  have a: "adds T valid L Bs {#w#} 0 st (t2, m2)" using o by (simp add: outcome_def st2)
  have p2: "placed T valid L m2" using addsD [OF a] by simp
  have cur2: "current ?b ?i keys m2" using cur k [OF d] by (simp add: current_def read_hr_def)
  have old: "cell_bag (cell m2 ?b ?i s) = {#w#}"
    using cell k [OF d] by (simp add: cell_def read_hr_def read_val_def split: if_splits)
  define h where "h = th_set (global_bucket_id (c_level c) ?i (if cnt then t2\<lparr>ht_size := ht_size t2 + 1\<rparr> else t2)) s
      (make_fp T (tr_extract T v)) (ht_hint t2)"
  let ?st' = "place_vacated cnt c keys s (make_fp T (tr_extract T v)) v st2"
  have st': "?st' = (t2\<lparr>ht_hint := h, ht_size := ht_size t2 + (if cnt then 1 else 0)\<rparr>,
        commit_bucket ?b ?i keys s (make_fp T (tr_extract T v)) (write_val ?b ?i s v m2))"
    by (simp add: place_vacated_def st2 Let_def counted_hint h_def)
  note S = store_adds [OF n(1,2) s Bs lay p2 cur2 v n(3) old st']
  have "bag L (snd ?st') = bag L (snd st) + {#v#}" using S(2) a by (simp add: adds_def)
  then have "adds T valid L Bs {#v#} (if cnt then 1 else 0) st ?st'"
    using S(3) bucket_frame_trans [OF _ S(1)] a by (simp add: adds_def st')
  then show ?thesis using k by (auto simp: vacates_def st')
qed

lemma cell_current:
  "current b i keys m \<Longrightarrow> slot_fp keys s \<noteq> 0 \<Longrightarrow> cell m b i s = Some (slot_fp keys s, read_val b i s m)"
  by (simp add: cell_def current_def)

lemma idx_less [simp]: "2 \<le> n \<Longrightarrow> f_idx h n < n" "2 \<le> n \<Longrightarrow> s_idx h n < n"
proof -
  assume n: "2 \<le> n"
  then have "unat h mod (n div 2) < n div 2" by simp
  then show "f_idx h n < n" "s_idx h n < n" unfolding f_idx_def s_idx_def by linarith+
qed

lemma goes_other:
  assumes "layout_ok L" "(b, n) \<in> set L" "b \<in> Bs" "h = tr_hash T (tr_extract T w)" "j = f_idx (mix_h1 h) n \<or> j = s_idx (mix_h2 h) n"
  shows "goes T L Bs \<lparr>c_level = l, c_base = b, c_idx = j\<rparr> w"
proof -
  have "2 \<le> n" using assms(1,2) by (auto simp: layout_ok_def)
  then show ?thesis using assms(2-) by (auto simp: goes_def well_placed_def Let_def)
qed

lemma victim:
  assumes "placed T valid L m" "(b, n) \<in> set L" "i < n" "s < kSlots" "cell m b i s = Some (fp, w)"
  shows "valid w" "fp = make_fp T (tr_extract T w)"
  using assms unfolding placed_def by blast+

lemma same_level_slot_spec:
  assumes lay: "layout_ok L" and c: "goes T L Bs c v" and n: "(c_base c, n) \<in> set L" "c_idx c < n" and v: "valid v" and s: "s < kSlots"
    and pl: "placed T valid L (snd st)" and ch: "child_ok T valid L Bs (c_base c) child"
    and cur: "current (c_base c) (c_idx c) keys (snd st)" and d: "is_dirty (read_hr (c_base c) (c_idx c) (snd st) 0)"
    and e: "same_level_slot T child c n (make_fp T (tr_extract T v)) v cnt keys s st = (r, st')"
  shows "vacates T valid L Bs c r v (if cnt then 1 else 0) st st'"
proof -
  let ?w = "read_val (c_base c) (c_idx c) s (snd st)"
  let ?h = "tr_hash T (tr_extract T ?w)"
  let ?j = "if c_idx c < n div 2 then s_idx (mix_h2 ?h) n else f_idx (mix_h1 ?h) n"
  show ?thesis
  proof (cases "slot_fp keys s = 0 \<or> ?j = c_idx c")
    case True
    then have "(False, st) = (r, st')"
      unfolding e [symmetric] by (elim disjE) (simp_all add: same_level_slot_def Let_def)
    then show ?thesis using outcome_refl [OF pl] by (auto simp: vacates_False [where w = v and d' = 0])
  next
    case False
    note cell = cell_current [OF cur, of s]
    have w: "cell (snd st) (c_base c) (c_idx c) s = Some (slot_fp keys s, ?w)" using cell False by simp
    note V = victim [OF pl n s w]
    have "goes T L Bs \<lparr>c_level = 0, c_base = c_base c, c_idx = ?j\<rparr> ?w"
      by (rule goes_other [OF lay n(1)]) (use c in \<open>auto simp: goes_def\<close>)
    then have g: "goes T L Bs (c\<lparr>c_idx := ?j\<rparr>) ?w" by (simp add: goes_def)
    obtain r1 st1 where x: "displace_to child (c\<lparr>c_idx := ?j\<rparr>) (make_fp T (tr_extract T ?w)) ?w st = (r1, st1)" by (rule prod.exhaust)
    have o: "outcome T valid L Bs r1 ?w 0 st st1" by (rule displace_to_spec [OF lay pl g V(1) _ x]) (simp add: ch)
    have "r = r1" "st' = (if r1 then place_vacated cnt c keys s (make_fp T (tr_extract T v)) v st1 else st1)"
      using e x False V(2) by (auto simp: same_level_slot_def Let_def split: if_splits)
    then show ?thesis
      using place_vacated_spec [where valid = valid, OF lay c v s cur d w, of st1 cnt] o
      by (cases r1) (simp_all add: vacates_False [where w = ?w and d' = 0])
  qed
qed

lemma b2t_slot_spec:
  assumes lay: "layout_ok L" and c: "goes T L Bs c v" and tl: "(tlb, tl_n) \<in> set L" "tlb \<in> Bs" and v: "valid v" and s: "s < kSlots"
    and pl: "placed T valid L (snd st)" and ch: "child_ok T valid L Bs tlb child"
    and cur: "current (c_base c) (c_idx c) keys (snd st)" and d: "is_dirty (read_hr (c_base c) (c_idx c) (snd st) 0)"
    and e: "b2t_slot T child c tlb tl_n (make_fp T (tr_extract T v)) v cnt keys s st = (r, st')"
  shows "vacates T valid L Bs c r v (if cnt then 1 else 0) st st'"
proof (cases "slot_fp keys s = 0")
  case True
  then have "r = False" "st' = st" using e by (auto simp: b2t_slot_def Let_def)
  then show ?thesis using outcome_refl [OF pl] by (simp add: vacates_False [where w = v and d' = 0])
next
  case False
  let ?w = "read_val (c_base c) (c_idx c) s (snd st)"
  let ?h = "tr_hash T (tr_extract T ?w)"
  obtain n where n: "(c_base c, n) \<in> set L" "c_idx c < n" using c by (auto simp: goes_def)
  have w: "cell (snd st) (c_base c) (c_idx c) s = Some (slot_fp keys s, ?w)" using cell_current [OF cur False] .
  note V = victim [OF pl n s w]
  let ?f = "\<lambda>tl_bi st. case displace_to child \<lparr>c_level = 0, c_base = tlb, c_idx = tl_bi\<rparr> (slot_fp keys s) ?w st of
    (moved, st) \<Rightarrow> if moved then (True, place_vacated cnt c keys s (make_fp T (tr_extract T v)) v st) else (False, st)"
  have step: "(\<not> r2 \<longrightarrow> outcome T valid L Bs False ?w 0 st st2) \<and>
      (r2 \<longrightarrow> vacates T valid L Bs c True v (if cnt then 1 else 0) st st2)"
    if j: "j \<in> {f_idx (mix_h1 ?h) tl_n, s_idx (mix_h2 ?h) tl_n}" and o1: "outcome T valid L Bs False ?w 0 st st1"
      and f: "?f j st1 = (r2, st2)" for j st1 r2 st2
  proof -
    have g: "goes T L Bs \<lparr>c_level = 0, c_base = tlb, c_idx = j\<rparr> ?w"
      by (rule goes_other [OF lay tl refl]) (use j in auto)
    obtain r3 st3 where x: "displace_to child \<lparr>c_level = 0, c_base = tlb, c_idx = j\<rparr> (make_fp T (tr_extract T ?w)) ?w st1 = (r3, st3)"
      by (rule prod.exhaust)
    have "outcome T valid L Bs r3 ?w 0 st1 st3"
      by (rule displace_to_spec [OF lay outcomeD [OF o1] g V(1) _ x]) (simp add: ch)
    note o3 = outcome_trans [OF o1 this]
    have "r2 = r3" "st2 = (if r3 then place_vacated cnt c keys s (make_fp T (tr_extract T v)) v st3 else st3)"
      using f x V(2) by (auto split: if_splits)
    then show ?thesis using place_vacated_spec [where valid = valid, OF lay c v s cur d w, of st3 cnt] o3 by auto
  qed
  have fs: "first_success ?f [f_idx (mix_h1 ?h) tl_n, s_idx (mix_h2 ?h) tl_n] st = (r, st')"
    using e False by (simp add: b2t_slot_def Let_def)
  have "if r then vacates T valid L Bs c True v (if cnt then 1 else 0) st st' else outcome T valid L Bs False ?w 0 st st'"
  proof (rule first_success_rule [OF fs, where P = "outcome T valid L Bs False ?w 0 st"], goal_cases)
    case 1
    then show ?case by (rule outcome_refl [OF pl])
  next
    case (2 j st1 st2)
    then show ?case using step [OF _ 2(2,3)] by simp
  next
    case (3 j st1 st2)
    then show ?case using step [OF _ 3(2,3)] by simp
  qed
  then show ?thesis by (cases r) (simp_all add: vacates_False [where w = ?w and d' = 0])
qed

lemma same_level_spec:
  assumes lay: "layout_ok L" and pl: "placed T valid L (snd st)" and c: "goes T L Bs c v" and n: "(c_base c, n) \<in> set L"
    and v: "valid v" and ch: "child_ok T valid L Bs (c_base c) child"
    and e: "same_level_movement_and_place T child c n (make_fp T (tr_extract T v)) v cnt st = (r, st')"
  shows "outcome T valid L Bs r v (if cnt then 1 else 0) st st'"
proof (rule lock_and_move_spec [OF pl _ e [unfolded same_level_movement_and_place_def]], goal_cases)
  case 1
  then show ?case using c by (simp add: goes_def)
next
  case (2 keys s st1 r1 st2)
  have "n' = n" if "(c_base c, n') \<in> set L" for n'
    using lay that n by (auto simp: layout_ok_def dest: eq_key_imp_eq_value)
  then have i: "c_idx c < n" using c by (auto simp: goes_def)
  show ?case using same_level_slot_spec [where valid = valid, OF lay c n i v 2(1,2) ch 2(3-5)] by (simp add: vacates_def)
qed

lemma b2t_spec:
  assumes lay: "layout_ok L" and pl: "placed T valid L (snd st)" and c: "goes T L Bs c v"
    and tl: "(tlb, tl_n) \<in> set L" "tlb \<in> Bs"
    and v: "valid v" and ch: "child_ok T valid L Bs tlb child"
    and e: "b2t_movement_and_place T child c tlb tl_n (make_fp T (tr_extract T v)) v cnt st = (r, st')"
  shows "outcome T valid L Bs r v (if cnt then 1 else 0) st st'"
proof (rule lock_and_move_spec [OF pl _ e [unfolded b2t_movement_and_place_def]], goal_cases)
  case 1
  then show ?case using c by (simp add: goes_def)
next
  case (2 keys s st1 r1 st2)
  show ?case using b2t_slot_spec [where valid = valid, OF lay c tl v 2(1,2) ch 2(3-5)] by (simp add: vacates_def)
qed

text \<open>The candidates of a key, against the layout of the table.\<close>

definition cands_ok :: "('k, 'v) ht_traits \<Rightarrow> (nat \<times> nat) list \<Rightarrow> nat set \<Rightarrow> Candidates \<Rightarrow> 'v \<Rightarrow> bool" where
  "cands_ok T L Bs cands v \<longleftrightarrow>
    (\<forall>c\<in>set (cs_list cands). c_level c \<le> 2 \<and> (c_level c \<noteq> 2 \<longrightarrow> goes T L Bs c v \<and>
       (c_base c, if c_level c = 0 then cs_tl_n cands else cs_bl_n cands) \<in> set L)) \<and>
    (\<exists>c\<in>set (cs_list cands). c_level c = 0)"

lemma first_top:
  assumes "cands_ok T L Bs cands v"
  obtains c where "List.find (\<lambda>c. c_level c = 0) (cs_list cands) = Some c" "(c_base c, cs_tl_n cands) \<in> set L" "c_base c \<in> Bs"
proof -
  obtain c where c: "List.find (\<lambda>c. c_level c = 0) (cs_list cands) = Some c"
    using assms by (cases "List.find (\<lambda>c. c_level c = 0) (cs_list cands)") (auto simp: cands_ok_def find_None_iff)
  then have "c \<in> set (cs_list cands)" "c_level c = 0" by (auto simp: find_Some_iff)
  then show ?thesis using that [OF c] assms by (auto simp: cands_ok_def goes_def)
qed

lemma b2t_child_ok:
  assumes "layout_ok L" "(tlb, tl_n) \<in> set L" "tlb \<in> Bs"
  shows "child_ok T valid L Bs tlb (b2t_child T tlb tl_n)"
  unfolding child_ok_def b2t_child_def
  using same_level_spec [where valid = valid and cnt = False and L = L and T = T and child = None] assms by force

lemma same_level_child_ok:
  assumes lay: "layout_ok L" and cands: "cands_ok T L Bs cands v" and n: "(c_base c, n) \<in> set L"
  shows "child_ok T valid L Bs (c_base c) (same_level_child T cands c n)"
proof -
  obtain c' where c': "List.find (\<lambda>c. c_level c = 0) (cs_list cands) = Some c'" "(c_base c', cs_tl_n cands) \<in> set L" "c_base c' \<in> Bs"
    by (rule first_top [OF cands])
  show ?thesis
    unfolding child_ok_def same_level_child_def
  proof (intro allI impI, clarify)
    fix j w st t' m' r
    let ?c = "c\<lparr>c_idx := j\<rparr>"
    assume h: "placed T valid L (snd st)" "valid w" and g0: "goes T L Bs \<lparr>c_level = 0, c_base = c_base c, c_idx = j\<rparr> w"
      and e: "(case same_level_movement_and_place T None ?c n (make_fp T (tr_extract T w)) w False st of
        (ok, st) \<Rightarrow> if ok then (True, st) else if c_level c = 1 then
           (case List.find (\<lambda>c'. c_level c' = 0) (cs_list cands) of None \<Rightarrow> (False, st)
            | Some c' \<Rightarrow> b2t_movement_and_place T None ?c (c_base c') (cs_tl_n cands) (make_fp T (tr_extract T w)) w False st)
         else (False, st)) = (r, t', m')"
    have g: "goes T L Bs ?c w" and n': "(c_base ?c, n) \<in> set L" using g0 n by (simp_all add: goes_def)
    obtain r1 st1 where s1: "same_level_movement_and_place T None ?c n (make_fp T (tr_extract T w)) w False st = (r1, st1)"
      by (rule prod.exhaust)
    have o1: "outcome T valid L Bs r1 w 0 st st1"
      using same_level_spec [where valid = valid, OF lay h(1) g n' h(2) _ s1] by simp
    show "outcome T valid L Bs r w 0 st (t', m')"
    proof (cases "\<not> r1 \<and> c_level c = 1")
      case False
      then show ?thesis using e s1 o1 by (auto split: if_splits)
    next
      case True
      then have "b2t_movement_and_place T None ?c (c_base c') (cs_tl_n cands) (make_fp T (tr_extract T w)) w False st1 = (r, t', m')"
        using e s1 c'(1) by simp
      from b2t_spec [where valid = valid, OF lay outcomeD [OF o1] g c'(2,3) h(2) _ this]
      show ?thesis using True outcome_trans o1 by fastforce
    qed
  qed
qed

lemma try_migrate_and_insert_spec:
  assumes lay: "layout_ok L" and pl: "placed T valid L (snd st)" and v: "valid v" and cands: "cands_ok T L Bs cands v"
    and e: "try_migrate_and_insert T v (make_fp T (tr_extract T v)) cands st = (r, st')"
  shows "outcome T valid L Bs r v 1 st st'"
proof -
  obtain c' where c': "List.find (\<lambda>c. c_level c = 0) (cs_list cands) = Some c'" "(c_base c', cs_tl_n cands) \<in> set L" "c_base c' \<in> Bs"
    by (rule first_top [OF cands])
  let ?cs = "filter (\<lambda>c. c_level c \<noteq> 2) (cs_list cands)" and ?bl = "filter (\<lambda>c. c_level c = 1) (cs_list cands)"
  let ?n = "\<lambda>c. if c_level c = 0 then cs_tl_n cands else cs_bl_n cands"
  let ?fp = "make_fp T (tr_extract T v)"
  let ?A = "\<lambda>c. same_level_movement_and_place T None c (?n c) ?fp v True"
  let ?B = "\<lambda>c. b2t_movement_and_place T None c (c_base c') (cs_tl_n cands) ?fp v True"
  let ?C = "\<lambda>c. same_level_movement_and_place T (same_level_child T cands c (?n c)) c (?n c) ?fp v True"
  let ?D = "\<lambda>c. b2t_movement_and_place T (b2t_child T (c_base c') (cs_tl_n cands)) c (c_base c') (cs_tl_n cands) ?fp v True"
  have cs: "goes T L Bs c v \<and> (c_base c, ?n c) \<in> set L" if "c \<in> set ?cs \<or> c \<in> set ?bl" for c
    using cands that by (auto simp: cands_ok_def)
  obtain ra sa where a: "first_success ?A ?cs st = (ra, sa)" by (rule prod.exhaust)
  obtain rb sb where b: "first_success ?B ?bl sa = (rb, sb)" by (rule prod.exhaust)
  obtain rc sc where cc: "first_success ?C ?cs sb = (rc, sc)" by (rule prod.exhaust)
  have A: "outcome T valid L Bs ra v 1 st sa"
    by (rule first_success_outcome [OF a pl]) (use cs same_level_spec [where valid = valid and cnt = True, OF lay _ _ _ v] in force)
  have B: "outcome T valid L Bs rb v 1 sa sb"
    by (rule first_success_outcome [OF b outcomeD [OF A]]) (use cs b2t_spec [where valid = valid and cnt = True, OF lay _ _ c'(2,3) v] in force)
  have C: "outcome T valid L Bs rc v 1 sb sc"
    by (rule first_success_outcome [OF cc outcomeD [OF B]])
      (use cs same_level_spec [where valid = valid and cnt = True, OF lay _ _ _ v same_level_child_ok [OF lay cands]] in force)
  have D: "outcome T valid L Bs rd v 1 sc sd" if d: "first_success ?D ?bl sc = (rd, sd)" for rd sd
    by (rule first_success_outcome [OF d outcomeD [OF C]])
      (use cs b2t_spec [where valid = valid and cnt = True, OF lay _ _ c'(2,3) v b2t_child_ok [OF lay c'(2,3)]] in force)
  obtain rd sd where d: "first_success ?D ?bl sc = (rd, sd)" by (rule prod.exhaust)
  have "if ra then r \<and> st' = sa else if rb then r \<and> st' = sb
    else if list_ex (\<lambda>c. c_level c = 2) (cs_list cands) then (if rc then r \<and> st' = sc else r = rd \<and> st' = sd)
    else \<not> r \<and> st' = sb"
    using e unfolding try_migrate_and_insert_def Let_def c'(1) option.case a prod.case b cc d
    by (simp split: if_splits)
  then show ?thesis
    using A outcome_trans [of T valid L Bs v 1 st] B C D [OF d] by (simp split: if_splits) blast+
qed

section \<open>The passes of an insertion\<close>

lemma wait_spin_iff: "wait_spin n b i m \<longleftrightarrow> 0 < n \<and> \<not> is_dirty (read_hr b i m 0)"
  by (induction n) auto

text \<open>With nobody else running, the wait for a bucket always ends with the bucket free, if need be by
  clearing the dirty bit.\<close>

lemma wait_for_unlock_spec:
  assumes "wait_for_unlock b i m = (ready, keys, m')"
  shows "ready" "keys = read_hr b i m'" "\<not> is_dirty (read_hr b i m' 0)" "still b (t, m) (t, m')"
proof -
  obtain sw m1 where c: "cas_hr b i (read_hr b i m 0) (read_hr b i m 0 AND NOT ht_kDirtyBit) m = (sw, m1)" by (rule prod.exhaust)
  have free: "\<not> is_dirty (read_hr b i m1 0)" using c by (auto simp: cas_hr_def)
  have st: "still b (t, m) (t, m1)"
    using cas_hr_cell(1) [OF c] cas_hr_frame [OF c] by (simp add: still_def)
  have "if \<not> is_dirty (read_hr b i m 0) then ready \<and> keys = read_hr b i m \<and> m' = m
    else ready \<and> keys = read_hr b i m1 \<and> m' = m1"
    using assms free by (auto simp: wait_for_unlock_def wait_spin_iff Let_def c split: if_splits)
  then show "ready" "keys = read_hr b i m'" "\<not> is_dirty (read_hr b i m' 0)" "still b (t, m) (t, m')"
    using free st by (auto simp: still_def split: if_splits)
qed

text \<open>A routine \<open>place\<close> that, given a current snapshot of a free bucket, adds \<open>v\<close> or nothing.\<close>

definition placer where
  "placer T valid L Bs v d place c \<longleftrightarrow> c_base c \<in> Bs \<and>
    (\<forall>t m keys r st'. placed T valid L m \<longrightarrow> current (c_base c) (c_idx c) keys m \<longrightarrow>
       \<not> is_dirty (read_hr (c_base c) (c_idx c) m 0) \<longrightarrow> place c keys (t, m) = (r, st') \<longrightarrow>
       outcome T valid L Bs (r = Found ()) v d (t, m) st')"

lemma placerD:
  "placer T valid L Bs v d place c \<Longrightarrow> placed T valid L m \<Longrightarrow> current (c_base c) (c_idx c) keys m \<Longrightarrow>
    \<not> is_dirty (read_hr (c_base c) (c_idx c) m 0) \<Longrightarrow> place c keys (t, m) = (r, st') \<Longrightarrow>
    outcome T valid L Bs (r = Found ()) v d (t, m) st'"
  unfolding placer_def by blast

lemma placer_place_into:
  assumes "layout_ok L" "goes T L Bs c v" "valid v"
  shows "placer T valid L Bs v (if counted then 1 else 0) (\<lambda>c keys. place_into counted c keys (make_fp T (tr_extract T v)) v) c"
  unfolding placer_def using place_into_spec [OF assms(1) _ assms(2), of valid] assms by (auto simp: goes_def)

lemma insert_pass1_spec:
  assumes "insert_pass1 place cs st = (r, con, st')" "placed T valid L (snd st)"
    "\<And>c. c \<in> set cs \<Longrightarrow> c_level c \<noteq> 2 \<Longrightarrow> placer T valid L Bs v d place c"
  shows "outcome T valid L Bs r v d st st' \<and> set con \<subseteq> {c \<in> set cs. c_level c \<noteq> 2}"
  using assms
proof (induction cs arbitrary: st r con st')
  case Nil
  then show ?case by (auto intro: outcome_refl)
next
  case (Cons c cs)
  obtain t m where s: "st = (t, m)" by fastforce
  let ?keys = "read_hr (c_base c) (c_idx c) m"
  have IH: "outcome T valid L Bs r v d st1 st' \<and> set con \<subseteq> {c \<in> set cs. c_level c \<noteq> 2}"
    if "insert_pass1 place cs st1 = (r, con, st')" "placed T valid L (snd st1)" for st1 r con st'
    using Cons.IH [OF that] Cons.prems(3) by simp
  consider (skip) "c_level c = 2 \<or> \<not> is_dirty (?keys 0) \<and> \<not> has_empty_slot ?keys" | (locked) "c_level c \<noteq> 2" "is_dirty (?keys 0)"
    | (free) "c_level c \<noteq> 2" "\<not> is_dirty (?keys 0)" "has_empty_slot ?keys" by blast
  then show ?case
  proof cases
    case skip
    then have "insert_pass1 place cs st = (r, con, st')" using Cons.prems(1) by (auto simp: s Let_def split: if_splits)
    then show ?thesis using IH Cons.prems(2) by fastforce
  next
    case locked
    obtain con' where "insert_pass1 place cs st = (r, con', st')" "con = c # con'"
      using Cons.prems(1) locked by (auto simp: s Let_def split: prod.splits)
    then show ?thesis using IH Cons.prems(2) locked by fastforce
  next
    case free
    obtain r1 st1 where p: "place c ?keys (t, m) = (r1, st1)" by (rule prod.exhaust)
    have o: "outcome T valid L Bs (r1 = Found ()) v d st st1"
      using placerD [OF Cons.prems(3) _ current_read _ p] Cons.prems(2) free by (simp add: s)
    show ?thesis
    proof (cases "r1 = Found ()")
      case True
      then show ?thesis using Cons.prems(1) free p o by (auto simp: s Let_def)
    next
      case False
      then obtain con' where c': "insert_pass1 place cs st1 = (r, con', st')" "set con \<subseteq> insert c (set con')"
        using Cons.prems(1) free p by (auto simp: s Let_def split: prod.splits probe.splits)
      then show ?thesis using IH [OF c'(1) outcomeD [OF o]] o False free outcome_trans by fastforce
    qed
  qed
qed

lemma insert_retry_spec:
  assumes "insert_retry place n c st = (r, st')" "placed T valid L (snd st)" "placer T valid L Bs v d place c"
  shows "adds T valid L Bs (if r then {#v#} else {#}) (if r then d else 0) st st'"
  using assms
proof (induction n arbitrary: st r st')
  case 0
  then show ?case by (auto intro: adds_refl)
next
  case (Suc n)
  obtain t m where st: "st = (t, m)" by fastforce
  let ?b = "c_base c" and ?i = "c_idx c"
  obtain ready keys m1 where w: "(if is_dirty (read_hr ?b ?i m 0) then wait_for_unlock ?b ?i m else (True, read_hr ?b ?i m, m)) = (ready, keys, m1)"
    by (metis surj_pair)
  have W: "ready" "keys = read_hr ?b ?i m1" "\<not> is_dirty (read_hr ?b ?i m1 0)" "still ?b (t, m) (t, m1)"
    using w wait_for_unlock_spec [of ?b ?i m ready keys m1] by (auto simp: still_def split: if_splits)
  have a1: "adds T valid L Bs {#} 0 (t, m) (t, m1)"
    by (rule still_adds [OF W(4)]) (use Suc.prems(2,3) in \<open>simp_all add: placer_def st\<close>)
  obtain r1 st1 where p: "place c keys (t, m1) = (r1, st1)" by (rule prod.exhaust)
  show ?case
  proof (cases "has_empty_slot keys")
    case False
    then have "r = False" "st' = (t, m1)" using Suc.prems(1) w W(1) by (auto simp: st Let_def)
    then show ?thesis using a1 by (simp add: st)
  next
    case True
    have "outcome T valid L Bs (r1 = Found ()) v d (t, m1) st1"
      using placerD [OF Suc.prems(3) _ _ _ p] W addsD [OF a1] by simp
    from adds_trans [OF a1 conjunct1 [OF this [unfolded outcome_def]]]
    have a2: "adds T valid L Bs (if r1 = Found () then {#v#} else {#}) (if r1 = Found () then d else 0) st st1"
      by (simp add: st)
    show ?thesis
    proof (cases r1)
      case Busy
      then have e: "insert_retry place n c st1 = (r, st')" using Suc.prems(1) w W(1) True p by (simp add: st Let_def)
      have "adds T valid L Bs (if r then {#v#} else {#}) (if r then d else 0) st1 st'"
        using Suc.IH [OF e addsD [OF a2] Suc.prems(3)] by simp
      then show ?thesis using adds_trans a2 Busy by fastforce
    qed (use Suc.prems(1) w W(1) True p a2 in \<open>auto simp: st Let_def\<close>)
  qed
qed

lemma insert_passes_spec:
  assumes e: "insert_passes place cs st = (r, st')" and pl: "placed T valid L (snd st)"
    and p: "\<And>c. c \<in> set cs \<Longrightarrow> c_level c \<noteq> 2 \<Longrightarrow> placer T valid L Bs v d place c"
  shows "adds T valid L Bs (if r then {#v#} else {#}) (if r then d else 0) st st'"
proof -
  obtain r1 con st1 where p1: "insert_pass1 place cs st = (r1, con, st1)" by (metis surj_pair)
  note S = insert_pass1_spec [OF p1 pl p]
  then have a1: "adds T valid L Bs (if r1 then {#v#} else {#}) (if r1 then d else 0) st st1" by (simp add: outcome_def)
  show ?thesis
  proof (cases r1)
    case True
    then show ?thesis using e p1 a1 by (auto simp: insert_passes_def)
  next
    case False
    then have f: "first_success (insert_retry place 3) con st1 = (r, st')" using e p1 by (simp add: insert_passes_def)
    let ?A = "\<lambda>r. adds T valid L Bs (if r then {#v#} else {#}) (if r then d else 0) st"
    have step: "?A r3 s'" if "c \<in> set con" "?A False s" "insert_retry place 3 c s = (r3, s')" for c s r3 s'
    proof -
      have "placer T valid L Bs v d place c" using S that(1) p by blast
      from insert_retry_spec [OF that(3) _ this] that(2)
      show ?thesis using adds_trans [of T valid L Bs "{#}" 0 st s] by (fastforce dest: addsD)
    qed
    have "if r then ?A True st' else ?A False st'"
      by (rule first_success_rule [OF f, where P = "?A False" and Q = "?A True"])
        (use a1 False in simp, (erule (2) step)+)
    then show ?thesis by (simp split: if_splits)
  qed
qed

lemma get_candidates_ok:
  assumes "layout_ok (levels t)"
  shows "cands_ok T (levels t) {ht_tl_offset t, ht_bl_offset t} (get_candidates T (tr_extract T v) t) v"
proof -
  have "2 \<le> ht_tl_n t" "2 \<le> ht_bl_n t" using assms by (auto simp: layout_ok_def levels_def)
  then show ?thesis
    by (auto simp: cands_ok_def get_candidates_def goes_def levels_def well_placed_def Let_def)
qed

lemma candidate_goes:
  "cands_ok T L Bs cands v \<Longrightarrow> c \<in> set (cs_list cands) \<Longrightarrow> c_level c \<noteq> 2 \<Longrightarrow> goes T L Bs c v"
  by (simp add: cands_ok_def)

lemma frame_levels: "bucket_frame Bs st st' \<Longrightarrow> levels (fst st') = levels (fst st)"
  by (auto simp: bucket_frame_def levels_def)

abbreviation cur_levels :: "ht \<Rightarrow> nat set" where
  "cur_levels t \<equiv> {ht_tl_offset t, ht_bl_offset t}"

text \<open>An insertion adds the value and counts it, or reports failure and leaves the bag alone.\<close>

lemma insert_impl_spec:
  assumes lay: "layout_ok (levels (fst st))" and pl: "placed T valid (levels (fst st)) (snd st)" and v: "valid v"
    and e: "insert_impl T (tr_extract T v) v st = (r, st')"
  shows "adds T valid (levels (fst st)) (cur_levels (fst st)) (if r then {#v#} else {#}) (if r then 1 else 0) st st'"
proof -
  let ?L = "levels (fst st)" and ?Bs = "cur_levels (fst st)" and ?fp = "make_fp T (tr_extract T v)"
  let ?cands = "get_candidates T (tr_extract T v) (fst st)"
  note C = get_candidates_ok [OF lay, of T v]
  obtain r1 st1 where p: "insert_passes (\<lambda>c keys. try_insert_into c keys ?fp v) (cs_list ?cands) st = (r1, st1)" by (rule prod.exhaust)
  have a1: "adds T valid ?L ?Bs (if r1 then {#v#} else {#}) (if r1 then 1 else 0) st st1"
    by (rule insert_passes_spec [OF p pl])
      (use placer_place_into [where counted = True and valid = valid, OF lay candidate_goes [OF C] v] in \<open>simp add: try_insert_into_def\<close>)
  show ?thesis
  proof (cases r1)
    case True
    then show ?thesis using e p a1 by (auto simp: insert_impl_def Let_def)
  next
    case False
    then have "try_migrate_and_insert T v ?fp ?cands st1 = (r, st')" using e p by (simp add: insert_impl_def Let_def)
    from try_migrate_and_insert_spec [where valid = valid, OF lay addsD [OF a1] v C this] show ?thesis
      using adds_trans a1 False by (fastforce simp: outcome_def)
  qed
qed

lemma insert_to_new_layout_spec:
  assumes lay: "layout_ok (levels (fst st))" and pl: "placed T valid (levels (fst st)) (snd st)" and v: "valid v"
    and e: "insert_to_new_layout T (make_fp T (tr_extract T v)) v st = (r, st')"
  shows "adds T valid (levels (fst st)) (cur_levels (fst st)) (if r then {#v#} else {#}) 0 st st'"
proof -
  let ?L = "levels (fst st)" and ?Bs = "cur_levels (fst st)" and ?fp = "make_fp T (tr_extract T v)"
  let ?cands = "get_candidates T (tr_extract T v) (fst st)"
  note C = get_candidates_ok [OF lay, of T v]
  obtain r1 st1 where p: "insert_passes (\<lambda>c keys. place_into False c keys ?fp v) (cs_list ?cands) st = (r1, st1)" by (rule prod.exhaust)
  have a1: "adds T valid ?L ?Bs (if r1 then {#v#} else {#}) (if r1 then 0 else 0) st st1"
    by (rule insert_passes_spec [OF p pl])
      (use placer_place_into [where counted = False and valid = valid, OF lay candidate_goes [OF C] v] in simp)
  obtain r2 t2 m2 where tm: "try_migrate_and_insert T v ?fp ?cands st1 = (r2, t2, m2)" by (metis surj_pair)
  have a2: "adds T valid ?L ?Bs (if r2 then {#v#} else {#}) (if r2 then 1 else 0) st1 (t2, m2)"
    using try_migrate_and_insert_spec [where valid = valid, OF lay addsD [OF a1] v C tm] by (simp add: outcome_def)
  show ?thesis
  proof (cases r1)
    case True
    then show ?thesis using e p a1 by (auto simp: insert_to_new_layout_def Let_def)
  next
    case False
    then have r: "r = r2" "st' = (if r2 then (t2\<lparr>ht_size := ht_size t2 - 1\<rparr>, m2) else (t2, m2))"
      using e p tm by (auto simp: insert_to_new_layout_def Let_def split: if_splits)
    have a: "adds T valid ?L ?Bs (if r2 then {#v#} else {#}) (if r2 then 1 else 0) st (t2, m2)"
      using adds_trans a1 a2 False by fastforce
    have "bucket_frame ?Bs (t2, m2) (t2\<lparr>ht_size := ht_size t2 - 1\<rparr>, m2)"
      by (rule bucket_frameI [where h = "ht_hint t2" and z = "ht_size t2 - 1" and B = "hm_bucket m2"]) simp_all
    from bucket_frame_trans [OF _ this, of st] show ?thesis using r a by (cases r2) (simp_all add: adds_def)
  qed
qed

end
