(* ===== verification/LevelHashtableProbe.thy ===== *)
theory LevelHashtableProbe
  imports LevelHashtableInsert
begin

text \<open>
  Lookup, update and erase in the level hash table. The locale \<open>prober\<close> is the contract of the routines
  that work on one candidate bucket; the four phases are proved once over it: they always return, and
  they decide whether the table holds the key. The locale \<open>key_traits\<close> states what the table needs of its
  key traits and is interpreted on those of directory entries and of inodes.
\<close>

unbundle bit_operations_syntax

section \<open>What the phases of a probe achieve\<close>

text \<open>A step that leaves all cells and the element count alone.\<close>

definition quiet :: "nat set \<Rightarrow> 'v hts \<Rightarrow> 'v hts \<Rightarrow> bool" where
  "quiet Bs st st' \<longleftrightarrow> bucket_frame Bs st st' \<and> cell (snd st') = cell (snd st) \<and> ht_size (fst st') = ht_size (fst st)"

lemma quiet_refl [simp]: "quiet Bs st st"
  by (simp add: quiet_def)

lemma quiet_trans: "quiet Bs st st' \<Longrightarrow> quiet Bs st' st'' \<Longrightarrow> quiet Bs st st''"
  by (auto simp: quiet_def intro: bucket_frame_trans)

lemma still_quiet: "still b st st' \<Longrightarrow> b \<in> Bs \<Longrightarrow> quiet Bs st st'"
  by (auto simp: still_def quiet_def intro: frame_mono)

lemma quiet_bag:
  assumes "quiet Bs st st'"
  shows "bag L (snd st') = bag L (snd st)" "placed T valid L (snd st') = placed T valid L (snd st)"
  using bag_cong [of L "snd st'" "snd st"] placed_cong [of L "snd st'" "snd st"] assms by (simp_all add: quiet_def)

text \<open>The contract of the routines that \<open>find\<close>, \<open>update\<close> and \<open>erase\<close> run on one candidate: a result is
  the operation done (\<open>hit\<close>), and no result means that the bucket does not hold the key, unless it was
  locked. The last phase is only a second look.\<close>

locale prober =
  fixes Bs :: "nat set" and inv :: "'v hts \<Rightarrow> bool" and ok :: "cand \<Rightarrow> bool" and holds :: "'v hmem \<Rightarrow> cand \<Rightarrow> bool"
    and hit :: "'a \<Rightarrow> 'v hts \<Rightarrow> 'v hts \<Rightarrow> bool"
    and try_hinted :: "cand \<Rightarrow> 'v hts \<Rightarrow> 'a probe \<times> 'v hts" and attempt :: "cand \<Rightarrow> 'v hts \<Rightarrow> 'a probe \<times> 'v hts"
    and retry :: "cand \<Rightarrow> 'v hts \<Rightarrow> ('a option \<times> 'v hts) option" and try_last :: "cand \<Rightarrow> 'v hts \<Rightarrow> 'a probe \<times> 'v hts"
  assumes inv_quiet: "inv st \<Longrightarrow> quiet Bs st st' \<Longrightarrow> inv st'"
    and holds_quiet: "quiet Bs st st' \<Longrightarrow> holds (snd st') c = holds (snd st) c"
    and hit_quiet: "quiet Bs st st1 \<Longrightarrow> hit a st1 st' \<Longrightarrow> hit a st st'"
    and try_ok: "ok c \<Longrightarrow> inv st \<Longrightarrow> f \<in> {try_hinted, attempt} \<Longrightarrow> f c st = (r, st') \<Longrightarrow>
      (case r of Found a \<Rightarrow> hit a st st' | NotFound \<Rightarrow> quiet Bs st st' \<and> \<not> holds (snd st) c | Busy \<Rightarrow> quiet Bs st st')"
    and try_last_ok: "ok c \<Longrightarrow> inv st \<Longrightarrow> try_last c st = (r, st') \<Longrightarrow>
      (case r of Found a \<Rightarrow> hit a st st' | NotFound \<Rightarrow> quiet Bs st st' | Busy \<Rightarrow> quiet Bs st st')"
    and retry_ok: "ok c \<Longrightarrow> inv st \<Longrightarrow> \<exists>r st'. retry c st = Some (r, st') \<and>
      (case r of Some a \<Rightarrow> hit a st st' | None \<Rightarrow> quiet Bs st st' \<and> \<not> holds (snd st) c)"
begin

definition settles :: "(cand \<Rightarrow> bool) \<Rightarrow> 'a option \<Rightarrow> 'v hts \<Rightarrow> 'v hts \<Rightarrow> bool" where
  "settles P r st st' \<longleftrightarrow>
    (case r of Some a \<Rightarrow> hit a st st' | None \<Rightarrow> quiet Bs st st' \<and> (\<forall>c. P c \<longrightarrow> \<not> holds (snd st) c))"

lemma settles_after: "quiet Bs st st1 \<Longrightarrow> settles P r st1 st' \<Longrightarrow> settles P r st st'"
  by (auto simp: settles_def holds_quiet split: option.splits intro: hit_quiet quiet_trans)

lemma settles_mono:
  "settles P r st st' \<Longrightarrow> (\<And>c. Q c \<Longrightarrow> P c \<or> \<not> holds (snd st) c) \<Longrightarrow> settles Q r st st'"
  by (auto simp: settles_def split: option.splits)

lemma probe_phase_spec:
  assumes "probe_phase guard f cs st = (r, skipped, con, st')" "\<forall>c\<in>set cs. ok c" "inv st"
    and f: "f \<in> {try_hinted, attempt}"
  shows "settles (\<lambda>c. c \<in> set cs \<and> c \<notin> set skipped \<and> c \<notin> set con) r st st' \<and> set skipped \<subseteq> set cs \<and> set con \<subseteq> set cs"
  using assms(1-3)
proof (induction cs arbitrary: st r skipped con st')
  case Nil
  then show ?case by (auto simp: settles_def)
next
  case (Cons c cs)
  show ?case
  proof (cases "guard c st")
    case False
    then obtain sk where "probe_phase guard f cs st = (r, sk, con, st')" "skipped = c # sk"
      using Cons.prems(1) by (auto split: prod.splits)
    moreover from this have "settles (\<lambda>c. c \<in> set cs \<and> c \<notin> set sk \<and> c \<notin> set con) r st st' \<and> set sk \<subseteq> set cs \<and> set con \<subseteq> set cs"
      using Cons.IH [of st r sk con st'] Cons.prems(2,3) by simp
    ultimately show ?thesis by (auto elim!: settles_mono)
  next
    case True
    obtain r1 st1 where t: "f c st = (r1, st1)" by (rule prod.exhaust)
    note T = try_ok [OF _ Cons.prems(3) f t]
    show ?thesis
    proof (cases r1)
      case (Found a)
      then show ?thesis using Cons.prems True t T by (auto simp: settles_def)
    next
      case NotFound
      then have e: "probe_phase guard f cs st1 = (r, skipped, con, st')" and q: "quiet Bs st st1" "\<not> holds (snd st) c"
        using Cons.prems(1,2) True t T by auto
      have "settles (\<lambda>c. c \<in> set cs \<and> c \<notin> set skipped \<and> c \<notin> set con) r st1 st' \<and> set skipped \<subseteq> set cs \<and> set con \<subseteq> set cs"
        using Cons.IH [OF e _ inv_quiet [OF Cons.prems(3) q(1)]] Cons.prems(2) by simp
      then show ?thesis using q(2) by (auto intro: settles_mono [OF settles_after [OF q(1)]])
    next
      case Busy
      then obtain con' where e: "probe_phase guard f cs st1 = (r, skipped, con', st')" "con = c # con'" and q: "quiet Bs st st1"
        using Cons.prems(1,2) True t T by (auto split: prod.splits)
      have "settles (\<lambda>c. c \<in> set cs \<and> c \<notin> set skipped \<and> c \<notin> set con') r st1 st' \<and> set skipped \<subseteq> set cs \<and> set con' \<subseteq> set cs"
        using Cons.IH [OF e(1) _ inv_quiet [OF Cons.prems(3) q(1)]] Cons.prems(2) by simp
      then show ?thesis using e(2) by (auto intro: settles_mono [OF settles_after [OF q]])
    qed
  qed
qed

lemma last_phase_spec:
  assumes "probe_phase (\<lambda>_ _. True) try_last cs st = (r, skipped, con, st')" "\<forall>c\<in>set cs. ok c" "inv st"
  shows "settles (\<lambda>_. False) r st st'"
  using assms
proof (induction cs arbitrary: st r skipped con st')
  case Nil
  then show ?case by (auto simp: settles_def)
next
  case (Cons c cs)
  obtain r1 st1 where t: "try_last c st = (r1, st1)" by (rule prod.exhaust)
  note T = try_last_ok [OF _ Cons.prems(3) t]
  show ?case
  proof (cases "\<exists>a. r1 = Found a")
    case True
    then show ?thesis using Cons.prems t T by (auto simp: settles_def)
  next
    case False
    then obtain sk con' where e: "probe_phase (\<lambda>_ _. True) try_last cs st1 = (r, sk, con', st')" and q: "quiet Bs st st1"
      using Cons.prems(1,2) t T by (cases r1) (auto split: prod.splits)
    from Cons.IH [OF e(1) _ inv_quiet [OF Cons.prems(3) q(1)]] Cons.prems(2) settles_after [OF q]
    show ?thesis by simp
  qed
qed

lemma retry_phase_spec:
  assumes "\<forall>c\<in>set cs. ok c" "inv st"
  shows "\<exists>r st'. retry_phase retry cs st = Some (r, st') \<and> settles (\<lambda>c. c \<in> set cs) r st st'"
  using assms
proof (induction cs arbitrary: st)
  case Nil
  then show ?case by (auto simp: settles_def)
next
  case (Cons c cs)
  then obtain r1 st1 where t: "retry c st = Some (r1, st1)"
    "case r1 of Some a \<Rightarrow> hit a st st1 | None \<Rightarrow> quiet Bs st st1 \<and> \<not> holds (snd st) c"
    using retry_ok [of c st] by auto
  show ?case
  proof (cases r1)
    case (Some a)
    then show ?thesis using t by (auto simp: settles_def)
  next
    case None
    then have q: "quiet Bs st st1" "\<not> holds (snd st) c" using t by simp_all
    obtain r2 st2 where "retry_phase retry cs st1 = Some (r2, st2)" "settles (\<lambda>c. c \<in> set cs) r2 st1 st2"
      using Cons.IH [OF _ inv_quiet [OF Cons.prems(2) q(1)]] Cons.prems(1) by auto
    then show ?thesis using None t(1) q(2) by (auto intro: settles_mono [OF settles_after [OF q(1)]])
  qed
qed

lemma settles_seq:
  "settles P None st st1 \<Longrightarrow> settles Q r st1 st' \<Longrightarrow> settles (\<lambda>c. P c \<or> Q c) r st st'"
  by (auto simp: settles_def holds_quiet split: option.splits intro: hit_quiet quiet_trans)

lemma settles_inv: "settles P None st st' \<Longrightarrow> inv st \<Longrightarrow> inv st'"
  by (auto simp: settles_def intro: inv_quiet)

lemma settles_Some: "settles P (Some a) st st' \<Longrightarrow> settles Q (Some a) st st'"
  by (simp add: settles_def)

lemma probe_phase_all: "probe_phase (\<lambda>_ _. True) f cs st = (r, skipped, con, st') \<Longrightarrow> skipped = []"
  by (induction cs arbitrary: st r skipped con st') (auto split: prod.splits probe.splits)

text \<open>The four phases always return, and decide the key.\<close>

lemma probe_impl_spec:
  assumes ok: "\<forall>c\<in>set cs. ok c" and inv: "inv st"
  shows "\<exists>r st'. probe_impl fp try_hinted attempt retry try_last cs st = Some (r, st') \<and> settles (\<lambda>c. c \<in> set cs) r st st'"
proof -
  obtain r1 un con1 st1 where p1: "probe_phase (hint_test fp) try_hinted cs st = (r1, un, con1, st1)" by (metis surj_pair)
  obtain r2 sk con2 st2 where p2: "probe_phase (\<lambda>_ _. True) attempt un st1 = (r2, sk, con2, st2)" by (metis surj_pair)
  let ?con = "filter (\<lambda>c. c \<in> set (con1 @ con2)) cs" and ?cur = "filter (\<lambda>c. c_level c \<noteq> 2) cs"
  let ?P1 = "\<lambda>c. c \<in> set cs \<and> c \<notin> set un \<and> c \<notin> set con1" and ?P2 = "\<lambda>c. c \<in> set un \<and> c \<notin> set con2"
  have S1: "settles ?P1 r1 st st1" and sub1: "set un \<subseteq> set cs" "set con1 \<subseteq> set cs"
    using probe_phase_spec [OF p1 ok inv] by simp_all
  show ?thesis
  proof (cases r1)
    case (Some a)
    then show ?thesis using settles_Some S1 p1 by (auto simp: probe_impl_def)
  next
    case n1: None
    note S1 = S1 [unfolded n1] and i1 = settles_inv [OF S1 [unfolded n1] inv]
    have "settles ?P2 r2 st1 st2" and sub2: "set con2 \<subseteq> set un"
      using probe_phase_spec [OF p2 _ i1] probe_phase_all [OF p2] ok sub1 by auto
    note S2 = settles_seq [OF S1 this(1)]
    show ?thesis
    proof (cases r2)
      case (Some a)
      then show ?thesis using settles_Some S2 p1 n1 p2 by (auto simp: probe_impl_def)
    next
      case n2: None
      note S2 = S2 [unfolded n2] and i2 = settles_inv [OF S2 [unfolded n2] inv]
      obtain r3 st3 where p3: "retry_phase retry ?con st2 = Some (r3, st3)" and "settles (\<lambda>c. c \<in> set ?con) r3 st2 st3"
        using retry_phase_spec [OF _ i2, of ?con] ok by auto
      from settles_seq [OF S2 this(2)] have S3: "settles (\<lambda>c. c \<in> set cs) r3 st st3"
        by (rule settles_mono) (use sub1 sub2 in auto)
      obtain r4 sk4 con4 st4 where p4: "probe_phase (\<lambda>_ _. True) try_last ?cur st3 = (r4, sk4, con4, st4)" by (metis surj_pair)
      have S4: "settles (\<lambda>c. c \<in> set cs) r4 st st4" if "r3 = None"
        using settles_seq [OF S3 [unfolded that] last_phase_spec [OF p4 _ settles_inv [OF S3 [unfolded that] inv]]] ok by simp
      show ?thesis
        unfolding probe_impl_def p1 prod.case n1 option.case p2 n2 p3 Option.bind.bind_lunit using S3 S4 p4
        by (cases r3) (auto simp del: split_paired_Ex)
    qed
  qed
qed

end

section \<open>The contracts of find, update and erase\<close>

abbreviation bases :: "ht \<Rightarrow> nat set" where "bases t \<equiv> fst ` set (levels t)"

text \<open>The state in which a probe runs: the layout of \<open>t0\<close>, and whatever else (\<open>E\<close>) the caller guarantees.\<close>

definition probe_inv :: "('k, 'v) ht_traits \<Rightarrow> ('v \<Rightarrow> bool) \<Rightarrow> bool \<Rightarrow> ht \<Rightarrow> 'v hts \<Rightarrow> bool" where
  "probe_inv T valid E t0 st \<longleftrightarrow> E \<and> (\<exists>h z. fst st = t0\<lparr>ht_hint := h, ht_size := z\<rparr>) \<and>
     layout_ok (levels t0) \<and> placed T valid (levels t0) (snd st)"

definition cand_of :: "ht \<Rightarrow> cand \<Rightarrow> bool" where
  "cand_of t0 c \<longleftrightarrow> c_base c = level_offset (c_level c) t0 \<and> (\<exists>n. (c_base c, n) \<in> set (levels t0) \<and> c_idx c < n)"

definition bucket_holds :: "('k, 'v) ht_traits \<Rightarrow> 'k \<Rightarrow> 'v hmem \<Rightarrow> cand \<Rightarrow> bool" where
  "bucket_holds T key m c \<longleftrightarrow>
    (\<exists>s fp v. s < kSlots \<and> cell m (c_base c) (c_idx c) s = Some (fp, v) \<and> tr_extract T v = key)"

text \<open>An operation has hit an entry \<open>w\<close> of the key: \<open>new w\<close> takes its place in the bag.\<close>

definition hit :: "('k, 'v) ht_traits \<Rightarrow> ('v \<Rightarrow> bool) \<Rightarrow> ht \<Rightarrow> 'k \<Rightarrow> ('v \<Rightarrow> 'v multiset) \<Rightarrow> u64 \<Rightarrow> ('v \<Rightarrow> 'a) \<Rightarrow>
    'a \<Rightarrow> 'v hts \<Rightarrow> 'v hts \<Rightarrow> bool" where
  "hit T valid t0 key new d res a st st' \<longleftrightarrow>
    (\<exists>w. w \<in># bag (levels t0) (snd st) \<and> tr_extract T w = key \<and> a = res w \<and>
       bag (levels t0) (snd st') + {#w#} = bag (levels t0) (snd st) + new w) \<and>
    bucket_frame (bases t0) st st' \<and> ht_size (fst st') = ht_size (fst st) + d \<and> placed T valid (levels t0) (snd st') \<and>
    (\<forall>b i s. cell (snd st) b i s = None \<longrightarrow> cell (snd st') b i s = None)"

lemma probe_inv_quiet:
  assumes "probe_inv T valid E t0 st" "quiet Bs st st'"
  shows "probe_inv T valid E t0 st'"
proof -
  obtain h z where "fst st = t0\<lparr>ht_hint := h, ht_size := z\<rparr>" using assms(1) by (auto simp: probe_inv_def)
  moreover obtain h' z' where "fst st' = (fst st)\<lparr>ht_hint := h', ht_size := z'\<rparr>"
    using assms(2) by (auto simp: quiet_def bucket_frame_def)
  ultimately have "fst st' = t0\<lparr>ht_hint := h', ht_size := z'\<rparr>" by simp
  then show ?thesis using assms quiet_bag(2) [OF assms(2)] by (auto simp: probe_inv_def)
qed

lemma bucket_holds_quiet: "quiet Bs st st' \<Longrightarrow> bucket_holds T key (snd st') c = bucket_holds T key (snd st) c"
  by (simp add: quiet_def bucket_holds_def)

lemma hit_after_quiet:
  assumes "quiet (bases t0) st st1" "hit T valid t0 key new d res a st1 st'"
  shows "hit T valid t0 key new d res a st st'"
  using assms quiet_bag(1) [OF assms(1), of "levels t0"] bucket_frame_trans [of "bases t0" st st1 st']
  by (simp add: hit_def quiet_def)

lemma cand_of_frame: "fst st = t0\<lparr>ht_hint := h, ht_size := z\<rparr> \<Longrightarrow> cand_of t0 c \<Longrightarrow> c\<lparr>c_base := level_offset (c_level c) (fst st)\<rparr> = c"
  by (simp add: cand_of_def level_offset_def split: if_splits)

locale key_traits =
  fixes T :: "('k, 'v) ht_traits" and valid :: "'v \<Rightarrow> bool" and vkey :: "'k \<Rightarrow> bool"
  assumes match_iff: "valid v \<Longrightarrow> vkey k \<Longrightarrow> tr_match T v k \<longleftrightarrow> tr_extract T v = k"
    and valid_key: "valid v \<Longrightarrow> vkey (tr_extract T v)"
begin

lemma slot_match:
  assumes "probe_inv T valid E t0 st" "cand_of t0 c" "s < kSlots" "vkey key"
    "slot_fp (read_hr (c_base c) (c_idx c) (snd st)) s = make_fp T key"
    "tr_match T (read_val (c_base c) (c_idx c) s (snd st)) key"
  obtains n w where "(c_base c, n) \<in> set (levels t0)" "c_idx c < n" "w = read_val (c_base c) (c_idx c) s (snd st)"
    "cell (snd st) (c_base c) (c_idx c) s = Some (make_fp T key, w)"
    "tr_extract T w = key" "valid w" "w \<in># bag (levels t0) (snd st)" "well_placed T n (c_idx c) w"
proof -
  let ?w = "read_val (c_base c) (c_idx c) s (snd st)"
  obtain n where n: "(c_base c, n) \<in> set (levels t0)" "c_idx c < n" using assms(2) by (auto simp: cand_of_def)
  have cell: "cell (snd st) (c_base c) (c_idx c) s = Some (make_fp T key, ?w)" using assms(5) by (simp add: cell_def)
  have "placed T valid (levels t0) (snd st)" using assms(1) by (simp add: probe_inv_def)
  then have "valid ?w \<and> well_placed T n (c_idx c) ?w" using n assms(3) cell unfolding placed_def by blast
  moreover from this have "tr_extract T ?w = key" using match_iff assms(4,6) by blast
  moreover have "?w \<in># bag (levels t0) (snd st)"
    unfolding in_bag using n assms(3) cell mem_locs by blast
  ultimately show ?thesis using that n cell by blast
qed

lemma no_slot_match:
  assumes "probe_inv T valid E t0 st" "cand_of t0 c" "vkey key"
    "\<And>s. s < kSlots \<Longrightarrow> slot_fp (read_hr (c_base c) (c_idx c) (snd st)) s = make_fp T key \<Longrightarrow>
      \<not> tr_match T (read_val (c_base c) (c_idx c) s (snd st)) key"
  shows "\<not> bucket_holds T key (snd st) c"
proof
  assume "bucket_holds T key (snd st) c"
  then obtain s fp v where s: "s < kSlots" "cell (snd st) (c_base c) (c_idx c) s = Some (fp, v)" "tr_extract T v = key"
    by (auto simp: bucket_holds_def)
  obtain n where n: "(c_base c, n) \<in> set (levels t0)" "c_idx c < n" using assms(2) by (auto simp: cand_of_def)
  have "placed T valid (levels t0) (snd st)" using assms(1) by (simp add: probe_inv_def)
  then have "valid v" "fp = make_fp T key" using n s unfolding placed_def by blast+
  moreover have "slot_fp (read_hr (c_base c) (c_idx c) (snd st)) s = fp" "v = read_val (c_base c) (c_idx c) s (snd st)"
    using s(2) by (auto simp: cell_def split: if_splits)
  ultimately show False using assms(3,4) s match_iff by blast
qed

end

lemma scan_spec:
  assumes "scan_bucket_slots T c (read_hr (c_base c) (c_idx c) m) fp key set_hint ss (t, m) = (r, st')"
  shows "case r of
      Found a \<Rightarrow> (\<exists>s\<in>set ss. slot_fp (read_hr (c_base c) (c_idx c) m) s = fp \<and> a = read_val (c_base c) (c_idx c) s m \<and> tr_match T a key) \<and>
        (\<exists>h. st' = (t\<lparr>ht_hint := h\<rparr>, m))
    | NotFound \<Rightarrow> st' = (t, m) \<and> (\<forall>s\<in>set ss. slot_fp (read_hr (c_base c) (c_idx c) m) s = fp \<longrightarrow> fp = 0 \<or>
        \<not> tr_match T (read_val (c_base c) (c_idx c) s m) key)
    | Busy \<Rightarrow> False"
  using assms
proof (induction ss)
  case (Cons s ss)
  have t: "\<exists>h. t = t\<lparr>ht_hint := h\<rparr>" by (rule exI [of _ "ht_hint t"]) simp
  show ?case using Cons.prems Cons.IH t
    by (auto simp: Let_def hint_set_def split: if_splits probe.splits)
qed simp

section \<open>Lookup\<close>

lemma base_of_cand: "cand_of t0 c \<Longrightarrow> c_base c \<in> bases t0"
  by (force simp: cand_of_def)

lemma hint_frame: "bucket_frame Bs (t, m) (t\<lparr>ht_hint := h\<rparr>, m)"
  by (rule bucket_frameI [where h = h and z = "ht_size t" and B = "hm_bucket m"]) simp_all

lemma wait_quiet:
  assumes "cand_of t0 c"
  shows "quiet (bases t0) st (fst st, snd (snd (wait_for_unlock (c_base c) (c_idx c) (snd st))))"
proof -
  obtain ready keys m' where w: "wait_for_unlock (c_base c) (c_idx c) (snd st) = (ready, keys, m')" by (metis surj_pair)
  show ?thesis using still_quiet [OF wait_for_unlock_spec(4) [OF w, of "fst st"] base_of_cand [OF assms]] w by simp
qed

context key_traits
begin

lemma find_scan:
  assumes inv: "probe_inv T valid (vkey key) t0 st" and c: "cand_of t0 c"
    and e: "scan_bucket_slots T c (read_hr (c_base c) (c_idx c) (snd st)) (make_fp T key) key set_hint [0..<kSlots] st = (r, st')"
  shows "case r of Found a \<Rightarrow> hit T valid t0 key (\<lambda>w. {#w#}) 0 (\<lambda>w. w) a st st'
    | NotFound \<Rightarrow> quiet (bases t0) st st' \<and> \<not> bucket_holds T key (snd st) c | Busy \<Rightarrow> False"
proof -
  obtain t m where st: "st = (t, m)" by fastforce
  have k: "vkey key" using inv by (simp add: probe_inv_def)
  note S = scan_spec [where m = m and t = t, OF e [unfolded st snd_conv]]
  show ?thesis
  proof (cases r)
    case (Found a)
    then obtain s h where s: "s < kSlots" "slot_fp (read_hr (c_base c) (c_idx c) m) s = make_fp T key"
      "a = read_val (c_base c) (c_idx c) s m" "tr_match T a key" and st': "st' = (t\<lparr>ht_hint := h\<rparr>, m)" using S by auto
    obtain n w where w: "w = read_val (c_base c) (c_idx c) s m" "tr_extract T w = key" "w \<in># bag (levels t0) m"
      using slot_match [OF inv c s(1) k] s by (metis st snd_conv)
    then show ?thesis using Found s inv hint_frame [of "bases t0" t m h]
      by (auto simp: hit_def st st' probe_inv_def)
  next
    case NotFound
    then have n: "st' = st" "\<And>s. s < kSlots \<Longrightarrow> slot_fp (read_hr (c_base c) (c_idx c) m) s = make_fp T key \<Longrightarrow>
        \<not> tr_match T (read_val (c_base c) (c_idx c) s m) key" using S by (auto simp: st)
    have "\<not> bucket_holds T key (snd st) c" by (rule no_slot_match [OF inv c k]) (use n in \<open>simp add: st\<close>)
    then show ?thesis using NotFound n by simp
  next
    case Busy
    then show ?thesis using S by simp
  qed
qed

lemma find_retry_free:
  assumes inv: "probe_inv T valid (vkey key) t0 st" and c: "cand_of t0 c"
    and free: "\<not> is_dirty (read_hr (c_base c) (c_idx c) (snd st) 0)"
  shows "\<exists>r st'. find_retry T (make_fp T key) key c st = Some (r, st') \<and>
    (case r of Some a \<Rightarrow> hit T valid t0 key (\<lambda>w. {#w#}) 0 (\<lambda>w. w) a st st'
     | None \<Rightarrow> quiet (bases t0) st st' \<and> \<not> bucket_holds T key (snd st) c)"
proof -
  obtain r st' where s: "scan_bucket_slots T c (read_hr (c_base c) (c_idx c) (snd st)) (make_fp T key) key True [0..<kSlots] st = (r, st')"
    by (rule prod.exhaust)
  note S = find_scan [OF inv c s]
  have "find_retry T (make_fp T key) key c st = (case r of
      Found v \<Rightarrow> Some (Some v, st') | NotFound \<Rightarrow> Some (None, st') | Busy \<Rightarrow> find_retry T (make_fp T key) key c st')"
    by (subst find_retry.simps) (use free s in \<open>simp add: Let_def\<close>)
  then show ?thesis using S by (cases r) (auto simp del: split_paired_Ex)
qed

lemma find_retry_ok:
  assumes inv: "probe_inv T valid (vkey key) t0 st" and c: "cand_of t0 c"
  shows "\<exists>r st'. find_retry T (make_fp T key) key c st = Some (r, st') \<and>
    (case r of Some a \<Rightarrow> hit T valid t0 key (\<lambda>w. {#w#}) 0 (\<lambda>w. w) a st st'
     | None \<Rightarrow> quiet (bases t0) st st' \<and> \<not> bucket_holds T key (snd st) c)"
proof (cases "is_dirty (read_hr (c_base c) (c_idx c) (snd st) 0)")
  case False
  then show ?thesis by (rule find_retry_free [OF inv c])
next
  case True
  let ?st = "(fst st, snd (snd (wait_for_unlock (c_base c) (c_idx c) (snd st))))"
  note q = wait_quiet [OF c, of st]
  have "\<not> is_dirty (read_hr (c_base c) (c_idx c) (snd ?st) 0)"
    using wait_for_unlock_spec(3) by (metis snd_conv surj_pair)
  from find_retry_free [OF probe_inv_quiet [OF inv q] c this]
  obtain r st' where "find_retry T (make_fp T key) key c ?st = Some (r, st')"
    "case r of Some a \<Rightarrow> hit T valid t0 key (\<lambda>w. {#w#}) 0 (\<lambda>w. w) a ?st st'
     | None \<Rightarrow> quiet (bases t0) ?st st' \<and> \<not> bucket_holds T key (snd ?st) c" by blast
  moreover have "find_retry T (make_fp T key) key c st = find_retry T (make_fp T key) key c ?st"
    by (subst find_retry.simps) (use True in \<open>simp add: Let_def\<close>)
  ultimately show ?thesis
    by (cases r) (auto simp: bucket_holds_quiet [OF q, simplified] intro: hit_after_quiet [OF q] quiet_trans [OF q])
qed

lemma find_in_bucket_ok:
  assumes inv: "probe_inv T valid (vkey key) t0 st" and c: "cand_of t0 c"
    and e: "find_in_bucket T (make_fp T key) key set_hint c st = (r, st')"
  shows "case r of Found a \<Rightarrow> hit T valid t0 key (\<lambda>w. {#w#}) 0 (\<lambda>w. w) a st st'
    | NotFound \<Rightarrow> quiet (bases t0) st st' \<and> \<not> bucket_holds T key (snd st) c | Busy \<Rightarrow> quiet (bases t0) st st'"
proof (cases "is_dirty (read_hr (c_base c) (c_idx c) (snd st) 0)")
  case True
  then show ?thesis using e by (auto simp: find_in_bucket_def)
next
  case False
  then show ?thesis using e find_scan [OF inv c, of set_hint r st'] by (simp add: find_in_bucket_def split: probe.splits)
qed

end

sublocale key_traits \<subseteq> lookup: prober "bases t0" "probe_inv T valid (vkey key) t0" "cand_of t0" "bucket_holds T key"
  "hit T valid t0 key (\<lambda>w. {#w#}) 0 (\<lambda>w. w)" "find_in_bucket T (make_fp T key) key False"
  "find_in_bucket T (make_fp T key) key True" "find_retry T (make_fp T key) key" "find_in_bucket T (make_fp T key) key True"
  for t0 key
proof (unfold_locales, goal_cases)
  case 1
  then show ?case by (rule probe_inv_quiet)
next
  case 2
  then show ?case by (rule bucket_holds_quiet)
next
  case 3
  then show ?case by (rule hit_after_quiet)
next
  case (4 c st f r st')
  from 4(3,4) consider "find_in_bucket T (make_fp T key) key False c st = (r, st')" | "find_in_bucket T (make_fp T key) key True c st = (r, st')" by auto
  then show ?case by cases (erule find_in_bucket_ok [OF 4(2,1)])+
next
  case 5
  then show ?case using find_in_bucket_ok [OF 5(2,1,3)] by (auto split: probe.splits)
next
  case 6
  then show ?case using find_retry_ok by simp
qed

section \<open>Update and erase\<close>

text \<open>The contract of the routine that \<open>update\<close> or \<open>erase\<close> runs on a free bucket.\<close>

locale bucket_worker = key_traits T valid vkey
  for T :: "('k, 'v) ht_traits" and valid vkey +
  fixes E :: bool and t0 :: ht and key :: 'k and new :: "'v \<Rightarrow> 'v multiset" and d :: u64 and res :: "'v \<Rightarrow> 'a"
    and work :: "cand \<Rightarrow> (nat \<Rightarrow> u64) \<Rightarrow> 'v hts \<Rightarrow> 'a probe \<times> 'v hts"
  assumes caller_key: "E \<Longrightarrow> vkey key"
    and work_ok: "probe_inv T valid E t0 st \<Longrightarrow> cand_of t0 c \<Longrightarrow> \<not> is_dirty (read_hr (c_base c) (c_idx c) (snd st) 0) \<Longrightarrow>
      work c (read_hr (c_base c) (c_idx c) (snd st)) st = (r, st') \<Longrightarrow>
      (case r of Found a \<Rightarrow> hit T valid t0 key new d res a st st'
       | NotFound \<Rightarrow> quiet (bases t0) st st' \<and> \<not> bucket_holds T key (snd st) c | Busy \<Rightarrow> False)"
begin

lemma no_fingerprint:
  assumes inv: "probe_inv T valid E t0 st" and c: "cand_of t0 c"
    and none: "find_fp_slot (read_hr (c_base c) (c_idx c) (snd st)) (make_fp T key) = None"
  shows "\<not> bucket_holds T key (snd st) c"
  by (rule no_slot_match [OF inv c])
    (use none inv caller_key in \<open>auto simp: find_fp_slot_def find_None_iff probe_inv_def\<close>)

lemma try_bucket_ok:
  assumes inv: "probe_inv T valid E t0 st" and c: "cand_of t0 c"
    and e: "try_bucket work (make_fp T key) c st = (r, st')"
  shows "case r of Found a \<Rightarrow> hit T valid t0 key new d res a st st'
    | NotFound \<Rightarrow> quiet (bases t0) st st' \<and> \<not> bucket_holds T key (snd st) c | Busy \<Rightarrow> quiet (bases t0) st st'"
proof -
  let ?keys = "read_hr (c_base c) (c_idx c) (snd st)"
  consider "is_dirty (?keys 0)" | "\<not> is_dirty (?keys 0)" "find_fp_slot ?keys (make_fp T key) = None"
    | "\<not> is_dirty (?keys 0)" "find_fp_slot ?keys (make_fp T key) \<noteq> None" by blast
  then show ?thesis
  proof cases
    case 1
    then show ?thesis using e by (auto simp: try_bucket_def)
  next
    case 2
    then show ?thesis using e no_fingerprint [OF inv c] by (auto simp: try_bucket_def)
  next
    case 3
    then show ?thesis using e work_ok [OF inv c, of r st'] by (auto simp: try_bucket_def split: probe.splits)
  qed
qed

lemma write_retry_ok:
  assumes inv: "probe_inv T valid E t0 st" and c: "cand_of t0 c"
  shows "\<exists>r st'. write_retry work (make_fp T key) c st = Some (r, st') \<and>
    (case r of Some a \<Rightarrow> hit T valid t0 key new d res a st st'
     | None \<Rightarrow> quiet (bases t0) st st' \<and> \<not> bucket_holds T key (snd st) c)"
proof -
  let ?b = "c_base c" and ?i = "c_idx c"
  obtain ready keys m where w: "(if is_dirty (read_hr ?b ?i (snd st) 0) then wait_for_unlock ?b ?i (snd st)
      else (True, read_hr ?b ?i (snd st), snd st)) = (ready, keys, m)" by (metis surj_pair)
  have W: "ready" "keys = read_hr ?b ?i m" "\<not> is_dirty (read_hr ?b ?i m 0)" and q: "quiet (bases t0) st (fst st, m)"
    using w wait_for_unlock_spec [of ?b ?i "snd st" ready keys m] wait_quiet [OF c, of st] by (auto split: if_splits)
  note inv1 = probe_inv_quiet [OF inv q]
  obtain r st' where x: "work c keys (fst st, m) = (r, st')" by (rule prod.exhaust)
  have e: "write_retry work (make_fp T key) c st = (if find_fp_slot keys (make_fp T key) = None then Some (None, fst st, m)
      else (case r of Found v \<Rightarrow> Some (Some v, st') | NotFound \<Rightarrow> Some (None, st') | Busy \<Rightarrow> write_retry work (make_fp T key) c st'))"
    by (subst write_retry.simps) (use w W(1) x in \<open>simp add: Let_def\<close>)
  show ?thesis
  proof (cases "find_fp_slot keys (make_fp T key) = None")
    case True
    then show ?thesis using e q no_fingerprint [OF inv1 c] W(2) bucket_holds_quiet [OF q, of T key c] by (auto simp del: split_paired_Ex)
  next
    case False
    have S: "case r of Found a \<Rightarrow> hit T valid t0 key new d res a (fst st, m) st'
       | NotFound \<Rightarrow> quiet (bases t0) (fst st, m) st' \<and> \<not> bucket_holds T key m c | Busy \<Rightarrow> False"
      using work_ok [OF inv1 c, of r st'] x W(2,3) by (simp split: probe.splits)
    show ?thesis using S e False bucket_holds_quiet [OF q, of T key c] quiet_trans [OF q, of st']
      by (cases r) (auto simp del: split_paired_Ex intro: hit_after_quiet [OF q])
  qed
qed

lemma try_last_is_try_bucket:
  assumes "probe_inv T valid E t0 st" "cand_of t0 c"
  shows "try_last work (make_fp T key) c st = try_bucket work (make_fp T key) c st"
  using assms cand_of_frame by (auto simp: try_last_def probe_inv_def)

end

sublocale bucket_worker \<subseteq> prober "bases t0" "probe_inv T valid E t0" "cand_of t0" "bucket_holds T key"
  "hit T valid t0 key new d res" "try_bucket work (make_fp T key)" "try_bucket work (make_fp T key)"
  "write_retry work (make_fp T key)" "try_last work (make_fp T key)"
proof (unfold_locales, goal_cases)
  case 1
  then show ?case by (rule probe_inv_quiet)
next
  case 2
  then show ?case by (rule bucket_holds_quiet)
next
  case 3
  then show ?case by (rule hit_after_quiet)
next
  case 4
  then show ?case using try_bucket_ok by simp
next
  case (5 c st r st')
  then show ?case using try_bucket_ok [OF 5(2,1)] try_last_is_try_bucket [OF 5(2,1)] by (auto split: probe.splits)
next
  case 6
  then show ?case using write_retry_ok by simp
qed

lemma lock_free:
  obtains m1 where "cas_hr b i (read_hr b i m 0) (make_locked (read_hr b i m 0)) m = (True, m1)"
    "cell m1 = cell m" "current b i (read_hr b i m) m1" "\<And>s. read_val b i s m1 = read_val b i s m"
    "bucket_frame {b} (t, m) (t, m1)"
proof -
  obtain sw m1 where l: "cas_hr b i (read_hr b i m 0) (make_locked (read_hr b i m 0)) m = (sw, m1)" by (rule prod.exhaust)
  then have "sw" "\<And>s. read_val b i s m1 = read_val b i s m" by (auto simp: cas_hr_def)
  then show ?thesis using that l lock_still(1,2) [OF l] by (auto simp: still_def)
qed

lemma updated_cell:
  assumes "current b i keys m" "cell m b i s = Some (fp, w)"
  shows "cell (unlock_bucket b i keys (write_val b i s v m)) b' i' s' =
    (if b' = b \<and> i' = i \<and> s' = s then Some (fp, v) else cell m b' i' s')"
proof -
  have "current b i keys (write_val b i s v m)" using assms(1) by (simp add: current_def)
  then show ?thesis using assms(2) by (auto simp: unlock_bucket_cell cell_def split: if_splits)
qed

lemma erased_cell:
  assumes "current b i keys m"
  shows "cell (write_hr b i (set_unlocked_meta0 (keys(s := 0)) (keys 0) (if s = 0 then 0 else keys 0 AND kFpMask)) m) b' i' s' =
    (if b' = b \<and> i' = i \<and> s' = s then None else cell m b' i' s')"
proof -
  have "slot_fp (set_unlocked_meta0 (keys(s := 0)) (keys 0) (if s = 0 then 0 else keys 0 AND kFpMask)) j =
      (if j = s then 0 else slot_fp keys j)" for j
    by (simp add: slot_fp_unlocked) (auto simp: slot_fp_def)
  then show ?thesis using assms by (auto simp: cell_def current_def)
qed

text \<open>A frame that may also reset the hint and the count.\<close>

lemma frame_change:
  assumes "b \<in> Bs" "m' = m\<lparr>hm_bucket := (hm_bucket m)(b := B)\<rparr>" "t' = t\<lparr>ht_hint := h, ht_size := z\<rparr>"
  shows "bucket_frame Bs (t, m) (t', m')"
  by (rule bucket_frameI [where h = h and z = z and B = "(hm_bucket m)(b := B)"]) (use assms in auto)

context key_traits
begin

lemma match_slot_None:
  assumes inv: "probe_inv T valid E t0 (t, m)" and c: "cand_of t0 c" and k: "vkey key"
    and v: "\<And>s. read_val (c_base c) (c_idx c) s m1 = read_val (c_base c) (c_idx c) s m"
    and e: "match_slot T c (read_hr (c_base c) (c_idx c) m) (make_fp T key) key m1 = None"
  shows "\<not> bucket_holds T key m c"
  using no_slot_match [OF inv c k] e by (auto simp: match_slot_def find_None_iff v)

lemma match_slot_Some:
  assumes inv: "probe_inv T valid E t0 (t, m)" and c: "cand_of t0 c" and k: "vkey key"
    and v: "\<And>s. read_val (c_base c) (c_idx c) s m1 = read_val (c_base c) (c_idx c) s m"
    and e: "match_slot T c (read_hr (c_base c) (c_idx c) m) (make_fp T key) key m1 = Some s"
  obtains n w where "(c_base c, n) \<in> set (levels t0)" "c_idx c < n" "s < kSlots" "w = read_val (c_base c) (c_idx c) s m"
    "cell m (c_base c) (c_idx c) s = Some (make_fp T key, w)" "tr_extract T w = key" "valid w" "w \<in># bag (levels t0) m"
    "well_placed T n (c_idx c) w"
proof -
  have s: "s < kSlots" "slot_fp (read_hr (c_base c) (c_idx c) m) s = make_fp T key" "tr_match T (read_val (c_base c) (c_idx c) s m) key"
    using e by (auto simp: match_slot_def find_Some_iff v)
  show ?thesis by (rule slot_match [OF inv c s(1) k]) (use s that in auto)
qed

text \<open>The common course of the two writers: lock, search, and unlock or finish on the slot that matches.\<close>

lemma locked_work:
  fixes finish :: "nat \<Rightarrow> 'v hmem \<Rightarrow> 'a probe \<times> 'v hts"
  assumes inv: "probe_inv T valid E t0 (t, m)" and c: "cand_of t0 c" and k: "vkey key" and keys: "keys = read_hr (c_base c) (c_idx c) m"
    and e: "(case cas_hr (c_base c) (c_idx c) (keys 0) (make_locked (keys 0)) m of (swapped, m) \<Rightarrow>
        if \<not> swapped then (Busy, t, m)
        else case match_slot T c keys (make_fp T key) key m of
          None \<Rightarrow> (NotFound, t, unlock_bucket (c_base c) (c_idx c) keys m) | Some s \<Rightarrow> finish s m) = (r, st')"
    and finish: "\<And>m1 s n w. cell m1 = cell m \<Longrightarrow> current (c_base c) (c_idx c) keys m1 \<Longrightarrow> bucket_frame {c_base c} (t, m) (t, m1) \<Longrightarrow>
      (c_base c, n) \<in> set (levels t0) \<Longrightarrow> c_idx c < n \<Longrightarrow> s < kSlots \<Longrightarrow> read_val (c_base c) (c_idx c) s m1 = w \<Longrightarrow>
      cell m (c_base c) (c_idx c) s = Some (make_fp T key, w) \<Longrightarrow> tr_extract T w = key \<Longrightarrow> valid w \<Longrightarrow>
      w \<in># bag (levels t0) m \<Longrightarrow> well_placed T n (c_idx c) w \<Longrightarrow>
      \<exists>a st''. finish s m1 = (Found a, st'') \<and> hit T valid t0 key new d res a (t, m) st''"
  shows "case r of Found a \<Rightarrow> hit T valid t0 key new d res a (t, m) st'
       | NotFound \<Rightarrow> quiet (bases t0) (t, m) st' \<and> \<not> bucket_holds T key m c | Busy \<Rightarrow> False"
proof -
  let ?b = "c_base c" and ?i = "c_idx c"
  obtain m1 where l: "cas_hr ?b ?i (keys 0) (make_locked (keys 0)) m = (True, m1)" and L: "cell m1 = cell m" "current ?b ?i keys m1"
    "\<And>s. read_val ?b ?i s m1 = read_val ?b ?i s m" "bucket_frame {?b} (t, m) (t, m1)"
    by (rule lock_free [where b = ?b and i = ?i and m = m and t = t]) (rule that, simp_all add: keys)
  show ?thesis
  proof (cases "match_slot T c keys (make_fp T key) key m1")
    case None
    then have r: "r = NotFound" "st' = (t, unlock_bucket ?b ?i keys m1)" using e l by auto
    have "still ?b (t, m) st'"
      using unlock_still [OF L(2), of t] L(1) bucket_frame_trans [OF L(4)] r(2) by (auto simp: still_def)
    then show ?thesis
      using match_slot_None [OF inv c k L(3)] None still_quiet [OF _ base_of_cand [OF c]] r(1) by (simp add: keys)
  next
    case (Some s)
    obtain n w where w: "(?b, n) \<in> set (levels t0)" "?i < n" "s < kSlots" "w = read_val ?b ?i s m" "cell m ?b ?i s = Some (make_fp T key, w)"
      "tr_extract T w = key" "valid w" "w \<in># bag (levels t0) m" "well_placed T n ?i w"
      by (rule match_slot_Some [OF inv c k L(3)]) (use Some in \<open>simp add: keys\<close>)
    obtain a st'' where "finish s m1 = (Found a, st'')" "hit T valid t0 key new d res a (t, m) st''"
      using finish [OF L(1,2,4) w(1-3) _ w(5-9)] L(3) w(4) by blast
    then show ?thesis using e l Some by auto
  qed
qed

lemma update_work:
  assumes inv: "probe_inv T valid (vkey key \<and> (\<forall>w. valid w \<and> tr_extract T w = key \<longrightarrow> valid (f w) \<and> tr_extract T (f w) = key)) t0 st"
    and c: "cand_of t0 c" and e: "try_update_in T f c (read_hr (c_base c) (c_idx c) (snd st)) (make_fp T key) key st = (r, st')"
  shows "case r of Found a \<Rightarrow> hit T valid t0 key (\<lambda>w. {#f w#}) 0 (\<lambda>w. ()) a st st'
       | NotFound \<Rightarrow> quiet (bases t0) st st' \<and> \<not> bucket_holds T key (snd st) c | Busy \<Rightarrow> False"
proof -
  obtain t m where st: "st = (t, m)" by fastforce
  let ?b = "c_base c" and ?i = "c_idx c"
  have k: "vkey key" and lay: "layout_ok (levels t0)" and pl: "placed T valid (levels t0) m"
    using inv by (auto simp: probe_inv_def st)
  show ?thesis
    unfolding st snd_conv
  proof (rule locked_work [OF inv [unfolded st] c k refl e [unfolded st snd_conv try_update_in_def prod.case]], goal_cases)
    case (1 m1 s n w)
    define m2 where "m2 = unlock_bucket ?b ?i (read_hr ?b ?i m) (write_val ?b ?i s (f w) m1)"
    obtain h where "t\<lparr>ht_hint := h\<rparr> = (if c_level c \<noteq> 2 then hint_set (global_bucket_id (c_level c) ?i t) s (make_fp T key) t else t)"
      by (cases "c_level c = 2") (auto simp: hint_set_def intro: that [of "ht_hint t"])
    note h = this [symmetric]
    have fw: "valid (f w)" "tr_extract T (f w) = key" using inv 1(9,10) by (auto simp: probe_inv_def)
    have cells: "cell m2 b' i' s' = (if b' = ?b \<and> i' = ?i \<and> s' = s then Some (make_fp T key, f w) else cell m b' i' s')" for b' i' s'
      unfolding m2_def using updated_cell [OF 1(2), of s "make_fp T key" w "f w"] 1(1,8) by simp
    note C = cell_change [where x = "Some (make_fp T key, f w)", OF 1(4-6) lay pl cells]
    have "bucket_frame (bases t0) (t, m1) (t\<lparr>ht_hint := h\<rparr>, m2)"
      by (rule bucket_frameI [where h = h and z = "ht_size t" and B = "hm_bucket m2"])
        (use base_of_cand [OF c] in \<open>auto simp: m2_def unlock_bucket_def write_hr_def write_val_def\<close>)
    from bucket_frame_trans [OF frame_mono [OF 1(3)] this] base_of_cand [OF c]
    have "hit T valid t0 key (\<lambda>w. {#f w#}) 0 (\<lambda>w. ()) () (t, m) (t\<lparr>ht_hint := h\<rparr>, m2)"
      using C 1(8-) fw cells unfolding hit_def by (auto simp: well_placed_def intro!: exI [of _ w] split: if_splits)
    then show ?case using 1(7) h by (simp add: m2_def Let_def)
  qed
qed

lemma erase_work:
  assumes inv: "probe_inv T valid (vkey key) t0 st"
    and c: "cand_of t0 c" and e: "try_erase_from T c (read_hr (c_base c) (c_idx c) (snd st)) (make_fp T key) key st = (r, st')"
  shows "case r of Found a \<Rightarrow> hit T valid t0 key (\<lambda>w. {#}) (- 1) (\<lambda>w. w) a st st'
       | NotFound \<Rightarrow> quiet (bases t0) st st' \<and> \<not> bucket_holds T key (snd st) c | Busy \<Rightarrow> False"
proof -
  obtain t m where st: "st = (t, m)" by fastforce
  let ?b = "c_base c" and ?i = "c_idx c" and ?keys = "read_hr (c_base c) (c_idx c) m"
  have k: "vkey key" and lay: "layout_ok (levels t0)" and pl: "placed T valid (levels t0) m"
    using inv by (auto simp: probe_inv_def st)
  show ?thesis
    unfolding st snd_conv
  proof (rule locked_work [OF inv [unfolded st] c k refl e [unfolded st snd_conv try_erase_from_def prod.case]], goal_cases)
    case (1 m1 s n w)
    define m2 where "m2 = write_hr ?b ?i (set_unlocked_meta0 (?keys(s := 0)) (?keys 0) (if s = 0 then 0 else ?keys 0 AND kFpMask)) m1"
    let ?t = "t\<lparr>ht_size := ht_size t - 1\<rparr>"
    define h where "h = (if c_level c \<noteq> 2 then th_clear (global_bucket_id (c_level c) ?i ?t) s (ht_hint t) else ht_hint t)"
    have h: "(if c_level c \<noteq> 2 then hint_clear (global_bucket_id (c_level c) ?i ?t) s ?t else ?t) = t\<lparr>ht_hint := h, ht_size := ht_size t - 1\<rparr>"
      by (simp add: h_def hint_clear_def)
    have cells: "cell m2 b' i' s' = (if b' = ?b \<and> i' = ?i \<and> s' = s then None else cell m b' i' s')" for b' i' s'
      unfolding m2_def using erased_cell [OF 1(2), of s] 1(1) by simp
    note C = cell_change [where x = None, OF 1(4-6) lay pl cells]
    have "bucket_frame (bases t0) (t, m1) (t\<lparr>ht_hint := h, ht_size := ht_size t - 1\<rparr>, m2)"
      by (rule bucket_frameI [where h = h and z = "ht_size t - 1" and B = "hm_bucket m2"])
        (use base_of_cand [OF c] in \<open>auto simp: m2_def write_hr_def\<close>)
    from bucket_frame_trans [OF frame_mono [OF 1(3)] this] base_of_cand [OF c]
    have "hit T valid t0 key (\<lambda>w. {#}) (- 1) (\<lambda>w. w) w (t, m) (t\<lparr>ht_hint := h, ht_size := ht_size t - 1\<rparr>, m2)"
      using C 1(8-) cells unfolding hit_def by (auto intro!: exI [of _ w] split: if_splits)
    then show ?case using 1(7) h by (simp add: m2_def Let_def)
  qed
qed

end

sublocale key_traits \<subseteq> update: bucket_worker T valid vkey
  "vkey key \<and> (\<forall>w. valid w \<and> tr_extract T w = key \<longrightarrow> valid (f w) \<and> tr_extract T (f w) = key)" t0 key
  "\<lambda>w. {#f w#}" 0 "\<lambda>w. ()" "\<lambda>c keys. try_update_in T f c keys (make_fp T key) key" for t0 key f
  by unfold_locales (blast, erule (1) update_work)

sublocale key_traits \<subseteq> erase: bucket_worker T valid vkey "vkey key" t0 key
  "\<lambda>w. {#}" "- 1" "\<lambda>w. w" "\<lambda>c keys. try_erase_from T c keys (make_fp T key) key" for t0 key
  by unfold_locales (blast, erule (1) erase_work)

lemma candidates_cand_of:
  assumes "layout_ok (levels t)"
  shows "\<forall>c\<in>set (cs_list (get_candidates T key t)). cand_of t c"
proof -
  have "2 \<le> ht_tl_n t" "2 \<le> ht_bl_n t" "ht_mig_active t \<Longrightarrow> 2 \<le> ht_mig_old_bl_n t"
    using assms(1) by (auto simp: layout_ok_def levels_def)
  then show ?thesis
    by (auto simp: cand_of_def get_candidates_def levels_def level_offset_def Let_def split: if_splits)
qed

text \<open>A key can only be found in its candidate buckets.\<close>

lemma candidates_complete:
  assumes "placed T valid (levels t) m" "w \<in># bag (levels t) m" "tr_extract T w = key"
  shows "\<exists>c\<in>set (cs_list (get_candidates T key t)). bucket_holds T key m c"
proof -
  obtain b i s fp n where c: "(b, n) \<in> set (levels t)" "i < n" "s < kSlots" "cell m b i s = Some (fp, w)"
    using assms(2) by (auto simp: in_bag mem_locs)
  then have "well_placed T n i w" using assms(1) unfolding placed_def by blast
  then have "\<exists>c\<in>set (cs_list (get_candidates T key t)). c_base c = b \<and> c_idx c = i"
    using c(1) assms(3) by (auto simp: levels_def well_placed_def get_candidates_def Let_def split: if_splits)
  then show ?thesis using c assms(3) unfolding bucket_holds_def by blast
qed

lemma candidates_none:
  "placed T valid (levels t) m \<Longrightarrow> (\<And>c. c \<in> set (cs_list (get_candidates T key t)) \<Longrightarrow> \<not> bucket_holds T key m c) \<Longrightarrow>
    w \<in># bag (levels t) m \<Longrightarrow> tr_extract T w \<noteq> key"
  by (metis candidates_complete)

lemma probe_inv_start:
  "E \<Longrightarrow> layout_ok (levels (fst st)) \<Longrightarrow> placed T valid (levels (fst st)) (snd st) \<Longrightarrow> probe_inv T valid E (fst st) st"
  unfolding probe_inv_def by (intro conjI exI [of _ "ht_hint (fst st)"] exI [of _ "ht_size (fst st)"]) simp_all

context key_traits
begin

lemma find_impl_spec:
  assumes lay: "layout_ok (levels (fst st))" and pl: "placed T valid (levels (fst st)) (snd st)" and k: "vkey key"
  shows "\<exists>r st'. find_impl T key st = Some (r, st') \<and>
    (case r of Some a \<Rightarrow> hit T valid (fst st) key (\<lambda>w. {#w#}) 0 (\<lambda>w. w) a st st'
     | None \<Rightarrow> quiet (bases (fst st)) st st' \<and> (\<forall>w. w \<in># bag (levels (fst st)) (snd st) \<longrightarrow> tr_extract T w \<noteq> key))"
proof -
  from lookup.probe_impl_spec [OF candidates_cand_of [OF lay, of T key] probe_inv_start [OF k lay pl], of "make_fp T key"]
  obtain r st' where "find_impl T key st = Some (r, st')"
    "lookup.settles (fst st) key (\<lambda>c. c \<in> set (cs_list (get_candidates T key (fst st)))) r st st'"
    by (auto simp: find_impl_def Let_def simp del: split_paired_Ex)
  then show ?thesis using candidates_none [OF pl]
    by (intro exI [of _ r] exI [of _ st']) (auto simp: lookup.settles_def split: option.splits)
qed

lemma update_impl_spec:
  assumes lay: "layout_ok (levels (fst st))" and pl: "placed T valid (levels (fst st)) (snd st)" and k: "vkey key"
    and f: "\<And>w. valid w \<Longrightarrow> tr_extract T w = key \<Longrightarrow> valid (f w) \<and> tr_extract T (f w) = key"
  shows "\<exists>r st'. update_impl T key f st = Some (r, st') \<and>
    (case r of Some a \<Rightarrow> hit T valid (fst st) key (\<lambda>w. {#f w#}) 0 (\<lambda>w. ()) a st st'
     | None \<Rightarrow> quiet (bases (fst st)) st st' \<and> (\<forall>w. w \<in># bag (levels (fst st)) (snd st) \<longrightarrow> tr_extract T w \<noteq> key))"
proof -
  from update.probe_impl_spec [OF candidates_cand_of [OF lay, of T key] probe_inv_start [OF _ lay pl], where key = key and f = f and fp = "make_fp T key"]
  obtain r st' where "update_impl T key f st = Some (r, st')"
    "update.settles (fst st) key f (\<lambda>c. c \<in> set (cs_list (get_candidates T key (fst st)))) r st st'"
    using k f by (auto simp: update_impl_def Let_def simp del: split_paired_Ex)
  then show ?thesis using candidates_none [OF pl]
    by (intro exI [of _ r] exI [of _ st']) (auto simp: update.settles_def split: option.splits)
qed

lemma erase_impl_spec:
  assumes lay: "layout_ok (levels (fst st))" and pl: "placed T valid (levels (fst st)) (snd st)" and k: "vkey key"
  shows "\<exists>r st'. erase_impl T key st = Some (r, st') \<and>
    (case r of Some a \<Rightarrow> hit T valid (fst st) key (\<lambda>w. {#}) (- 1) (\<lambda>w. w) a st st'
     | None \<Rightarrow> quiet (bases (fst st)) st st' \<and> (\<forall>w. w \<in># bag (levels (fst st)) (snd st) \<longrightarrow> tr_extract T w \<noteq> key))"
proof -
  from erase.probe_impl_spec [OF candidates_cand_of [OF lay, of T key] probe_inv_start [OF k lay pl], of "make_fp T key"]
  obtain r st' where "erase_impl T key st = Some (r, st')"
    "erase.settles (fst st) key (\<lambda>c. c \<in> set (cs_list (get_candidates T key (fst st)))) r st st'"
    by (auto simp: erase_impl_def Let_def simp del: split_paired_Ex)
  then show ?thesis using candidates_none [OF pl]
    by (intro exI [of _ r] exI [of _ st']) (auto simp: erase.settles_def split: option.splits)
qed

end

section \<open>The two traits of the file system\<close>

text \<open>The directory entries: names that fit into \<open>name_\<close> with their terminator.\<close>

definition valid_dirent :: "Dirent \<Rightarrow> bool" where "valid_dirent d \<longleftrightarrow> length (d_name d) < 64"

text \<open>A longer name matches no stored entry, so a lookup may ask for any name.\<close>

lemma take_eq_short: "length xs < n \<Longrightarrow> take n xs = take n ys \<longleftrightarrow> xs = ys"
  by (metis length_take min_less_iff_conj nat_less_le take_all_iff take_all linorder_le_less_linear min.absorb4 min_def)

interpretation dirents: key_traits "dirent_traits hash_u64 hash_string" valid_dirent "\<lambda>_. True" for hash_u64 hash_string
  by unfold_locales
    (auto simp: dirent_traits_def dirent_match_def dirent_extract_def valid_dirent_def prod_eq_iff take_eq_short)

interpretation inodes: key_traits inode_traits "\<lambda>_. True" "\<lambda>_. True"
  by unfold_locales (auto simp: inode_traits_def)

end
