(* ===== verification/LevelHashtableResize.thy ===== *)
theory LevelHashtableResize
  imports LevelHashtableProbe
begin

text \<open>
  Resizing: the entries of the old bottom level move, bucket by bucket, into the new layout while the
  table serves requests. The invariant \<open>ht_inv\<close> holds through the whole protocol, and no step of it
  changes the bag of the table. The public operations are then described by their effect on the bag.
\<close>

unbundle bit_operations_syntax

section \<open>The bag of a table and its levels\<close>

lemma bag_Cons:
  assumes "b \<notin> fst ` set L"
  shows "bag ((b, n) # L) m = bag [(b, n)] m + bag L m"
proof -
  have "locs ((b, n) # L) = locs [(b, n)] \<union> locs L" "locs [(b, n)] \<inter> locs L = {}"
    using assms by (auto simp: locs_def) force
  then show ?thesis unfolding bag_def by (simp add: sum.union_disjoint)
qed

lemma bag_set: "set L = set L' \<Longrightarrow> bag L m = bag L' m"
  by (simp add: bag_def locs_def)

lemma bag_empty:
  assumes "\<And>i s. i < n \<Longrightarrow> s < kSlots \<Longrightarrow> cell m b i s = None"
  shows "bag [(b, n)] m = {#}"
  unfolding bag_def by (rule sum.neutral) (use assms in \<open>auto simp: locs_def\<close>)

definition bucket_bag :: "'v hmem \<Rightarrow> nat \<Rightarrow> nat \<Rightarrow> (nat \<Rightarrow> bool) \<Rightarrow> 'v multiset" where
  "bucket_bag m b i P = (\<Sum>s\<in>{s. s < kSlots \<and> P s}. cell_bag (cell m b i s))"

text \<open>A step that changes the cells of one bucket.\<close>

lemma bag_bucket:
  assumes l: "(b, n) \<in> set L" "i < n"
    and eq: "\<And>b' i' s'. b' \<noteq> b \<or> i' \<noteq> i \<Longrightarrow> cell m' b' i' s' = cell m b' i' s'"
  shows "bag L m' + bucket_bag m b i (\<lambda>_. True) = bag L m + bucket_bag m' b i (\<lambda>_. True)"
proof -
  let ?f = "\<lambda>m (b, i, s). cell_bag (cell m b i s)" and ?B = "(\<lambda>s. (b, i, s)) ` {..<kSlots}"
  have sub: "?B \<subseteq> locs L" using l by (auto simp: mem_locs)
  have split: "bag L m = sum (?f m) (locs L - ?B) + bucket_bag m b i (\<lambda>_. True)" for m
  proof -
    have "bag L m = sum (?f m) (locs L - ?B) + sum (?f m) ?B"
      unfolding bag_def by (rule sum.subset_diff [OF sub finite_locs])
    also have "sum (?f m) ?B = bucket_bag m b i (\<lambda>_. True)"
      by (subst sum.reindex) (auto simp: inj_on_def bucket_bag_def lessThan_def)
    finally show ?thesis .
  qed
  have "sum (?f m') (locs L - ?B) = sum (?f m) (locs L - ?B)"
  proof (rule sum.cong)
    fix x assume x: "x \<in> locs L - ?B"
    obtain b' i' s' where "x = (b', i', s')" by (metis surj_pair)
    with x have "b' \<noteq> b \<or> i' \<noteq> i" by (auto simp: mem_locs)
    then show "?f m' x = ?f m x" using eq \<open>x = (b', i', s')\<close> by simp
  qed simp
  then show ?thesis by (simp add: split [of m] split [of m'] ac_simps)
qed

lemma bucket_bag_split:
  "bucket_bag m b i (\<lambda>_. True) = bucket_bag m b i P + bucket_bag m b i (\<lambda>s. \<not> P s)"
  unfolding bucket_bag_def by (subst sum.union_disjoint [symmetric]) (auto intro!: sum.cong)

section \<open>Moving the entries of a bucket\<close>

lemma adds_levels: "adds T valid L Bs D d st st' \<Longrightarrow> levels (fst st') = levels (fst st) \<and> cur_levels (fst st') = cur_levels (fst st)"
  by (auto simp: adds_def bucket_frame_def levels_def)

lemma adds_other_base: "adds T valid L Bs D d st st' \<Longrightarrow> b \<notin> Bs \<Longrightarrow> hm_bucket (snd st') b = hm_bucket (snd st) b"
  by (simp add: adds_def bucket_frame_def)

lemma bucket_cell: "hm_bucket m' b = hm_bucket m b \<Longrightarrow> cell m' b i s = cell m b i s"
  by (simp add: cell_def read_hr_def read_val_def)

lemma migrate_slots_spec:
  assumes lay: "layout_ok (levels (fst st))" and old: "(b, n) \<in> set (levels (fst st))" "i < n" "b \<notin> cur_levels (fst st)"
    and pl: "placed T valid (levels (fst st)) (snd st)" and cur: "current b i metas (snd st)"
    and js: "distinct js" "set js \<subseteq> {..<kSlots}"
    and e: "migrate_slots T b i metas js mig st = (mig', st')"
  shows "adds T valid (levels (fst st)) (cur_levels (fst st)) (bucket_bag (snd st) b i (\<lambda>j. j \<in> set js \<and> mig' j)) 0 st st' \<and>
    (\<forall>j. j \<notin> set js \<longrightarrow> mig' j = mig j) \<and> (\<forall>j\<in>set js. cell (snd st) b i j = None \<longrightarrow> mig' j)"
  using assms
proof (induction js arbitrary: mig st)
  case Nil
  then show ?case by (auto simp: bucket_bag_def intro: adds_refl)
next
  case (Cons j js)
  let ?L = "levels (fst st)" and ?Bs = "cur_levels (fst st)"
  have j: "j < kSlots" "j \<notin> set js" "distinct js" "set js \<subseteq> {..<kSlots}" using Cons.prems(7,8) by auto
  have insert_bag: "bucket_bag (snd st) b i (\<lambda>k. k \<in> set (j # js) \<and> mig' k) =
      (if mig' j then cell_bag (cell (snd st) b i j) else {#}) + bucket_bag (snd st) b i (\<lambda>k. k \<in> set js \<and> mig' k)"
  proof -
    have "{s. s < kSlots \<and> s \<in> set (j # js) \<and> mig' s} =
        (if mig' j then insert j {s. s < kSlots \<and> s \<in> set js \<and> mig' s} else {s. s < kSlots \<and> s \<in> set js \<and> mig' s})" using j by auto
    then show ?thesis using j by (simp add: bucket_bag_def)
  qed
  show ?case
  proof (cases "slot_fp metas j = 0")
    case True
    then have n: "cell (snd st) b i j = None" using Cons.prems(6) by (simp add: cell_def current_def)
    have "migrate_slots T b i metas js (mig(j := True)) st = (mig', st')" using Cons.prems(9) True by simp
    from Cons.IH [OF Cons.prems(1-6) j(3,4) this] show ?thesis using n j(2) insert_bag by auto
  next
    case False
    let ?w = "read_val b i j (snd st)"
    have c: "cell (snd st) b i j = Some (slot_fp metas j, ?w)" using cell_current [OF Cons.prems(6) False] .
    note V = victim [OF Cons.prems(5,2,3) j(1) c]
    obtain r st1 where x: "insert_to_new_layout T (make_fp T (tr_extract T ?w)) ?w st = (r, st1)" by (rule prod.exhaust)
    have a: "adds T valid ?L ?Bs (if r then {#?w#} else {#}) 0 st st1"
      by (rule insert_to_new_layout_spec [OF Cons.prems(1,5) V(1) x])
    have lv: "levels (fst st1) = ?L" "cur_levels (fst st1) = ?Bs" using adds_levels [OF a] by simp_all
    note same = adds_other_base [OF a Cons.prems(4)]
    have e1: "migrate_slots T b i metas js (mig(j := r)) st1 = (mig', st')" using Cons.prems(9) False x V(2) by simp
    have cur1: "current b i metas (snd st1)" using Cons.prems(6) same by (simp add: current_def read_hr_def)
    have pl1: "placed T valid (levels (fst st1)) (snd st1)" using addsD [OF a] lv by simp
    note I = Cons.IH [of st1, unfolded lv, OF Cons.prems(1-4) pl1 [unfolded lv] cur1 j(3,4) e1]
    have bb: "bucket_bag (snd st1) b i P = bucket_bag (snd st) b i P" for P
      unfolding bucket_bag_def by (rule sum.cong) (simp_all add: bucket_cell [OF same])
    have m: "mig' j = r" using I j(2) by simp
    have "adds T valid ?L ?Bs ((if r then {#?w#} else {#}) + bucket_bag (snd st) b i (\<lambda>k. k \<in> set js \<and> mig' k)) (0 + 0) st st'"
      by (rule adds_trans [OF a]) (use I bb in simp)
    then show ?thesis using I insert_bag m c bucket_cell [OF same] by auto
  qed
qed

lemma placed_shrink:
  assumes "placed T valid L m" "\<And>b i s. cell m' b i s = None \<or> cell m' b i s = cell m b i s"
  shows "placed T valid L m'"
  using assms unfolding placed_def by (metis option.distinct(1))

definition remaining :: "(nat \<Rightarrow> u64) \<Rightarrow> (nat \<Rightarrow> bool) \<Rightarrow> nat \<Rightarrow> u64" where
  "remaining metas mig = set_unlocked_meta0 (\<lambda>j. if 1 \<le> j \<and> j < kSlots \<and> \<not> mig j then slot_fp metas j else 0)
     (metas 0) (if mig 0 then 0 else slot_fp metas 0)"

lemma slot_fp_remaining: "slot_fp (remaining metas mig) j = (if j < kSlots \<and> \<not> mig j then slot_fp metas j else 0)"
proof -
  have "(if mig 0 then 0 else slot_fp metas 0) AND kFpMask = (if mig 0 then 0 else slot_fp metas 0)" by (simp add: slot_fp_def)
  from slot_fp_unlocked [OF this] show ?thesis
    by (auto simp: remaining_def slot_fp_def kSlots_def)
qed

lemma migrate_bucket_spec:
  assumes lay: "layout_ok (levels t)" and old: "(b, n) \<in> set (levels t)" "i < n" "b \<notin> cur_levels t"
    and pl: "placed T valid (levels t) m" and metas: "metas = read_hr b i m"
    and l: "cas_hr b i (metas 0) (make_locked (metas 0)) m = (sw, m1)"
    and ms: "migrate_slots T b i metas [0..<kSlots] (\<lambda>_. False) (t, m1) = (mig, t2, m2)"
    and m3: "m3 = write_hr b i (remaining metas mig) m2"
  shows "adds T valid (levels t) (bases t) {#} 0 (t, m) (t2, m3)"
    "\<And>i' s. i' \<noteq> i \<Longrightarrow> cell m3 b i' s = cell m b i' s" "\<And>s. s < kSlots \<Longrightarrow> mig s \<Longrightarrow> cell m3 b i s = None"
proof -
  note LS = lock_still [OF l]
  have c1: "cell m1 = cell m" using LS(1) by (simp add: still_def)
  have b: "b \<in> bases t" "cur_levels t \<subseteq> bases t" using old(1) by (force simp: levels_def)+
  have a1: "adds T valid (levels t) (bases t) {#} 0 (t, m) (t, m1)" using still_adds [OF LS(1) b(1)] pl by simp
  have pl1: "placed T valid (levels t) m1" using addsD [OF a1] by simp
  have cur: "current b i metas m1" using LS(2) by (simp add: metas)
  have M: "adds T valid (levels t) (cur_levels t) (bucket_bag m1 b i (\<lambda>j. j \<in> set [0..<kSlots] \<and> mig j)) 0 (t, m1) (t2, m2)"
    using migrate_slots_spec [where st = "(t, m1)", unfolded fst_conv snd_conv, OF lay old pl1 cur _ _ ms] by (simp add: atLeast0LessThan)
  have same: "hm_bucket m2 b = hm_bucket m1 b" using adds_other_base [OF M old(3)] by simp
  have c2: "cell m2 b i' s = cell m b i' s" for i' s using bucket_cell [OF same] c1 by simp
  have cur2: "slot_fp (read_hr b i m2) s = slot_fp metas s" for s using cur same by (simp add: current_def read_hr_def)
  have c3: "cell m3 b' i' s = (if b' = b \<and> i' = i then (if s < kSlots \<and> \<not> mig s then cell m2 b i s else None) else cell m2 b' i' s)" for b' i' s
    by (auto simp: cell_def m3 slot_fp_remaining cur2)
  show "\<And>i' s. i' \<noteq> i \<Longrightarrow> cell m3 b i' s = cell m b i' s" "\<And>s. s < kSlots \<Longrightarrow> mig s \<Longrightarrow> cell m3 b i s = None"
    using c2 c3 by simp_all
  have "bag (levels t) m3 + bucket_bag m2 b i (\<lambda>_. True) = bag (levels t) m2 + bucket_bag m3 b i (\<lambda>_. True)"
    by (rule bag_bucket [OF old(1,2)]) (use c3 in auto)
  moreover have "bucket_bag m3 b i (\<lambda>_. True) = bucket_bag m2 b i (\<lambda>s. \<not> mig s)"
  proof -
    have "bucket_bag m3 b i mig = {#}" "bucket_bag m3 b i (\<lambda>s. \<not> mig s) = bucket_bag m2 b i (\<lambda>s. \<not> mig s)"
      unfolding bucket_bag_def by (rule sum.neutral, simp add: c3, rule sum.cong, simp_all add: c3)
    then show ?thesis by (simp add: bucket_bag_split [of m3 b i mig])
  qed
  moreover have "bag (levels t) m2 = bag (levels t) m1 + bucket_bag m2 b i mig"
    using M by (simp add: adds_def bucket_bag_def bucket_cell [OF same] cong: conj_cong)
  moreover have "bag (levels t) m1 = bag (levels t) m" using a1 by (simp add: adds_def)
  ultimately have bag: "bag (levels t) m3 = bag (levels t) m" by (simp add: bucket_bag_split [of m2 b i mig])
  have pl3: "placed T valid (levels t) m3" by (rule placed_shrink [of T valid _ m2]) (use addsD [OF M] c3 in auto)
  have "bucket_frame (bases t) (t2, m2) (t2, m3)" unfolding m3 by (rule write_hr_frame [OF b(1)])
  moreover have "bucket_frame (bases t) (t, m1) (t2, m2)" using M b(2) by (auto simp: adds_def intro: frame_mono)
  ultimately have "bucket_frame (bases t) (t, m) (t2, m3)"
    using a1 by (auto simp: adds_def intro: bucket_frame_trans)
  then show "adds T valid (levels t) (bases t) {#} 0 (t, m) (t2, m3)" using bag pl3 M by (simp add: adds_def)
qed

section \<open>The invariant of a table\<close>

abbreviation tbag :: "'v hts \<Rightarrow> 'v multiset" where
  "tbag st \<equiv> bag (levels (fst st)) (snd st)"

text \<open>Regions come from a bump allocator over zeroed memory: nothing lies at or beyond the frontier.\<close>

definition frontier :: "'v hmem \<Rightarrow> nat" where
  "frontier m = hm_pool_base m + na_offset (hm_alloc m)"

definition fresh_beyond :: "ht \<Rightarrow> 'v hmem \<Rightarrow> bool" where
  "fresh_beyond t m \<longleftrightarrow> (\<forall>b\<in>bases t. b < frontier m) \<and> (\<forall>b\<ge>frontier m. \<forall>i s. cell m b i s = None)"

text \<open>The resize protocol with one metadata server, which initiates and finishes each resize.\<close>

definition layout_published :: "ht \<Rightarrow> 'v hmem \<Rightarrow> bool" where
  "layout_published t m \<longleftrightarrow>
     rm_tl_offset (hm_meta m) = ht_tl_offset t \<and> rm_tl_size (hm_meta m) = ht_tl_n t \<and>
     rm_bl_offset (hm_meta m) = ht_bl_offset t \<and> rm_bl_size (hm_meta m) = ht_bl_n t"

definition at_rest :: "ht \<Rightarrow> 'v hmem \<Rightarrow> bool" where
  "at_rest t m \<longleftrightarrow> \<not> ht_mig_active t \<and> \<not> ht_migration_begun t \<and> rc_state (rm_ctrl (hm_meta m)) = 0 \<and>
     (0 < rm_tl_size (hm_meta m) \<longrightarrow> layout_published t m)"

definition drained :: "ht \<Rightarrow> 'v hmem \<Rightarrow> bool" where
  "drained t m \<longleftrightarrow> (\<forall>i s. i < lc_local_cursor (ht_cache t) \<longrightarrow> s < kSlots \<longrightarrow> cell m (ht_mig_old_bl_offset t) i s = None)"

definition migrating :: "ht \<Rightarrow> 'v hmem \<Rightarrow> bool" where
  "migrating t m \<longleftrightarrow> ht_mig_active t \<and> ht_migration_begun t \<and> layout_published t m \<and>
     rm_ctrl (hm_meta m) = (if lc_done_reported (ht_cache t) then 0x1010001 else 0x10001) \<and>
     lc_state (ht_cache t) = RS_MIGRATING \<and> lc_old_bl_offset (ht_cache t) = ht_mig_old_bl_offset t \<and>
     lc_range_end (ht_cache t) = ht_mig_old_bl_n t \<and> drained t m \<and>
     (lc_range_done (ht_cache t) \<longrightarrow> lc_range_end (ht_cache t) \<le> lc_local_cursor (ht_cache t) \<and> lc_done_reported (ht_cache t))"

definition resize_inv :: "ht \<Rightarrow> 'v hmem \<Rightarrow> bool" where
  "resize_inv t m \<longleftrightarrow>
     (if ht_resize_enabled t
      then ht_mds_id t = 0 \<and> ht_rcfg_n_mds t = 1 \<and> hm_notify m 0 = lc_version (ht_cache t) \<and> (at_rest t m \<or> migrating t m)
      else \<not> ht_mig_active t)"

definition ht_inv :: "('k, 'v) ht_traits \<Rightarrow> ('v \<Rightarrow> bool) \<Rightarrow> 'v hts \<Rightarrow> bool" where
  "ht_inv T valid st \<longleftrightarrow> layout_ok (levels (fst st)) \<and> placed T valid (levels (fst st)) (snd st) \<and>
     ht_size (fst st) = of_nat (size (tbag st)) \<and> fresh_beyond (fst st) (snd st) \<and> resize_inv (fst st) (snd st)"

lemmas ht_invD = ht_inv_def [THEN iffD1, THEN conjunct1] ht_inv_def [THEN iffD1, THEN conjunct2, THEN conjunct1]

text \<open>Steps on the buckets of the table keep the rest of the invariant.\<close>

lemma frame_fields:
  assumes "bucket_frame Bs (t, m) (t', m')"
  shows "levels t' = levels t" "ht_cache t' = ht_cache t" "hm_meta m' = hm_meta m" "hm_notify m' = hm_notify m"
    "frontier m' = frontier m" "b \<notin> Bs \<Longrightarrow> cell m' b i s = cell m b i s" "hm_alloc m' = hm_alloc m"
  using assms by (auto simp: bucket_frame_def levels_def frontier_def cell_def read_hr_def read_val_def)

lemma resize_inv_frame:
  assumes f: "bucket_frame Bs (t, m) (t', m')" and d: "drained t m \<Longrightarrow> ht_mig_active t \<Longrightarrow> drained t' m'" and i: "resize_inv t m"
  shows "resize_inv t' m'"
proof -
  obtain h z where t': "t' = t\<lparr>ht_hint := h, ht_size := z\<rparr>" using f by (auto simp: bucket_frame_def)
  have "at_rest t m \<Longrightarrow> at_rest t' m'" using frame_fields [OF f] by (simp add: at_rest_def layout_published_def t')
  moreover have "migrating t m \<Longrightarrow> migrating t' m'"
    using frame_fields [OF f] d by (auto simp: migrating_def layout_published_def t')
  ultimately show ?thesis using i frame_fields [OF f] by (auto simp: resize_inv_def t')
qed

lemma ht_inv_frame:
  assumes inv: "ht_inv T valid (t, m)" and f: "bucket_frame (bases t) (t, m) (t', m')" and pl: "placed T valid (levels t) m'"
    and sz: "ht_size t' = of_nat (size (bag (levels t) m'))"
    and d: "drained t m \<Longrightarrow> ht_mig_active t \<Longrightarrow> drained t' m'"
  shows "ht_inv T valid (t', m')"
proof -
  note F = frame_fields [OF f]
  have "b \<notin> bases t" if "frontier m \<le> b" for b using inv that by (auto simp: ht_inv_def fresh_beyond_def)
  then have "fresh_beyond t' m'" using inv F by (auto simp: ht_inv_def fresh_beyond_def)
  then show ?thesis using inv pl sz F(1) resize_inv_frame [OF f d] by (simp add: ht_inv_def)
qed

text \<open>An insertion step, which only writes to the current levels, keeps the invariant.\<close>

lemma old_not_current: "layout_ok (levels t) \<Longrightarrow> ht_mig_active t \<Longrightarrow> ht_mig_old_bl_offset t \<notin> cur_levels t"
  by (auto simp: layout_ok_def levels_def)

lemma ht_inv_adds:
  assumes inv: "ht_inv T valid (t, m)" and a: "adds T valid (levels t) (cur_levels t) D (of_nat (size D)) (t, m) (t', m')"
  shows "ht_inv T valid (t', m')" "tbag (t', m') = tbag (t, m) + D"
proof -
  have f: "bucket_frame (cur_levels t) (t, m) (t', m')" and p: "placed T valid (levels t) m'" using a by (auto simp: adds_def)
  have f': "bucket_frame (bases t) (t, m) (t', m')" by (rule frame_mono [OF f]) (auto simp: levels_def)
  have dr: "drained t' m'" if "drained t m" "ht_mig_active t"
  proof -
    have "ht_mig_old_bl_offset t \<notin> cur_levels t" using old_not_current that(2) inv by (auto simp: ht_inv_def)
    moreover have "ht_mig_old_bl_offset t' = ht_mig_old_bl_offset t" using f by (auto simp: bucket_frame_def)
    ultimately show ?thesis using that(1) frame_fields(2,6) [OF f] by (simp add: drained_def)
  qed
  show "ht_inv T valid (t', m')"
    by (rule ht_inv_frame [OF inv f' p _ dr]) (use inv a in \<open>simp_all add: adds_def ht_inv_def\<close>)
  show "tbag (t', m') = tbag (t, m) + D" using a frame_fields(1) [OF f] by (simp add: adds_def)
qed

lemma insert_impl_inv:
  assumes inv: "ht_inv T valid st" and v: "valid v" and e: "insert_impl T (tr_extract T v) v st = (r, st')"
  shows "ht_inv T valid st'" "tbag st' = tbag st + (if r then {#v#} else {#})"
    "ht_resize_enabled (fst st') = ht_resize_enabled (fst st)" "ht_mig_active (fst st') = ht_mig_active (fst st)"
    "hm_alloc (snd st') = hm_alloc (snd st)" "ht_tl_n (fst st') = ht_tl_n (fst st)"
proof -
  have a: "adds T valid (levels (fst st)) (cur_levels (fst st)) (if r then {#v#} else {#}) (of_nat (size (if r then {#v#} else {#}))) st st'"
    using insert_impl_spec [OF ht_invD [OF inv] v e] by (cases r) simp_all
  show "ht_inv T valid st'" "tbag st' = tbag st + (if r then {#v#} else {#})"
    using ht_inv_adds [of T valid "fst st" "snd st" _ "fst st'" "snd st'"] inv a by simp_all
  show "ht_resize_enabled (fst st') = ht_resize_enabled (fst st)" "ht_mig_active (fst st') = ht_mig_active (fst st)"
    "hm_alloc (snd st') = hm_alloc (snd st)" "ht_tl_n (fst st') = ht_tl_n (fst st)"
    using a by (auto simp: adds_def bucket_frame_def)
qed

section \<open>Migration keeps the bag\<close>

lemma ctrl_words [simp]:
  "rc_state 0x10001 = 1" "rc_state 0x1010001 = 1" "rc_state 0x1010000 = 0"
  "rc_initiator 0x1010001 = 0" "rc_n_mds 0x1010001 = 1" "rc_n_mds 0x10001 = 1" "rc_done_count 0x1010001 = 1" "rc_done_count 0x10001 = 0"
  "((0x1010001 :: u64) AND NOT 0xFF) OR 0 = 0x1010000" "rc_pack 1 0 1 0 = 0x10001"
  "((0x10001 :: u64) AND NOT (push_bit 24 0xFF)) OR push_bit 24 (ucast (0 :: u8) + 1) = 0x1010001"
  by (code_simp)+

lemma levels_upd [simp]:
  "levels (t\<lparr>ht_cache := c\<rparr>) = levels t" "levels (t\<lparr>ht_hint := h\<rparr>) = levels t" "levels (t\<lparr>ht_size := z\<rparr>) = levels t"
  "levels (t\<lparr>ht_layout_epoch := n\<rparr>) = levels t" "levels (t\<lparr>ht_migration_begun := b\<rparr>) = levels t"
  by (simp_all add: levels_def)

lemma cell_upd [simp]:
  "cell (m\<lparr>hm_meta := x\<rparr>) = cell m" "cell (m\<lparr>hm_notify := y\<rparr>) = cell m" "cell (m\<lparr>hm_alloc := a\<rparr>) = cell m"
  by (simp_all add: cell_def read_hr_def read_val_def fun_eq_iff)

lemma same_cells:
  assumes "cell m' = cell m"
  shows "bag L m' = bag L m" "placed T valid L m' = placed T valid L m"
  using assms by (simp_all add: bag_def placed_def)

lemma pre_op_idle: "ht_inv T valid st \<Longrightarrow> pre_op st = Some st"
  by (cases st) (auto simp: ht_inv_def resize_inv_def pre_op_def check_resize_def check_version_changed_def poll_local_version_def
      at_rest_def migrating_def)

lemma increment_done: "rm_ctrl (hm_meta m) = 0x10001 \<Longrightarrow>
    increment_done_count m = Some (m\<lparr>hm_meta := (hm_meta m)\<lparr>rm_ctrl := 0x1010001\<rparr>\<rparr>)"
  by (subst increment_done_count.simps) (simp add: read_meta_ctrl_def cas_meta_ctrl_def Let_def)

lemma cursor_inv:
  assumes inv: "ht_inv T valid (t, m)" and mig: "migrating t m" and nd: "\<not> lc_range_done (ht_cache t)"
    and cells: "\<And>s. s < kSlots \<Longrightarrow> cell m (ht_mig_old_bl_offset t) (lc_local_cursor (ht_cache t)) s = None"
  shows "ht_inv T valid (t\<lparr>ht_cache := (ht_cache t)\<lparr>lc_local_cursor := lc_local_cursor (ht_cache t) + 1\<rparr>\<rparr>, m)"
proof -
  let ?t = "t\<lparr>ht_cache := (ht_cache t)\<lparr>lc_local_cursor := lc_local_cursor (ht_cache t) + 1\<rparr>\<rparr>"
  have d: "drained ?t m" using mig cells by (auto simp: drained_def migrating_def less_Suc_eq)
  have "migrating ?t m" using mig nd d by (auto simp: migrating_def layout_published_def)
  then show ?thesis using inv by (auto simp: ht_inv_def resize_inv_def fresh_beyond_def)
qed

lemma report_inv:
  assumes inv: "ht_inv T valid (t, m)" and mig: "migrating t m" and e: "lc_range_end (ht_cache t) \<le> lc_local_cursor (ht_cache t)"
  shows "ht_inv T valid (t\<lparr>ht_cache := (ht_cache t)\<lparr>lc_done_reported := True, lc_range_done := True\<rparr>\<rparr>,
      m\<lparr>hm_meta := (hm_meta m)\<lparr>rm_ctrl := 0x1010001\<rparr>\<rparr>)" (is "ht_inv T valid (?t, ?m)")
proof -
  have "migrating ?t ?m" using mig e by (auto simp: migrating_def layout_published_def drained_def)
  moreover have "bag L ?m = bag L m" "placed T valid L ?m = placed T valid L m" for L by (rule same_cells; simp)+
  ultimately show ?thesis using inv by (auto simp: ht_inv_def resize_inv_def fresh_beyond_def frontier_def)
qed

lemma migrate_move_inv:
  assumes inv: "ht_inv T valid (t, m)" and mig: "migrating t m" and nd: "\<not> lc_range_done (ht_cache t)"
    and i: "lc_local_cursor (ht_cache t) < ht_mig_old_bl_n t"
    and free: "\<not> is_dirty (read_hr (ht_mig_old_bl_offset t) (lc_local_cursor (ht_cache t)) m 0)"
    and some: "list_ex (\<lambda>j. slot_fp (read_hr (ht_mig_old_bl_offset t) (lc_local_cursor (ht_cache t)) m) j \<noteq> 0) [0..<kSlots]"
  shows "\<exists>t' m'. migrate_step T (t, m) = Some (t', m') \<and> ht_inv T valid (t', m') \<and> tbag (t', m') = tbag (t, m) \<and>
    ht_migration_begun t' = ht_migration_begun t \<and> ht_resize_enabled t' = ht_resize_enabled t \<and> hm_alloc m' = hm_alloc m"
proof -
  let ?c = "ht_cache t"
  let ?i = "lc_local_cursor ?c" and ?b = "ht_mig_old_bl_offset t"
  let ?metas = "read_hr ?b ?i m"
  have ob: "lc_old_bl_offset ?c = ?b" "lc_state ?c = RS_MIGRATING" "lc_range_end ?c = ht_mig_old_bl_n t" "ht_mig_active t"
    using mig by (auto simp: migrating_def)
  have lay: "layout_ok (levels t)" and pl: "placed T valid (levels t) m" using inv by (auto simp: ht_inv_def)
  have old: "(?b, ht_mig_old_bl_n t) \<in> set (levels t)" "?b \<notin> cur_levels t" using ob lay old_not_current by (auto simp: levels_def)
  obtain m1 where l: "cas_hr ?b ?i (?metas 0) (make_locked (?metas 0)) m = (True, m1)"
    by (rule lock_free [where b = ?b and i = ?i and m = m and t = t])
  obtain migd t2 m2 where ms: "migrate_slots T ?b ?i ?metas [0..<kSlots] (\<lambda>_. False) (t, m1) = (migd, t2, m2)" by (metis surj_pair)
  define m3 where "m3 = write_hr ?b ?i (remaining ?metas migd) m2"
  note B = migrate_bucket_spec [OF lay old(1) i old(2) pl refl l ms m3_def]
  have f: "bucket_frame (bases t) (t, m) (t2, m3)" using B(1) by (simp add: adds_def)
  then obtain h z where t2: "t2 = t\<lparr>ht_hint := h, ht_size := z\<rparr>" by (auto simp: bucket_frame_def)
  note F = frame_fields [OF f]
  have dr: "drained t2 m3" if "drained t m" using that B(2) by (auto simp: drained_def t2)
  have inv2: "ht_inv T valid (t2, m3)"
    by (rule ht_inv_frame [OF inv f]) (use B(1) inv dr in \<open>auto simp: adds_def ht_inv_def\<close>)
  have bag2: "tbag (t2, m3) = tbag (t, m)" using B(1) F(1) by (simp add: adds_def)
  have mig2: "migrating t2 m3" using mig dr F by (auto simp: migrating_def layout_published_def t2)
  have e: "migrate_step T (t, m) = Some (if list_all migd [0..<kSlots] then t2\<lparr>ht_cache := (ht_cache t2)\<lparr>lc_local_cursor := ?i + 1\<rparr>\<rparr> else t2, m3)"
    using nd i free some ob l ms by (simp add: migrate_step_def Let_def m3_def remaining_def)
  show ?thesis
  proof (cases "list_all migd [0..<kSlots]")
    case True
    have "cell m3 ?b ?i s = None" if "s < kSlots" for s using B(3) True that by (auto simp: list_all_iff)
    then have "ht_inv T valid (t2\<lparr>ht_cache := (ht_cache t2)\<lparr>lc_local_cursor := ?i + 1\<rparr>\<rparr>, m3)"
      using cursor_inv [OF inv2 mig2] nd by (simp add: t2)
    then show ?thesis using e True bag2 F(7) by (simp add: t2)
  next
    case False
    then show ?thesis using e inv2 bag2 F(7) by (simp add: t2)
  qed
qed

lemma migrate_step_inv:
  assumes inv: "ht_inv T valid (t, m)" and mig: "migrating t m" and en: "ht_resize_enabled t"
  shows "\<exists>t' m'. migrate_step T (t, m) = Some (t', m') \<and> ht_inv T valid (t', m') \<and> tbag (t', m') = tbag (t, m) \<and>
    ht_migration_begun t' \<and> ht_resize_enabled t' \<and> hm_alloc m' = hm_alloc m"
proof -
  let ?c = "ht_cache t"
  let ?i = "lc_local_cursor ?c" and ?b = "ht_mig_old_bl_offset t"
  let ?metas = "read_hr ?b ?i m"
  have ob: "lc_old_bl_offset ?c = ?b" "lc_state ?c = RS_MIGRATING" "lc_range_end ?c = ht_mig_old_bl_n t" "ht_migration_begun t" "ht_mig_active t"
    using mig by (auto simp: migrating_def)
  consider (idle) "lc_range_done ?c \<or> \<not> lc_range_done ?c \<and> ?i < lc_range_end ?c \<and> is_dirty (?metas 0)"
    | (report) "\<not> lc_range_done ?c" "lc_range_end ?c \<le> ?i"
    | (empty) "\<not> lc_range_done ?c" "?i < lc_range_end ?c" "\<not> is_dirty (?metas 0)" "\<not> list_ex (\<lambda>j. slot_fp ?metas j \<noteq> 0) [0..<kSlots]"
    | (move) "\<not> lc_range_done ?c" "?i < lc_range_end ?c" "\<not> is_dirty (?metas 0)" "list_ex (\<lambda>j. slot_fp ?metas j \<noteq> 0) [0..<kSlots]"
    by linarith
  then show ?thesis
  proof cases
    case idle
    then have "migrate_step T (t, m) = Some (t, m)" using ob by (auto simp: migrate_step_def Let_def)
    then show ?thesis using inv ob en by simp
  next
    case report
    let ?m = "m\<lparr>hm_meta := (hm_meta m)\<lparr>rm_ctrl := 0x1010001\<rparr>\<rparr>"
    let ?t = "t\<lparr>ht_cache := ?c\<lparr>lc_done_reported := True, lc_range_done := True\<rparr>\<rparr>"
    have "(if \<not> lc_done_reported ?c then increment_done_count m else Some m) = Some ?m"
      using mig increment_done by (auto simp: migrating_def)
    then have "migrate_step T (t, m) = Some (?t, ?m)" using report ob by (simp add: migrate_step_def Let_def)
    moreover have "tbag (?t, ?m) = tbag (t, m)" by (simp add: bag_def)
    ultimately show ?thesis using report_inv [OF inv mig report(2)] ob en by simp
  next
    case empty
    have "cell m ?b ?i s = None" if "s < kSlots" for s using empty(4) that by (auto simp: cell_def list_ex_iff)
    note C = cursor_inv [OF inv mig empty(1) this]
    have "migrate_step T (t, m) = Some (t\<lparr>ht_cache := ?c\<lparr>lc_local_cursor := ?i + 1\<rparr>\<rparr>, m)"
      using empty ob by (simp add: migrate_step_def Let_def)
    then show ?thesis using C ob en by simp
  next
    case move
    then show ?thesis using migrate_move_inv [OF inv mig] ob en by simp
  qed
qed

lemma levels_active: "ht_mig_active t \<Longrightarrow> levels t = [(ht_tl_offset t, ht_tl_n t), (ht_bl_offset t, ht_bl_n t), (ht_mig_old_bl_offset t, ht_mig_old_bl_n t)]"
  by (simp add: levels_def)

lemma levels_rest: "\<not> ht_mig_active t \<Longrightarrow> levels t = [(ht_tl_offset t, ht_tl_n t), (ht_bl_offset t, ht_bl_n t)]"
  by (simp add: levels_def)

text \<open>When the old bottom level has been drained, dropping it loses nothing.\<close>

lemma drop_old_level:
  assumes lay: "layout_ok (levels t)" and act: "ht_mig_active t"
    and empty: "\<And>i s. i < ht_mig_old_bl_n t \<Longrightarrow> s < kSlots \<Longrightarrow> cell m (ht_mig_old_bl_offset t) i s = None"
  shows "bag [(ht_tl_offset t, ht_tl_n t), (ht_bl_offset t, ht_bl_n t)] m = bag (levels t) m"
proof -
  let ?o = "(ht_mig_old_bl_offset t, ht_mig_old_bl_n t)" and ?L = "[(ht_tl_offset t, ht_tl_n t), (ht_bl_offset t, ht_bl_n t)]"
  have "bag (levels t) m = bag (?o # ?L) m" by (rule bag_set) (auto simp: levels_active [OF act])
  also have "\<dots> = bag [?o] m + bag ?L m" by (rule bag_Cons) (use lay act in \<open>auto simp: layout_ok_def levels_active\<close>)
  also have "bag [?o] m = {#}" by (rule bag_empty) (rule empty)
  finally show ?thesis by simp
qed

lemma placed_sub: "placed T valid L m \<Longrightarrow> set L' \<subseteq> set L \<Longrightarrow> placed T valid L' m"
  unfolding placed_def by blast

lemma check_finalize_idle:
  "\<not> ht_migration_begun t \<or> \<not> lc_range_done (ht_cache t) \<Longrightarrow> check_finalize (t, m) = (t, m)"
  by (simp add: check_finalize_def)

lemma check_finalize_inv:
  assumes inv: "ht_inv T valid (t, m)" and en: "ht_resize_enabled t" and cf: "check_finalize (t, m) = (t', m')"
  shows "ht_inv T valid (t', m') \<and> tbag (t', m') = tbag (t, m) \<and> hm_alloc m' = hm_alloc m \<and> ht_resize_enabled t'"
proof (cases "ht_migration_begun t \<and> lc_range_done (ht_cache t)")
  case False
  then show ?thesis using cf check_finalize_idle [of t m] inv en by auto
next
  case True
  then have mig: "migrating t m" and id: "ht_mds_id t = 0" "ht_rcfg_n_mds t = 1"
    using inv en by (auto simp: ht_inv_def resize_inv_def at_rest_def)
  then have r: "lc_range_end (ht_cache t) \<le> lc_local_cursor (ht_cache t)" and ctrl: "rm_ctrl (hm_meta m) = 0x1010001"
    and act: "ht_mig_active t" and pub: "layout_published t m"
    using True by (auto simp: migrating_def)
  have lay: "layout_ok (levels t)" and pl: "placed T valid (levels t) m" using inv by (auto simp: ht_inv_def)
  let ?L = "[(ht_tl_offset t, ht_tl_n t), (ht_bl_offset t, ht_bl_n t)]"
  have bag: "bag ?L m = bag (levels t) m"
    by (rule drop_old_level [OF lay act]) (use mig r in \<open>auto simp: migrating_def drained_def\<close>)
  have m': "cell m' = cell m" "hm_meta m' = (hm_meta m)\<lparr>rm_ctrl := 0x1010000, rm_version := rm_version (hm_meta m) + 1\<rparr>"
    "hm_notify m' 0 = rm_version (hm_meta m) + 1" "hm_alloc m' = hm_alloc m" "frontier m' = frontier m"
    and t': "levels t' = ?L" "\<not> ht_mig_active t'" "\<not> ht_migration_begun t'" "ht_mds_id t' = 0" "ht_rcfg_n_mds t' = 1"
      "lc_version (ht_cache t') = rm_version (hm_meta m) + 1" "ht_resize_enabled t'" "ht_size t' = ht_size t"
      "ht_tl_offset t' = ht_tl_offset t" "ht_tl_n t' = ht_tl_n t" "ht_bl_offset t' = ht_bl_offset t" "ht_bl_n t' = ht_bl_n t"
    using cf True ctrl id en
    by (auto simp: check_finalize_def read_meta_ctrl_def cas_meta_ctrl_def notify_all_mds_def refresh_cache_def end_migration_def Let_def
        levels_rest frontier_def)
  have "at_rest t' m'" using m' t' pub by (simp add: at_rest_def layout_published_def)
  moreover have "layout_ok ?L" using lay by (auto simp: layout_ok_def levels_active [OF act])
  moreover have "placed T valid ?L m'"
    using placed_sub [OF pl, of ?L] same_cells(2) [OF m'(1), of T valid ?L] by (simp add: levels_active [OF act])
  moreover have "fresh_beyond t' m'" using inv m' t' by (auto simp: ht_inv_def fresh_beyond_def levels_active [OF act])
  moreover have "tbag (t', m') = tbag (t, m)" using bag same_cells(1) [OF m'(1)] t'(1) by simp
  ultimately show ?thesis using inv m' t' by (simp add: ht_inv_def resize_inv_def)
qed

text \<open>The work of an operation on a running migration.\<close>

lemma post_op_inv:
  assumes inv: "ht_inv T valid st"
  shows "\<exists>st'. post_op T st = Some st' \<and> ht_inv T valid st' \<and> tbag st' = tbag st \<and> hm_alloc (snd st') = hm_alloc (snd st)"
proof (cases "ht_resize_enabled (fst st) \<and> ht_migration_begun (fst st)")
  case False
  then show ?thesis using inv by (auto simp: post_op_def)
next
  case True
  obtain t m where st: "st = (t, m)" by fastforce
  then have "migrating t m" using inv True by (auto simp: ht_inv_def resize_inv_def at_rest_def)
  from migrate_step_inv [OF inv [unfolded st] this] True
  obtain t1 m1 where s: "migrate_step T (t, m) = Some (t1, m1)" "ht_inv T valid (t1, m1)" "tbag (t1, m1) = tbag (t, m)"
    "ht_resize_enabled t1" "hm_alloc m1 = hm_alloc m" by (auto simp: st)
  obtain t2 m2 where cf: "check_finalize (t1, m1) = (t2, m2)" by (rule prod.exhaust)
  from check_finalize_inv [OF s(2,4) cf] s True show ?thesis by (auto simp: post_op_def st cf)
qed

section \<open>Resizing keeps the bag\<close>

lemma refresh_ready: "lc_tl_size (ht_cache (fst st)) \<noteq> 0 \<Longrightarrow> refresh_until_ready st = Some st"
  by (subst refresh_until_ready.simps) simp

text \<open>What a resize makes of a table at rest whose new top level is at \<open>new\<close>.\<close>

definition resized :: "nat \<Rightarrow> ht \<Rightarrow> 'v hmem \<Rightarrow> 'v hts \<Rightarrow> bool" where
  "resized new t m st' \<longleftrightarrow> (case st' of (t', m') \<Rightarrow>
     ht_tl_offset t' = new \<and> ht_tl_n t' = 2 * ht_tl_n t \<and> ht_bl_offset t' = ht_tl_offset t \<and> ht_bl_n t' = ht_tl_n t \<and>
     ht_mig_old_bl_offset t' = ht_bl_offset t \<and> ht_mig_old_bl_n t' = ht_bl_n t \<and> ht_mig_active t' \<and> ht_migration_begun t' \<and>
     ht_size t' = ht_size t \<and> ht_resize_enabled t' = ht_resize_enabled t \<and> ht_mds_id t' = 0 \<and> ht_rcfg_n_mds t' = 1 \<and>
     layout_published t' m' \<and> rm_ctrl (hm_meta m') = 0x10001 \<and> \<not> lc_done_reported (ht_cache t') \<and> \<not> lc_range_done (ht_cache t') \<and>
     lc_state (ht_cache t') = RS_MIGRATING \<and> lc_old_bl_offset (ht_cache t') = ht_bl_offset t \<and>
     lc_range_end (ht_cache t') = ht_bl_n t \<and> lc_local_cursor (ht_cache t') = 0 \<and> hm_notify m' 0 = lc_version (ht_cache t') \<and>
     cell m' = cell m \<and> hm_pool_base m' = hm_pool_base m)"

lemma initiate_at_rest:
  fixes t m
  defines "v \<equiv> rm_version (hm_meta m) + 1"
  defines "meta \<equiv> \<lambda>off. \<lparr>rm_ctrl = 0x10001, rm_version = v, rm_tl_offset = off + hm_pool_base m, rm_tl_size = 2 * ht_tl_n t,
      rm_bl_offset = ht_tl_offset t, rm_bl_size = ht_tl_n t, rm_old_bl_offset = ht_bl_offset t, rm_old_bl_size = ht_bl_n t\<rparr>"
  assumes rest: "at_rest t m" and id: "ht_mds_id t = 0" "ht_rcfg_n_mds t = 1"
  shows "try_initiate_resize (t, m) = (case CXLMallocOffset (2 * ht_tl_n t * kBucketSize) (hm_alloc m) of None \<Rightarrow> None
    | Some (off, a) \<Rightarrow> Some (True, refresh_cache (t, m\<lparr>hm_alloc := a, hm_meta := meta off, hm_notify := (hm_notify m)(0 := v)\<rparr>)))"
proof -
  have n: "(\<lambda>i. if i = 0 then v else hm_notify m i) = (hm_notify m)(0 := v)" by auto
  have c: "rc_state (rm_ctrl (hm_meta m)) = 0" using rest by (auto simp: at_rest_def)
  note S = try_initiate_resize_def read_meta_ctrl_def cas_meta_ctrl_def notify_all_mds_def ht_malloc_def Let_def mult.commute
  show ?thesis
  proof (cases "0 < rm_tl_size (hm_meta m)")
    case True
    then have l: "rm_tl_offset (hm_meta m) = ht_tl_offset t" "rm_tl_size (hm_meta m) = ht_tl_n t"
      "rm_bl_offset (hm_meta m) = ht_bl_offset t" "rm_bl_size (hm_meta m) = ht_bl_n t"
      using rest by (auto simp: at_rest_def layout_published_def)
    then show ?thesis using True c id n by (simp add: S v_def meta_def split: option.split cong: if_cong)
  next
    case False
    then show ?thesis using c id n by (simp add: S v_def meta_def split: option.split cong: if_cong)
  qed
qed

lemma do_resize_at_rest:
  assumes rest: "at_rest t m" and id: "ht_mds_id t = 0" "ht_rcfg_n_mds t = 1" "hm_notify m 0 = lc_version (ht_cache t)"
    and n: "2 \<le> ht_tl_n t" "2 \<le> ht_bl_n t"
  shows "(case CXLMallocOffset (2 * ht_tl_n t * kBucketSize) (hm_alloc m) of None \<Rightarrow> do_resize (t, m) = None
    | Some (off, a) \<Rightarrow> \<exists>st'. do_resize (t, m) = Some st' \<and> resized (off + hm_pool_base m) t m st' \<and> hm_alloc (snd st') = a)"
proof -
  have c: "\<not> ht_migration_begun t" using rest by (auto simp: at_rest_def)
  note S = do_resize_def check_version_changed_def poll_local_version_def initiate_at_rest [OF rest id(1,2)]
  show ?thesis
  proof (cases "CXLMallocOffset (2 * ht_tl_n t * kBucketSize) (hm_alloc m)")
    case None
    then show ?thesis using c id by (simp add: S)
  next
    case (Some x)
    then show ?thesis using c id n
      by (cases x) (simp add: S refresh_ready resized_def layout_published_def refresh_cache_def begin_migration_def new_layout_def Let_def)
  qed
qed

lemma resized_inv:
  assumes inv: "ht_inv T valid (t, m)" and en: "ht_resize_enabled t" and idle: "\<not> ht_mig_active t"
    and al: "CXLMallocOffset (2 * ht_tl_n t * kBucketSize) (hm_alloc m) = Some (off, a)"
    and r: "resized (off + hm_pool_base m) t m (t', m')" "hm_alloc m' = a"
  shows "ht_inv T valid (t', m')" "tbag (t', m') = tbag (t, m)"
proof -
  note R = r(1) [unfolded resized_def prod.case]
  have lay: "layout_ok (levels t)" and pl: "placed T valid (levels t) m" and fr: "fresh_beyond t m" using inv by (auto simp: ht_inv_def)
  have n: "2 \<le> ht_tl_n t" using lay by (auto simp: layout_ok_def levels_def)
  have new: "off + hm_pool_base m = frontier m" and a: "na_offset a = na_offset (hm_alloc m) + round64 (2 * ht_tl_n t * kBucketSize)"
    using al by (auto simp: CXLMallocOffset_Some frontier_def)
  have "0 < 2 * ht_tl_n t * kBucketSize" using n by (simp add: kBucketSize_def kHashRegionSize_def kSlots_def kValueSize_def)
  then have "0 < round64 (2 * ht_tl_n t * kBucketSize)" using round64_bounds(1) [of "2 * ht_tl_n t * kBucketSize"] by linarith
  then have grow: "frontier m < frontier m'" using a r(2) R by (simp add: frontier_def)
  have lv: "levels t' = (frontier m, 2 * ht_tl_n t) # levels t" using R idle new by (simp add: levels_def)
  have b: "b < frontier m" if "b \<in> bases t" for b using fr that unfolding fresh_beyond_def by blast
  have empty: "cell m (frontier m) i s = None" for i s using fr by (simp add: fresh_beyond_def)
  have lay': "layout_ok (levels t')" unfolding lv using lay n b by (auto simp: layout_ok_def)
  have pl': "placed T valid (levels t') m'"
    unfolding placed_def
  proof (intro allI impI, elim conjE)
    fix b n' i s fp v assume h: "(b, n') \<in> set (levels t')" "i < n'" "s < kSlots" "cell m' b i s = Some (fp, v)"
    moreover have "cell m' = cell m" using R by simp
    ultimately have "(b, n') \<in> set (levels t)" using empty [of i s] by (auto simp: lv)
    then show "valid v \<and> fp = make_fp T (tr_extract T v) \<and> well_placed T n' i v"
      using pl h \<open>cell m' = cell m\<close> unfolding placed_def by simp
  qed
  have "tbag (t', m') = bag ((frontier m, 2 * ht_tl_n t) # levels t) m" using R same_cells(1) [of m' m] by (simp add: lv)
  also have "\<dots> = bag [(frontier m, 2 * ht_tl_n t)] m + tbag (t, m)" using b by (subst bag_Cons) auto
  also have "bag [(frontier m, 2 * ht_tl_n t)] m = {#}" by (rule bag_empty) (rule empty)
  finally show bag: "tbag (t', m') = tbag (t, m)" by simp
  have "fresh_beyond t' m'"
  proof -
    have "b < frontier m'" if "b \<in> bases t'" for b
    proof -
      have "b = frontier m \<or> b \<in> bases t" using that by (auto simp: lv)
      then show ?thesis using grow less_trans [OF b grow] by blast
    qed
    moreover have "cell m' b i s = None" if "frontier m' \<le> b" for b i s
      using fr grow R that by (simp add: fresh_beyond_def)
    ultimately show ?thesis unfolding fresh_beyond_def by blast
  qed
  moreover have "migrating t' m'" using R by (simp add: migrating_def drained_def)
  ultimately show "ht_inv T valid (t', m')" using inv lay' pl' bag R en by (simp add: ht_inv_def resize_inv_def)
qed

lemma do_resize_inv:
  assumes inv: "ht_inv T valid st" and en: "ht_resize_enabled (fst st)" and idle: "\<not> ht_mig_active (fst st)"
  shows "do_resize st = Some st' \<Longrightarrow> ht_inv T valid st' \<and> tbag st' = tbag st"
    "CXLMallocOffset (2 * ht_tl_n (fst st) * kBucketSize) (hm_alloc (snd st)) \<noteq> None \<Longrightarrow> \<exists>st'. do_resize st = Some st'"
proof -
  obtain t m where st: "st = (t, m)" by fastforce
  have rest: "at_rest t m" "ht_mds_id t = 0" "ht_rcfg_n_mds t = 1" "hm_notify m 0 = lc_version (ht_cache t)"
    using inv en idle by (auto simp: ht_inv_def resize_inv_def migrating_def st)
  have n: "2 \<le> ht_tl_n t" "2 \<le> ht_bl_n t" using inv by (auto simp: ht_inv_def layout_ok_def levels_def st)
  note D = do_resize_at_rest [OF rest n]
  show "do_resize st = Some st' \<Longrightarrow> ht_inv T valid st' \<and> tbag st' = tbag st"
    using D resized_inv [OF inv [unfolded st], of _ _ "fst st'" "snd st'"] en idle by (auto simp: st split: option.splits)
  show "CXLMallocOffset (2 * ht_tl_n (fst st) * kBucketSize) (hm_alloc (snd st)) \<noteq> None \<Longrightarrow> \<exists>st'. do_resize st = Some st'"
    using D by (auto simp: st split: option.splits)
qed

section \<open>The public operations\<close>

lemma op_attempts_once:
  assumes inv: "ht_inv T valid st" and i: "impl st = Some (r, st1)" and inv1: "ht_inv T valid st1"
  shows "\<exists>st'. op_attempts T impl kEpochRetryMax st = Some (r, st') \<and> ht_inv T valid st' \<and> tbag st' = tbag st1"
proof -
  obtain st2 where "post_op T st1 = Some st2" "ht_inv T valid st2" "tbag st2 = tbag st1" using post_op_inv [OF inv1] by blast
  then show ?thesis using pre_op_idle [OF inv] i
    by (cases r) (auto simp: kEpochRetryMax_def simp del: split_paired_Ex)
qed

text \<open>The new table of a hit satisfies the invariant.\<close>

lemma hit_inv:
  assumes inv: "ht_inv T valid st" and h: "hit T valid (fst st) key new d res a st st'"
    and d: "\<And>w. d + 1 = of_nat (size (new w))"
  shows "ht_inv T valid st'" "\<exists>w. w \<in># tbag st \<and> tr_extract T w = key \<and> a = res w \<and> tbag st' + {#w#} = tbag st + new w"
proof -
  obtain t m t' m' where st: "st = (t, m)" "st' = (t', m')" by fastforce
  from h obtain w where w: "w \<in># bag (levels t) m" "tr_extract T w = key" "a = res w" "bag (levels t) m' + {#w#} = bag (levels t) m + new w"
    and f: "bucket_frame (bases t) (t, m) (t', m')" and z: "ht_size t' = ht_size t + d" and p: "placed T valid (levels t) m'"
    and c: "\<And>b i s. cell m b i s = None \<Longrightarrow> cell m' b i s = None" by (auto simp: hit_def st)
  have "size (bag (levels t) m') + 1 = size (bag (levels t) m) + size (new w)" using arg_cong [OF w(4), of size] by simp
  then have "of_nat (size (bag (levels t) m')) + 1 = (of_nat (size (bag (levels t) m)) + of_nat (size (new w)) :: u64)"
    by (metis of_nat_1 of_nat_add)
  then have "ht_size t' + 1 = of_nat (size (bag (levels t) m')) + 1"
    using inv unfolding z by (simp only: ht_inv_def st fst_conv snd_conv add.assoc d [of w])
  then have "ht_size t' = of_nat (size (bag (levels t) m'))" by simp
  moreover have "drained t' m'" if "drained t m"
    using that c f by (auto simp: drained_def bucket_frame_def)
  ultimately show "ht_inv T valid st'" unfolding st by (intro ht_inv_frame [OF inv [unfolded st] f p])
  show "\<exists>w. w \<in># tbag st \<and> tr_extract T w = key \<and> a = res w \<and> tbag st' + {#w#} = tbag st + new w"
    using w frame_fields(1) [OF f] by (auto simp: st)
qed

lemma quiet_inv:
  assumes inv: "ht_inv T valid st" and q: "quiet (bases (fst st)) st st'"
  shows "ht_inv T valid st'" "tbag st' = tbag st"
proof -
  obtain t m t' m' where st: "st = (t, m)" "st' = (t', m')" by fastforce
  have f: "bucket_frame (bases t) (t, m) (t', m')" using q by (simp add: quiet_def st)
  have c: "cell m' = cell m" and z: "ht_size t' = ht_size t" using q by (auto simp: quiet_def st)
  have "drained t m \<Longrightarrow> drained t' m'" using c f by (auto simp: drained_def bucket_frame_def)
  then show "ht_inv T valid st'" unfolding st
    by (intro ht_inv_frame [OF inv [unfolded st] f]) (use inv c z same_cells [OF c] in \<open>auto simp: ht_inv_def st\<close>)
  show "tbag st' = tbag st" using frame_fields(1) [OF f] same_cells(1) [OF c] by (simp add: st)
qed

lemma ht_insert_spec:
  assumes inv: "ht_inv T valid st" and v: "valid v" and e: "ht_insert T (tr_extract T v) v st = Some (r, st')"
  shows "ht_inv T valid st' \<and> tbag st' = tbag st + (if r then {#v#} else {#})"
proof -
  obtain r1 st1 where i: "insert_impl T (tr_extract T v) v st = (r1, st1)" by (rule prod.exhaust)
  note I = insert_impl_inv [OF inv v i]
  show ?thesis
  proof (cases "r1 \<or> \<not> (ht_resize_enabled (fst st1) \<and> \<not> ht_mig_active (fst st1))")
    case True
    obtain st2 where p: "post_op T st1 = Some st2" "ht_inv T valid st2" "tbag st2 = tbag st1" using post_op_inv [OF I(1)] by blast
    then have "r = r1" "st' = st2"
      using e True pre_op_idle [OF inv] i by (auto simp: ht_insert_def kEpochRetryMax_def split: if_splits)
    then show ?thesis using p I(2) by simp
  next
    case False
    then obtain st2 where d: "do_resize st1 = Some st2"
      using e pre_op_idle [OF inv] i by (auto simp: ht_insert_def kEpochRetryMax_def split: bind_splits)
    have D: "ht_inv T valid st2" "tbag st2 = tbag st1" using do_resize_inv(1) [OF I(1) _ _ d] False by auto
    obtain r3 st3 where i3: "insert_impl T (tr_extract T v) v st2 = (r3, st3)" by (rule prod.exhaust)
    note I3 = insert_impl_inv [OF D(1) v i3]
    obtain st4 where p: "post_op T st3 = Some st4" "ht_inv T valid st4" "tbag st4 = tbag st3" using post_op_inv [OF I3(1)] by blast
    have "r = r3" "st' = st4"
      using e False pre_op_idle [OF inv] i d i3 p(1) by (auto simp: ht_insert_def kEpochRetryMax_def split: if_splits)
    then show ?thesis using p I3(2) D(2) I(2) False by simp
  qed
qed

text \<open>An insertion returns unless it has to resize and the pool has no room for the new top level.\<close>

lemma ht_insert_returns:
  assumes inv: "ht_inv T valid st" and v: "valid v"
    and room: "ht_resize_enabled (fst st) \<Longrightarrow> CXLMallocOffset (2 * ht_tl_n (fst st) * kBucketSize) (hm_alloc (snd st)) \<noteq> None"
  shows "\<exists>r st'. ht_insert T (tr_extract T v) v st = Some (r, st')"
proof -
  obtain r1 st1 where i: "insert_impl T (tr_extract T v) v st = (r1, st1)" by (rule prod.exhaust)
  note I = insert_impl_inv [OF inv v i]
  show ?thesis
  proof (cases "r1 \<or> \<not> (ht_resize_enabled (fst st1) \<and> \<not> ht_mig_active (fst st1))")
    case True
    obtain st2 where p: "post_op T st1 = Some st2" using post_op_inv [OF I(1)] by blast
    then show ?thesis using True pre_op_idle [OF inv] i by (cases r1) (auto simp: ht_insert_def kEpochRetryMax_def simp del: split_paired_Ex)
  next
    case False
    then obtain st2 where d: "do_resize st1 = Some st2"
      using do_resize_inv(2) [OF I(1)] room I(3-6) by auto
    have D: "ht_inv T valid st2" using do_resize_inv(1) [OF I(1) _ _ d] False by auto
    obtain r3 st3 where i3: "insert_impl T (tr_extract T v) v st2 = (r3, st3)" by (rule prod.exhaust)
    obtain st4 where p: "post_op T st3 = Some st4" using post_op_inv [OF insert_impl_inv(1) [OF D v i3]] by blast
    then show ?thesis
      using False pre_op_idle [OF inv] i d i3 by (cases r3) (auto simp: ht_insert_def kEpochRetryMax_def simp del: split_paired_Ex)
  qed
qed

context key_traits
begin

lemma ht_find_spec:
  assumes inv: "ht_inv T valid st" and k: "vkey key"
  shows "\<exists>r st'. ht_find T key st = Some (r, st') \<and> ht_inv T valid st' \<and> tbag st' = tbag st \<and>
    (case r of Some w \<Rightarrow> w \<in># tbag st \<and> tr_extract T w = key | None \<Rightarrow> \<forall>w. w \<in># tbag st \<longrightarrow> tr_extract T w \<noteq> key)"
proof -
  obtain r st1 where i: "find_impl T key st = Some (r, st1)"
    "case r of Some a \<Rightarrow> hit T valid (fst st) key (\<lambda>w. {#w#}) 0 (\<lambda>w. w) a st st1
     | None \<Rightarrow> quiet (bases (fst st)) st st1 \<and> (\<forall>w. w \<in># tbag st \<longrightarrow> tr_extract T w \<noteq> key)"
    using find_impl_spec [OF ht_invD [OF inv] k] by blast
  have S: "ht_inv T valid st1 \<and> tbag st1 = tbag st \<and>
    (case r of Some w \<Rightarrow> w \<in># tbag st \<and> tr_extract T w = key | None \<Rightarrow> \<forall>w. w \<in># tbag st \<longrightarrow> tr_extract T w \<noteq> key)"
  proof (cases r)
    case None
    then show ?thesis using i(2) quiet_inv [OF inv, of st1] by simp
  next
    case (Some a)
    then have h: "hit T valid (fst st) key (\<lambda>w. {#w#}) 0 (\<lambda>w. w) a st st1" using i(2) by simp
    then obtain w where "w \<in># tbag st" "tr_extract T w = key" "a = w" "tbag st1 + {#w#} = tbag st + {#w#}"
      using hit_inv(2) [OF inv h] by auto
    then show ?thesis using hit_inv(1) [OF inv h] Some by simp
  qed
  obtain st' where "op_attempts T (find_impl T key) kEpochRetryMax st = Some (r, st')" "ht_inv T valid st'" "tbag st' = tbag st1"
    using op_attempts_once [where impl = "find_impl T key", OF inv i(1)] S by blast
  then show ?thesis using S unfolding ht_find_def by (auto simp del: split_paired_Ex)
qed

lemma ht_update_fn_spec:
  assumes inv: "ht_inv T valid st" and k: "vkey key"
    and f: "\<And>w. valid w \<Longrightarrow> tr_extract T w = key \<Longrightarrow> valid (f w) \<and> tr_extract T (f w) = key"
  shows "\<exists>r st'. ht_update_fn T key f st = Some (r, st') \<and> ht_inv T valid st' \<and>
    (if r then \<exists>w. w \<in># tbag st \<and> tr_extract T w = key \<and> tbag st' + {#w#} = tbag st + {#f w#}
     else tbag st' = tbag st \<and> (\<forall>w. w \<in># tbag st \<longrightarrow> tr_extract T w \<noteq> key))"
proof -
  obtain r st1 where i: "update_impl T key f st = Some (r, st1)"
    "case r of Some a \<Rightarrow> hit T valid (fst st) key (\<lambda>w. {#f w#}) 0 (\<lambda>w. ()) a st st1
     | None \<Rightarrow> quiet (bases (fst st)) st st1 \<and> (\<forall>w. w \<in># tbag st \<longrightarrow> tr_extract T w \<noteq> key)"
    using update_impl_spec [where f = f, OF ht_invD [OF inv] k] f by blast
  have S: "ht_inv T valid st1 \<and> (if r \<noteq> None then \<exists>w. w \<in># tbag st \<and> tr_extract T w = key \<and> tbag st1 + {#w#} = tbag st + {#f w#}
     else tbag st1 = tbag st \<and> (\<forall>w. w \<in># tbag st \<longrightarrow> tr_extract T w \<noteq> key))"
  proof (cases r)
    case None
    then show ?thesis using i(2) quiet_inv [OF inv, of st1] by simp
  next
    case (Some a)
    then have h: "hit T valid (fst st) key (\<lambda>w. {#f w#}) 0 (\<lambda>w. ()) a st st1" using i(2) by simp
    then show ?thesis using hit_inv [OF inv h] Some by auto
  qed
  obtain st' where "op_attempts T (update_impl T key f) kEpochRetryMax st = Some (r, st')" "ht_inv T valid st'" "tbag st' = tbag st1"
    using op_attempts_once [where impl = "update_impl T key f", OF inv i(1)] S by blast
  then show ?thesis using S unfolding ht_update_fn_def by (auto simp del: split_paired_Ex)
qed

lemma ht_erase_spec:
  assumes inv: "ht_inv T valid st" and k: "vkey key"
  shows "\<exists>r st'. ht_erase T key st = Some (r, st') \<and> ht_inv T valid st' \<and>
    (case r of Some w \<Rightarrow> w \<in># tbag st \<and> tr_extract T w = key \<and> tbag st' + {#w#} = tbag st
     | None \<Rightarrow> tbag st' = tbag st \<and> (\<forall>w. w \<in># tbag st \<longrightarrow> tr_extract T w \<noteq> key))"
proof -
  obtain r st1 where i: "erase_impl T key st = Some (r, st1)"
    "case r of Some a \<Rightarrow> hit T valid (fst st) key (\<lambda>w. {#}) (- 1) (\<lambda>w. w) a st st1
     | None \<Rightarrow> quiet (bases (fst st)) st st1 \<and> (\<forall>w. w \<in># tbag st \<longrightarrow> tr_extract T w \<noteq> key)"
    using erase_impl_spec [OF ht_invD [OF inv] k] by blast
  have S: "ht_inv T valid st1 \<and> (case r of Some w \<Rightarrow> w \<in># tbag st \<and> tr_extract T w = key \<and> tbag st1 + {#w#} = tbag st
     | None \<Rightarrow> tbag st1 = tbag st \<and> (\<forall>w. w \<in># tbag st \<longrightarrow> tr_extract T w \<noteq> key))"
  proof (cases r)
    case None
    then show ?thesis using i(2) quiet_inv [OF inv, of st1] by simp
  next
    case (Some a)
    then have h: "hit T valid (fst st) key (\<lambda>w. {#}) (- 1) (\<lambda>w. w) a st st1" using i(2) by simp
    then show ?thesis using hit_inv [OF inv h] Some by auto
  qed
  obtain st' where "op_attempts T (erase_impl T key) kEpochRetryMax st = Some (r, st')" "ht_inv T valid st'" "tbag st' = tbag st1"
    using op_attempts_once [where impl = "erase_impl T key", OF inv i(1)] S by blast
  then show ?thesis using S unfolding ht_erase_def by (auto split: option.splits simp del: split_paired_Ex)
qed

end

end
