(* ===== verification/LevelHashtableMap.thy ===== *)
theory LevelHashtableMap
  imports LevelHashtableResize
begin

text \<open>
  The level hash table as a map: the bag of a table whose keys are unique is a map from keys to values,
  and the public operations act on it as the map operations do. The properties are stated for the dentry
  table of the metadata service.
\<close>

unbundle bit_operations_syntax

section \<open>Commands on a table and the map they act on\<close>

datatype ('k, 'v) ht_cmd = HInsert 'v | HFind 'k | HUpdate 'k "'v \<Rightarrow> 'v" | HErase 'k
datatype 'v ht_res = HDone bool | HValue "'v option"

fun ht_exec :: "('k, 'v) ht_traits \<Rightarrow> ('k, 'v) ht_cmd \<Rightarrow> 'v hts \<Rightarrow> ('v ht_res \<times> 'v hts) option" where
  "ht_exec T (HInsert v) st = map_option (map_prod HDone (\<lambda>s. s)) (ht_insert T (tr_extract T v) v st)"
| "ht_exec T (HFind k) st = map_option (map_prod HValue (\<lambda>s. s)) (ht_find T k st)"
| "ht_exec T (HUpdate k f) st = map_option (map_prod HDone (\<lambda>s. s)) (ht_update_fn T k f st)"
| "ht_exec T (HErase k) st = map_option (map_prod HValue (\<lambda>s. s)) (ht_erase T k st)"

text \<open>The caller only inserts keys that are absent (the table does not look for duplicates), and an
  update keeps the key.\<close>

fun ht_pre :: "('k, 'v) ht_traits \<Rightarrow> ('v \<Rightarrow> bool) \<Rightarrow> ('k \<Rightarrow> bool) \<Rightarrow> ('k, 'v) ht_cmd \<Rightarrow> ('k \<Rightarrow> 'v option) \<Rightarrow> bool" where
  "ht_pre T valid vkey (HInsert v) M \<longleftrightarrow> valid v \<and> M (tr_extract T v) = None"
| "ht_pre T valid vkey (HFind k) M \<longleftrightarrow> vkey k"
| "ht_pre T valid vkey (HUpdate k f) M \<longleftrightarrow> vkey k \<and> (\<forall>w. valid w \<and> tr_extract T w = k \<longrightarrow> valid (f w) \<and> tr_extract T (f w) = k)"
| "ht_pre T valid vkey (HErase k) M \<longleftrightarrow> vkey k"

text \<open>Only an insertion may refuse: it then leaves the map as it is.\<close>

fun ht_spec :: "('k, 'v) ht_traits \<Rightarrow> ('k, 'v) ht_cmd \<Rightarrow> 'v ht_res \<Rightarrow> ('k \<Rightarrow> 'v option) \<Rightarrow> ('k \<Rightarrow> 'v option) option" where
  "ht_spec T (HInsert v) (HDone r) M = Some (if r then M(tr_extract T v \<mapsto> v) else M)"
| "ht_spec T (HFind k) (HValue r) M = (if r = M k then Some M else None)"
| "ht_spec T (HUpdate k f) (HDone r) M =
    (case M k of None \<Rightarrow> if r then None else Some M | Some w \<Rightarrow> if r then Some (M(k \<mapsto> f w)) else None)"
| "ht_spec T (HErase k) (HValue r) M = (if r = M k then Some (M(k := None)) else None)"
| "ht_spec T _ _ M = None"

section \<open>The map of a bag with unique keys\<close>

definition with_key :: "('k, 'v) ht_traits \<Rightarrow> 'k \<Rightarrow> 'v multiset \<Rightarrow> 'v multiset" where
  "with_key T k B = filter_mset (\<lambda>w. tr_extract T w = k) B"

definition keys_unique :: "('k, 'v) ht_traits \<Rightarrow> 'v multiset \<Rightarrow> bool" where
  "keys_unique T B \<longleftrightarrow> (\<forall>k. size (with_key T k B) \<le> 1)"

definition hmap :: "('k, 'v) ht_traits \<Rightarrow> 'v multiset \<Rightarrow> 'k \<Rightarrow> 'v option" where
  "hmap T B k = (if with_key T k B = {#} then None else Some (SOME w. w \<in># with_key T k B))"

lemma hmap_None: "hmap T B k = None \<longleftrightarrow> (\<forall>w. w \<in># B \<longrightarrow> tr_extract T w \<noteq> k)"
proof -
  have "with_key T k B = {#} \<longleftrightarrow> set_mset (with_key T k B) = {}" by simp
  then show ?thesis by (auto simp: hmap_def with_key_def)
qed

lemma with_key_single:
  assumes "keys_unique T B" "w \<in># B" "tr_extract T w = k"
  shows "with_key T k B = {#w#}"
proof -
  have "w \<in># with_key T k B" using assms(2,3) by (simp add: with_key_def)
  moreover have "size (with_key T k B) \<le> 1" using assms(1) by (simp add: keys_unique_def)
  ultimately show ?thesis by (metis One_nat_def add_mset_eq_single le_Suc_eq le_zero_eq multi_member_split size_1_singleton_mset
      size_eq_0_iff_empty empty_not_add_mset)
qed

lemma hmap_Some: "keys_unique T B \<Longrightarrow> w \<in># B \<Longrightarrow> tr_extract T w = k \<Longrightarrow> hmap T B k = Some w"
  by (simp add: hmap_def with_key_single)

lemma hmap_single: "with_key T k B = {#w#} \<Longrightarrow> hmap T B k = Some w"
  by (simp add: hmap_def)

lemma hmap_cong: "with_key T k B = with_key T k B' \<Longrightarrow> hmap T B k = hmap T B' k"
  by (simp add: hmap_def)

lemma hmap_insert:
  assumes u: "keys_unique T B" and n: "hmap T B (tr_extract T v) = None"
  shows "keys_unique T (B + {#v#})" "hmap T (B + {#v#}) = (hmap T B)(tr_extract T v \<mapsto> v)"
proof -
  have "with_key T (tr_extract T v) B = {#}" using n by (auto simp: hmap_def split: if_splits)
  then have w: "with_key T k (add_mset v B) = (if k = tr_extract T v then {#v#} else with_key T k B)" for k
    by (auto simp: with_key_def)
  show "keys_unique T (B + {#v#})" using u by (simp add: keys_unique_def w)
  show "hmap T (B + {#v#}) = (hmap T B)(tr_extract T v \<mapsto> v)" by (rule ext) (simp add: hmap_def w)
qed

lemma hmap_replace:
  assumes u: "keys_unique T B" and w: "w \<in># B" "tr_extract T w = k" "tr_extract T v = k" and e: "B' + {#w#} = B + {#v#}"
  shows "keys_unique T B'" "hmap T B' = (hmap T B)(k \<mapsto> v)"
proof -
  have e': "with_key T j B' + with_key T j {#w#} = with_key T j B + with_key T j {#v#}" for j
    unfolding with_key_def filter_union_mset [symmetric] e ..
  have wk: "with_key T j B' = (if j = k then {#v#} else with_key T j B)" for j
    using e' [of j] with_key_single [OF u w(1,2)] w(2,3) by (auto simp: with_key_def split: if_splits)
  show "keys_unique T B'" using u by (simp only: keys_unique_def wk) simp
  show "hmap T B' = (hmap T B)(k \<mapsto> v)" by (rule ext) (simp add: hmap_def wk)
qed

lemma hmap_remove:
  assumes u: "keys_unique T B" and w: "w \<in># B" "tr_extract T w = k" and e: "B' + {#w#} = B"
  shows "keys_unique T B'" "hmap T B' = (hmap T B)(k := None)"
proof -
  have wk: "with_key T j B' = (if j = k then {#} else with_key T j B)" for j
    using with_key_single [OF u w] w(2) e by (auto simp: with_key_def)
  show "keys_unique T B'" using u by (simp only: keys_unique_def wk) simp
  show "hmap T B' = (hmap T B)(k := None)" by (rule ext) (simp add: hmap_def wk)
qed

sublocale key_traits \<subseteq> table: permitted_runs "\<lambda>st. ht_inv T valid st \<and> keys_unique T (tbag st)" "\<lambda>st. hmap T (tbag st)"
  "ht_exec T" "ht_pre T valid vkey" "ht_spec T"
proof (unfold_locales, goal_cases)
  case (1 st c r st')
  then have inv: "ht_inv T valid st" and u: "keys_unique T (tbag st)" by auto
  show ?case
  proof (cases c)
    case (HInsert v)
    then obtain b where b: "ht_insert T (tr_extract T v) v st = Some (b, st')" "r = HDone b" using 1(3) by auto
    have v: "valid v" and n: "hmap T (tbag st) (tr_extract T v) = None" using 1(2) HInsert by auto
    show ?thesis using ht_insert_spec [OF inv v b(1)] hmap_insert [OF u n] u HInsert b(2) by (cases b) simp_all
  next
    case (HFind k)
    then obtain w where w: "ht_find T k st = Some (w, st')" "r = HValue w" and k: "vkey k" using 1(2,3) by auto
    show ?thesis
      using ht_find_spec [OF inv k] w(1) u HFind w(2) hmap_None [of T "tbag st" k] hmap_Some [OF u] by (auto split: option.splits)
  next
    case (HUpdate k f)
    then obtain b where b: "ht_update_fn T k f st = Some (b, st')" "r = HDone b" and k: "vkey k"
      and f: "\<And>w. valid w \<Longrightarrow> tr_extract T w = k \<Longrightarrow> valid (f w) \<and> tr_extract T (f w) = k" using 1(2,3) by auto
    have S: "ht_inv T valid st'" "if b then \<exists>w. w \<in># tbag st \<and> tr_extract T w = k \<and> tbag st' + {#w#} = tbag st + {#f w#}
        else tbag st' = tbag st \<and> (\<forall>w. w \<in># tbag st \<longrightarrow> tr_extract T w \<noteq> k)"
      using ht_update_fn_spec [where f = f, OF inv k] f b(1) by force+
    show ?thesis
    proof (cases b)
      case True
      then obtain w where w: "w \<in># tbag st" "tr_extract T w = k" "tbag st' + {#w#} = tbag st + {#f w#}" using S(2) by auto
      have "valid w" using ht_invD(2) [OF inv] w(1) by (auto simp: in_bag mem_locs placed_def)
      then have fk: "tr_extract T (f w) = k" using f w(2) by blast
      show ?thesis using hmap_replace [OF u w(1,2) fk w(3)] hmap_Some [OF u w(1,2)] S(1) HUpdate b(2) True by simp
    next
      case False
      then show ?thesis using S u HUpdate b(2) hmap_None [of T "tbag st" k] by simp
    qed
  next
    case (HErase k)
    then obtain w where w: "ht_erase T k st = Some (w, st')" "r = HValue w" and k: "vkey k" using 1(2,3) by auto
    have S: "ht_inv T valid st'" "case w of Some w \<Rightarrow> w \<in># tbag st \<and> tr_extract T w = k \<and> tbag st' + {#w#} = tbag st
     | None \<Rightarrow> tbag st' = tbag st \<and> (\<forall>w. w \<in># tbag st \<longrightarrow> tr_extract T w \<noteq> k)"
      using ht_erase_spec [OF inv k] w(1) by auto
    show ?thesis
    proof (cases w)
      case (Some x)
      then have x: "x \<in># tbag st" "tr_extract T x = k" "tbag st' + {#x#} = tbag st" using S(2) by auto
      show ?thesis using hmap_remove [OF u x] hmap_Some [OF u x(1,2)] S(1) HErase w(2) Some by simp
    next
      case None
      then have "hmap T (tbag st) k = None" "tbag st' = tbag st" using S(2) by (auto simp: hmap_None)
      then show ?thesis using S(1) u HErase w(2) None by (auto simp: fun_upd_idem)
    qed
  qed
qed

section \<open>Fresh tables\<close>

definition blank_hmem :: "'v hmem \<Rightarrow> bool" where
  "blank_hmem m \<longleftrightarrow> (\<forall>b i s. cell m b i s = None) \<and> rm_tl_size (hm_meta m) = 0 \<and> rc_state (rm_ctrl (hm_meta m)) = 0 \<and>
     hm_notify m 0 = rm_version (hm_meta m)"

lemma empty_bag: "(\<And>b i s. cell m b i s = None) \<Longrightarrow> bag L m = {#}"
  unfolding bag_def by (rule sum.neutral) auto

lemma fresh_table:
  assumes b: "blank_hmem m" and n: "4 \<le> n" and e: "ht_new n 1 m = Some st"
  shows "ht_inv T valid st" "ht_inv T valid (enable_resize 0 1 st)" "tbag st = {#}" "tbag (enable_resize 0 1 st) = {#}"
proof -
  obtain t m' where st: "st = (t, m')" by fastforce
  let ?a = "round64 (n * kBucketSize)" and ?b = "round64 (n div 2 * kBucketSize)"
  have sz: "0 < n * kBucketSize" "0 < n div 2 * kBucketSize"
    using n by (auto simp: kBucketSize_def kHashRegionSize_def kSlots_def kValueSize_def)
  then have pos: "0 < ?a" "0 < ?b" using round64_bounds(1) [of "n * kBucketSize"] round64_bounds(1) [of "n div 2 * kBucketSize"] by linarith+
  have t: "t = ht_attach n (na_offset (hm_alloc m) + hm_pool_base m) (na_offset (hm_alloc m) + ?a + hm_pool_base m) 1"
    and m': "m' = m\<lparr>hm_alloc := (hm_alloc m)\<lparr>na_offset := na_offset (hm_alloc m) + ?a + ?b\<rparr>\<rparr>"
    using e by (auto simp: ht_new_def ht_malloc_def CXLMallocOffset_Some st split: bind_splits)
  have c: "cell m' b i s = None" for b i s using b by (simp add: m' blank_hmem_def)
  have lv: "levels t = [(na_offset (hm_alloc m) + hm_pool_base m, n), (na_offset (hm_alloc m) + ?a + hm_pool_base m, n div 2)]"
    by (simp add: levels_def t ht_attach_def)
  have lay: "layout_ok (levels t)" using n pos by (auto simp: lv layout_ok_def)
  have pl: "placed T valid (levels t) m'" by (simp add: placed_def c)
  have fr: "fresh_beyond t m'" using pos c by (auto simp: fresh_beyond_def lv frontier_def m')
  have bag: "bag (levels t) m' = {#}" by (rule empty_bag) (rule c)
  show "tbag st = {#}" "tbag (enable_resize 0 1 st) = {#}" by (simp_all add: st enable_resize_def empty_bag c)
  show "ht_inv T valid st"
    using lay pl fr bag by (simp add: ht_inv_def st resize_inv_def t ht_attach_def)
  have e: "enable_resize 0 1 st = (t\<lparr>ht_mds_id := 0, ht_rcfg_n_mds := 1, ht_resize_enabled := True,
      ht_cache := (ht_cache t)\<lparr>lc_version := rm_version (hm_meta m)\<rparr>\<rparr>, m')" (is "_ = (?t, _)")
    by (simp add: enable_resize_def st m')
  have "at_rest ?t m'" using b by (simp add: at_rest_def t ht_attach_def m' blank_hmem_def)
  moreover have "levels ?t = levels t" by (simp add: levels_def)
  ultimately show "ht_inv T valid (enable_resize 0 1 st)"
    unfolding e using lay pl fr bag b by (simp add: ht_inv_def resize_inv_def m' blank_hmem_def fresh_beyond_def t ht_attach_def)
qed

lemma keys_unique_empty [simp]: "keys_unique T {#}" "hmap T {#} = (\<lambda>_. None)"
  by (simp_all add: keys_unique_def with_key_def hmap_def fun_eq_iff)

section \<open>An insertion succeeds while a candidate bucket has room\<close>

lemma room_current: "current b i keys m \<Longrightarrow> has_empty_slot keys = has_empty_slot (read_hr b i m)"
  by (simp add: has_empty_slot_def current_def)

lemma place_into_room:
  assumes "has_empty_slot (read_hr (c_base c) (c_idx c) m)"
  shows "\<exists>st'. place_into counted c (read_hr (c_base c) (c_idx c) m) fp v (t, m) = (Found (), st')"
proof -
  obtain s where "find_empty_slot (read_hr (c_base c) (c_idx c) m) = Some s"
    using assms find_empty_slot_None by (metis not_None_eq)
  then show ?thesis by (simp add: place_into_def cas_hr_def Let_def)
qed

text \<open>A first pass that places nothing has met only full or locked buckets and changes nothing.\<close>

lemma pass1_False:
  assumes "insert_pass1 (\<lambda>c keys. place_into counted c keys fp v) cs st = (False, con, st')"
  shows "st' = st \<and> (\<forall>c\<in>set cs. c_level c \<noteq> 2 \<and> has_empty_slot (read_hr (c_base c) (c_idx c) (snd st)) \<longrightarrow> c \<in> set con)"
  using assms
proof (induction cs arbitrary: con)
  case (Cons c cs)
  obtain t m where st: "st = (t, m)" by fastforce
  let ?keys = "read_hr (c_base c) (c_idx c) m"
  show ?case
  proof (cases "c_level c = 2 \<or> \<not> is_dirty (?keys 0) \<and> \<not> has_empty_slot ?keys")
    case True
    then show ?thesis using Cons by (auto simp: st Let_def split: if_splits)
  next
    case no: False
    show ?thesis
    proof (cases "is_dirty (?keys 0)")
      case True
      then obtain con' where "insert_pass1 (\<lambda>c keys. place_into counted c keys fp v) cs st = (False, con', st')" "con = c # con'"
        using Cons.prems no by (auto simp: st Let_def split: prod.splits)
      then show ?thesis using Cons.IH [of con'] by auto
    next
      case False
      then have "has_empty_slot ?keys" using no by simp
      from place_into_room [OF this, of counted fp v t] show ?thesis using Cons.prems no False by (auto simp: st Let_def)
    qed
  qed
qed simp

lemma retry_room:
  assumes e: "insert_retry (\<lambda>c keys. place_into counted c keys fp v) 3 c st = (r, st')"
  shows "has_empty_slot (read_hr (c_base c) (c_idx c) (snd st)) \<Longrightarrow> r"
    "\<not> r \<Longrightarrow> cell (snd st') = cell (snd st)"
proof -
  obtain t m where st: "st = (t, m)" by fastforce
  let ?b = "c_base c" and ?i = "c_idx c"
  obtain ready keys m1 where w: "(if is_dirty (read_hr ?b ?i m 0) then wait_for_unlock ?b ?i m else (True, read_hr ?b ?i m, m)) = (ready, keys, m1)"
    by (metis surj_pair)
  have W: "ready" "keys = read_hr ?b ?i m1" "still ?b (t, m) (t, m1)"
    using w wait_for_unlock_spec [of ?b ?i m ready keys m1] by (auto simp: still_def split: if_splits)
  have e3: "insert_retry (\<lambda>c keys. place_into counted c keys fp v) 3 c st = (if \<not> has_empty_slot keys then (False, t, m1)
    else (case place_into counted c keys fp v (t, m1) of (Found _, s) \<Rightarrow> (True, s) | (NotFound, s) \<Rightarrow> (False, s)
      | (Busy, s) \<Rightarrow> insert_retry (\<lambda>c keys. place_into counted c keys fp v) (Suc (Suc 0)) c s))"
    using w W(1) by (simp add: numeral_3_eq_3 st Let_def)
  have c1: "cell m1 = cell m" using W(3) by (simp add: still_def)
  show "r" if room: "has_empty_slot (read_hr (c_base c) (c_idx c) (snd st))"
  proof -
    have "has_empty_slot keys" using room c1 W(2) unfolding has_empty_slot_def list_ex_iff st snd_conv
      by (metis cell_def option.distinct(1))
    then show ?thesis using e e3 place_into_room [of c m1 counted fp v t] W(2) by auto
  qed
  show "cell (snd st') = cell (snd st)" if "\<not> r"
    using e e3 that place_into_room [of c m1 counted fp v t] W(2) c1 by (auto simp: st split: if_splits)
qed

lemma room_cell: "has_empty_slot (read_hr b i m) \<longleftrightarrow> (\<exists>s<kSlots. cell m b i s = None)"
  by (auto simp: has_empty_slot_def list_ex_iff cell_def)

lemma retries_room:
  assumes "c \<in> set con" "has_empty_slot (read_hr (c_base c) (c_idx c) (snd st))"
  shows "fst (first_success (insert_retry (\<lambda>c keys. place_into counted c keys fp v) 3) con st)"
  using assms
proof (induction con arbitrary: st)
  case (Cons c' con)
  obtain r st1 where e: "insert_retry (\<lambda>c keys. place_into counted c keys fp v) 3 c' st = (r, st1)" by (rule prod.exhaust)
  show ?case
  proof (cases r)
    case False
    note R = retry_room [OF e]
    have "has_empty_slot (read_hr (c_base c) (c_idx c) (snd st1))" using R(2) [OF False] Cons.prems(2) by (simp add: room_cell)
    moreover have "c \<noteq> c'" using R(1) Cons.prems(2) False by auto
    ultimately show ?thesis using Cons.IH Cons.prems(1) e False by simp
  qed (simp add: e)
qed simp

lemma insert_passes_room:
  assumes c: "c \<in> set cs" "c_level c \<noteq> 2" "has_empty_slot (read_hr (c_base c) (c_idx c) (snd st))"
  shows "fst (insert_passes (\<lambda>c keys. place_into counted c keys fp v) cs st)"
proof -
  let ?place = "\<lambda>c keys. place_into counted c keys fp v"
  obtain r con st1 where p: "insert_pass1 ?place cs st = (r, con, st1)" by (metis surj_pair)
  show ?thesis
  proof (cases r)
    case True
    then show ?thesis using p by (simp add: insert_passes_def)
  next
    case False
    then have "st1 = st" "c \<in> set con" using pass1_False [of counted fp v cs st con st1] p c by auto
    then show ?thesis using retries_room [OF _ c(3)] p False by (simp add: insert_passes_def)
  qed
qed

lemma ht_insert_room:
  assumes inv: "ht_inv T valid st" and v: "valid v"
    and c: "c \<in> set (cs_list (get_candidates T (tr_extract T v) (fst st)))" "c_level c \<noteq> 2"
      "has_empty_slot (read_hr (c_base c) (c_idx c) (snd st))"
  shows "\<exists>st'. ht_insert T (tr_extract T v) v st = Some (True, st')"
proof -
  have "fst (insert_impl T (tr_extract T v) v st)"
    using insert_passes_room [OF c, of True "make_fp T (tr_extract T v)" v]
    by (auto simp: insert_impl_def Let_def try_insert_into_def split: prod.splits)
  then obtain st1 where i: "insert_impl T (tr_extract T v) v st = (True, st1)" by (metis prod.collapse)
  obtain st2 where "post_op T st1 = Some st2" using post_op_inv [OF insert_impl_inv(1) [OF inv v i]] by blast
  then show ?thesis using pre_op_idle [OF inv] i by (simp add: ht_insert_def kEpochRetryMax_def)
qed

section \<open>The dentry table\<close>

text \<open>A concrete entry, its key and a pool of blank memory, for the witnesses.\<close>

definition ex_dirent :: Dirent where
  "ex_dirent = \<lparr>d_id = 5, d_pid = 1, d_reclen = 0, d_type = 1, d_name = [97]\<rparr>"

definition ex_traits :: "(u64 \<times> cstring, Dirent) ht_traits" where
  "ex_traits = dirent_traits (\<lambda>x. x) (\<lambda>s. of_nat (length s))"

definition ex_pool :: "Dirent hmem" where
  "ex_pool = \<lparr>hm_bucket = (\<lambda>_ _. \<lparr>bk_meta = (\<lambda>_. 0), bk_val = (\<lambda>_. ex_dirent)\<rparr>),
     hm_meta = \<lparr>rm_ctrl = 0, rm_version = 0, rm_tl_offset = 0, rm_tl_size = 0, rm_bl_offset = 0, rm_bl_size = 0,
       rm_old_bl_offset = 0, rm_old_bl_size = 0\<rparr>,
     hm_notify = (\<lambda>_. 0), hm_pool_base = 4096,
     hm_alloc = \<lparr>na_magic = 0, na_capacity = 100000, na_offset = 0, na_free_size = 100000\<rparr>\<rparr>"

lemma ex_pool_blank: "blank_hmem ex_pool"
  by (simp add: blank_hmem_def ex_pool_def cell_def slot_fp_def read_hr_def rc_state_def)

lemma ex_table:
  obtains st where "ht_new 4 1 ex_pool = Some st" "ht_inv ex_traits valid_dirent (enable_resize 0 1 st)"
    "tbag (enable_resize 0 1 st) = {#}" "ht_tl_n (fst (enable_resize 0 1 st)) = 4"
    "CXLMallocOffset (2 * 4 * kBucketSize) (hm_alloc (snd (enable_resize 0 1 st))) \<noteq> None"
proof -
  note S = ht_new_def ht_malloc_def CXLMallocOffset_def round64_def kBucketSize_def kHashRegionSize_def kSlots_def kValueSize_def Let_def
  obtain st where e: "ht_new 4 1 ex_pool = Some st" by (simp add: S ex_pool_def)
  moreover have "ht_tl_n (fst (enable_resize 0 1 st)) = 4"
    "CXLMallocOffset (2 * 4 * kBucketSize) (hm_alloc (snd (enable_resize 0 1 st))) \<noteq> None"
    using e by (auto simp: S ex_pool_def enable_resize_def ht_attach_def)
  ultimately show ?thesis using that fresh_table(2) [where T = ex_traits and valid = valid_dirent, OF ex_pool_blank _ e] fresh_table(4) [OF ex_pool_blank _ e] by simp
qed

lemma ex_dirent_valid [simp]: "valid_dirent ex_dirent"
  by (simp_all add: valid_dirent_def ex_dirent_def ex_traits_def dirent_traits_def dirent_extract_def)

text \<open>C12: Any sequence of inserts, finds, updates and erases on a dentry table that starts empty, with
  resizing on, gives the results of a map from (parent, name) to entries, through every displacement,
  every resize and every step of a migration. An insertion may refuse, and then changes nothing.\<close>

theorem dirent_table_refines_map:
  assumes "blank_hmem m" "4 \<le> n" "ht_new n 1 m = Some st"
    and "run_ops (ht_exec (dirent_traits hash_u64 hash_string)) cs (enable_resize 0 1 st) = Some (rs, st')"
  shows "permitted (ht_pre (dirent_traits hash_u64 hash_string) valid_dirent (\<lambda>_. True))
    (ht_spec (dirent_traits hash_u64 hash_string)) cs rs (\<lambda>_. None)"
  using dirents.table.run_permitted [OF _ assms(4)] fresh_table(2) [where T = "dirent_traits hash_u64 hash_string" and valid = valid_dirent, OF assms(1-3)]
    fresh_table(4) [OF assms(1-3)] by simp

theorem dirent_table_refines_map_witness:
  "\<exists>st rs st'. ht_new 4 1 ex_pool = Some st \<and>
    run_ops (ht_exec ex_traits) [HInsert ex_dirent, HFind (1, [97])] (enable_resize 0 1 st) = Some (rs, st') \<and>
    permitted (ht_pre ex_traits valid_dirent (\<lambda>_. True)) (ht_spec ex_traits) [HInsert ex_dirent, HFind (1, [97])] rs (\<lambda>_. None)"
proof -
  obtain st where st: "ht_new 4 1 ex_pool = Some st" and inv: "ht_inv ex_traits valid_dirent (enable_resize 0 1 st)"
    and room: "ht_tl_n (fst (enable_resize 0 1 st)) = 4"
    "CXLMallocOffset (2 * 4 * kBucketSize) (hm_alloc (snd (enable_resize 0 1 st))) \<noteq> None" by (rule ex_table)
  obtain r1 st1 where i: "ht_insert ex_traits (tr_extract ex_traits ex_dirent) ex_dirent (enable_resize 0 1 st) = Some (r1, st1)"
    using ht_insert_returns [where valid = valid_dirent, OF inv ex_dirent_valid] room by auto
  have inv1: "ht_inv ex_traits valid_dirent st1" using ht_insert_spec [where valid = valid_dirent, OF inv _ i] by simp
  obtain r2 st2 where f: "ht_find ex_traits (1, [97]) st1 = Some (r2, st2)"
    using dirents.ht_find_spec [OF inv1 [unfolded ex_traits_def], of "(1, [97])"] unfolding ex_traits_def by auto
  have "run_ops (ht_exec ex_traits) [HInsert ex_dirent, HFind (1, [97])] (enable_resize 0 1 st) = Some ([HDone r1, HValue r2], st2)"
    using i f by simp
  note run = this
  have "4 \<le> (4 :: nat)" by simp
  from dirent_table_refines_map [OF ex_pool_blank this st run [unfolded ex_traits_def]] run st
  show ?thesis unfolding ex_traits_def [symmetric] by blast
qed

text \<open>C13: In every state of a table, at rest or migrating, also with lock bits left behind, the operations return
  and keep the invariant, in which the element count is the number of stored entries. Only an insertion
  that must resize can end abnormally, when the pool has no room for the new top level.\<close>

theorem dirent_table_total:
  fixes hash_u64 hash_string
  defines "T \<equiv> dirent_traits hash_u64 hash_string"
  assumes inv: "ht_inv T valid_dirent st" and v: "valid_dirent v"
    and f: "\<And>w. valid_dirent w \<Longrightarrow> tr_extract T w = key \<Longrightarrow> valid_dirent (f w) \<and> tr_extract T (f w) = key"
  shows "(\<exists>r st'. ht_find T key st = Some (r, st') \<and> ht_inv T valid_dirent st') \<and>
    (\<exists>r st'. ht_update_fn T key f st = Some (r, st') \<and> ht_inv T valid_dirent st') \<and>
    (\<exists>r st'. ht_erase T key st = Some (r, st') \<and> ht_inv T valid_dirent st') \<and>
    (if \<exists>r st'. ht_insert T (tr_extract T v) v st = Some (r, st')
     then \<exists>r st'. ht_insert T (tr_extract T v) v st = Some (r, st') \<and> ht_inv T valid_dirent st'
     else CXLMallocOffset (2 * ht_tl_n (fst st) * kBucketSize) (hm_alloc (snd st)) = None) \<and>
    GetElementNum (fst st) = of_nat (size (bag (levels (fst st)) (snd st)))"
proof (intro conjI)
  show "\<exists>r st'. ht_find T key st = Some (r, st') \<and> ht_inv T valid_dirent st'"
    using dirents.ht_find_spec [OF inv [unfolded T_def] TrueI] unfolding T_def by blast
  show "\<exists>r st'. ht_update_fn T key f st = Some (r, st') \<and> ht_inv T valid_dirent st'"
    using dirents.ht_update_fn_spec [where f = f, OF inv [unfolded T_def] TrueI] f unfolding T_def by blast
  show "\<exists>r st'. ht_erase T key st = Some (r, st') \<and> ht_inv T valid_dirent st'"
    using dirents.ht_erase_spec [OF inv [unfolded T_def] TrueI] unfolding T_def by blast
  show "if \<exists>r st'. ht_insert T (tr_extract T v) v st = Some (r, st')
     then \<exists>r st'. ht_insert T (tr_extract T v) v st = Some (r, st') \<and> ht_inv T valid_dirent st'
     else CXLMallocOffset (2 * ht_tl_n (fst st) * kBucketSize) (hm_alloc (snd st)) = None"
  proof (cases "\<exists>r st'. ht_insert T (tr_extract T v) v st = Some (r, st')")
    case True
    then show ?thesis using ht_insert_spec [where valid = valid_dirent, OF inv v] by (simp only: if_True) blast
  next
    case False
    then show ?thesis using ht_insert_returns [where valid = valid_dirent, OF inv v] by (simp only: if_False) blast
  qed
  show "GetElementNum (fst st) = of_nat (size (bag (levels (fst st)) (snd st)))" using inv by (simp add: ht_inv_def GetElementNum_def)
qed

theorem dirent_table_total_witness:
  "\<exists>st. ht_inv ex_traits valid_dirent st \<and> (\<exists>r st'. ht_find ex_traits (1, [97]) st = Some (r, st') \<and> ht_inv ex_traits valid_dirent st')"
proof -
  obtain st where inv: "ht_inv ex_traits valid_dirent (enable_resize 0 1 st)" by (rule ex_table)
  from dirent_table_total [OF inv [unfolded ex_traits_def] ex_dirent_valid, of "(1, [97])" "\<lambda>w. w"] inv
  show ?thesis unfolding ex_traits_def by blast
qed

text \<open>C14: An insertion succeeds whenever one of the key's buckets on the two current levels has a free slot.\<close>

theorem dirent_insert_succeeds:
  fixes hash_u64 hash_string
  defines "T \<equiv> dirent_traits hash_u64 hash_string"
  assumes "ht_inv T valid_dirent st" "valid_dirent v"
    and "c \<in> set (cs_list (get_candidates T (tr_extract T v) (fst st)))" "c_level c \<noteq> 2"
    and "has_empty_slot (read_hr (c_base c) (c_idx c) (snd st))"
  shows "\<exists>st'. ht_insert T (tr_extract T v) v st = Some (True, st') \<and>
    bag (levels (fst st')) (snd st') = bag (levels (fst st)) (snd st) + {#v#}"
  using ht_insert_room [OF assms(2-6)] ht_insert_spec [OF assms(2,3)] by fastforce

theorem dirent_insert_succeeds_witness:
  "\<exists>st st'. ht_new 4 1 ex_pool = Some st \<and>
    ht_insert ex_traits (tr_extract ex_traits ex_dirent) ex_dirent (enable_resize 0 1 st) = Some (True, st') \<and>
    bag (levels (fst st')) (snd st') = {#ex_dirent#}"
proof -
  obtain st where st: "ht_new 4 1 ex_pool = Some st" and inv: "ht_inv ex_traits valid_dirent (enable_resize 0 1 st)"
    and bag: "tbag (enable_resize 0 1 st) = {#}" by (rule ex_table)
  let ?st = "enable_resize 0 1 st"
  let ?c = "hd (cs_list (get_candidates ex_traits (tr_extract ex_traits ex_dirent) (fst ?st)))"
  have l: "\<not> ht_mig_active (fst ?st)" and m: "snd ?st = ex_pool\<lparr>hm_alloc := hm_alloc (snd ?st)\<rparr>"
    using st by (auto simp: ht_new_def ht_malloc_def enable_resize_def ht_attach_def split: bind_splits)
  have "?c \<in> set (cs_list (get_candidates ex_traits (tr_extract ex_traits ex_dirent) (fst ?st)))" "c_level ?c \<noteq> 2"
    using l by (simp_all add: get_candidates_def Let_def)
  moreover have "has_empty_slot (read_hr (c_base ?c) (c_idx ?c) (snd ?st))"
    by (subst m) (simp add: read_hr_def ex_pool_def has_empty_slot_def upt_rec slot_fp_def kSlots_def)
  ultimately obtain st' where "ht_insert ex_traits (tr_extract ex_traits ex_dirent) ex_dirent ?st = Some (True, st')" "tbag st' = tbag ?st + {#ex_dirent#}"
    using dirent_insert_succeeds [OF inv [unfolded ex_traits_def] ex_dirent_valid] unfolding ex_traits_def by blast
  then show ?thesis using bag st by (intro exI [of _ st] exI [of _ st']) simp
qed

text \<open>C15: Starting a resize and every step of the migration that follows keep the stored entries; the migration
  step always returns.\<close>

theorem resize_keeps_entries:
  assumes "ht_inv T valid st"
  shows "(\<exists>st'. post_op T st = Some st' \<and> ht_inv T valid st' \<and> bag (levels (fst st')) (snd st') = bag (levels (fst st)) (snd st)) \<and>
    (\<forall>st'. ht_resize_enabled (fst st) \<and> \<not> ht_mig_active (fst st) \<and> do_resize st = Some st' \<longrightarrow>
      ht_inv T valid st' \<and> bag (levels (fst st')) (snd st') = bag (levels (fst st)) (snd st))"
  using post_op_inv [OF assms] do_resize_inv(1) [OF assms] by blast

theorem resize_keeps_entries_witness:
  "\<exists>st st'. ht_inv ex_traits valid_dirent st \<and> do_resize st = Some st' \<and> ht_inv ex_traits valid_dirent st' \<and>
    bag (levels (fst st')) (snd st') = {#} \<and> (\<exists>st''. post_op ex_traits st' = Some st'' \<and> bag (levels (fst st'')) (snd st'') = {#})"
proof -
  obtain st where st: "ht_new 4 1 ex_pool = Some st" and inv: "ht_inv ex_traits valid_dirent (enable_resize 0 1 st)"
    and bag: "tbag (enable_resize 0 1 st) = {#}" and room: "ht_tl_n (fst (enable_resize 0 1 st)) = 4"
      "CXLMallocOffset (2 * 4 * kBucketSize) (hm_alloc (snd (enable_resize 0 1 st))) \<noteq> None" by (rule ex_table)
  have l: "ht_resize_enabled (fst (enable_resize 0 1 st))" "\<not> ht_mig_active (fst (enable_resize 0 1 st))"
    using st by (auto simp: ht_new_def ht_malloc_def enable_resize_def ht_attach_def split: bind_splits)
  obtain st' where d: "do_resize (enable_resize 0 1 st) = Some st'" using do_resize_inv(2) [OF inv l] room by auto
  have R: "ht_inv ex_traits valid_dirent st' \<and> tbag st' = {#}" using conjunct2 [OF resize_keeps_entries [OF inv]] l d bag by metis
  then obtain st'' where "post_op ex_traits st' = Some st''" "tbag st'' = {#}"
    using resize_keeps_entries [of ex_traits valid_dirent st'] by metis
  then show ?thesis using R inv d by blast
qed

end
