(* ===== verification/Metadata.thy ===== *)
theory Metadata
  imports CompactWAL
begin

text \<open>
  The metadata service of one server (\<open>metadata.h\<close>, \<open>metadata.cc\<close>): path walk, inode ids, directory entries
  and the namespace operations. The code keeps the entries in \<open>dhashtable_\<close> and the inodes in
  \<open>ihashtable_\<close>; what these are is chosen when it is compiled (the level hash table or its baseline for the
  entries, the inode array or a level hash table for the inodes), and the operations below see only their
  common interface, the records \<open>dent_ops\<close> and \<open>inode_ops\<close>. The queue of recycled ids is the library's
  concurrent queue: what \<open>try_dequeue\<close> takes out is a parameter. The readings of the two clocks (seconds for
  the inode times, milliseconds for the log) are arguments. \<open>None\<close> is an abnormal end: a store ended
  abnormally, a name runs past a fixed buffer, or an indeterminate value is read.
\<close>

section \<open>Interfaces and state\<close>

record 'd dent_ops =
  dent_find :: "u64 \<times> cstring \<Rightarrow> 'd \<Rightarrow> (Dirent option \<times> 'd) option"
  dent_insert :: "u64 \<times> cstring \<Rightarrow> Dirent \<Rightarrow> 'd \<Rightarrow> (bool \<times> 'd) option"
  dent_erase :: "u64 \<times> cstring \<Rightarrow> 'd \<Rightarrow> (bool \<times> 'd) option"

record 'i inode_ops =
  inode_find :: "u64 \<Rightarrow> 'i \<Rightarrow> (Inode option \<times> 'i) option"
  inode_insert :: "u64 \<Rightarrow> Inode \<Rightarrow> 'i \<Rightarrow> (bool \<times> 'i) option"
  inode_update_fn :: "u64 \<Rightarrow> (Inode \<Rightarrow> Inode) \<Rightarrow> 'i \<Rightarrow> (bool \<times> 'i) option"
  inode_erase :: "u64 \<Rightarrow> 'i \<Rightarrow> (bool \<times> 'i) option"

record ('d, 'i) md_env =
  env_dents :: "'d dent_ops"
  env_inodes :: "'i inode_ops"
  env_try_dequeue :: "u64 list \<Rightarrow> (u64 \<times> u64 list) option"

text \<open>The error log: a store that refuses an operation of the service is only reported there.\<close>

datatype md_failure =
    PutInodeFailed u64 | UpdateInodeFailed u64 | UnlinkFailed u64
  | AddEntryParentFailed u64 | AddEntryFailed u64 cstring
  | DeleteEntryParentFailed u64 | DeleteEntryFailed u64 cstring

record ('d, 'i) Metadata =
  md_recycled_ids :: "u64 list"
  md_min_unused_id :: u64
  md_min_avail_id :: u64
  md_base_id :: u64
  md_max_id :: u64
  md_dhashtable :: 'd
  md_ihashtable :: 'i
  md_wal :: CompactWAL
  md_tls :: wal_tls
  md_failures :: "md_failure list"

definition on_dents :: "('d \<Rightarrow> ('r \<times> 'd) option) \<Rightarrow> ('d, 'i) Metadata \<Rightarrow> ('r \<times> ('d, 'i) Metadata) option" where
  "on_dents f md = do { (r, d) \<leftarrow> f (md_dhashtable md); Some (r, md\<lparr>md_dhashtable := d\<rparr>) }"

definition on_inodes :: "('i \<Rightarrow> ('r \<times> 'i) option) \<Rightarrow> ('d, 'i) Metadata \<Rightarrow> ('r \<times> ('d, 'i) Metadata) option" where
  "on_inodes f md = do { (r, i) \<leftarrow> f (md_ihashtable md); Some (r, md\<lparr>md_ihashtable := i\<rparr>) }"

definition on_wal ::
  "(wal_tls \<Rightarrow> CompactWAL \<Rightarrow> (u32 \<times> wal_tls \<times> CompactWAL) option) \<Rightarrow> ('d, 'i) Metadata \<Rightarrow> (u32 \<times> ('d, 'i) Metadata) option" where
  "on_wal f md = do { (sq, t, w) \<leftarrow> f (md_tls md) (md_wal md); Some (sq, md\<lparr>md_wal := w, md_tls := t\<rparr>) }"

definition report :: "bool \<Rightarrow> md_failure \<Rightarrow> ('d, 'i) Metadata \<Rightarrow> ('d, 'i) Metadata" where
  "report ok failure md = (if ok then md else md\<lparr>md_failures := md_failures md @ [failure]\<rparr>)"

record Result =
  res_mark :: int
  res_id :: u64
  res_new_path :: cstring

definition Result_mark :: "int \<Rightarrow> Result" where
  "Result_mark mark = \<lparr>res_mark = mark, res_id = 0, res_new_path = []\<rparr>"

definition EAGAIN :: int where "EAGAIN = 11"

section \<open>Inodes and their ids\<close>

definition GetInode :: "('d, 'i) md_env \<Rightarrow> u64 \<Rightarrow> ('d, 'i) Metadata \<Rightarrow> (Inode option \<times> ('d, 'i) Metadata) option" where
  "GetInode E inode_id md =
    (if inode_id = 0 then Some (None, md) else on_inodes (inode_find (env_inodes E) inode_id) md)"

definition PutInode :: "('d, 'i) md_env \<Rightarrow> u64 \<Rightarrow> Inode \<Rightarrow> ('d, 'i) Metadata \<Rightarrow> ('d, 'i) Metadata option" where
  "PutInode E inode_id source md =
    do { (ok, md) \<leftarrow> on_inodes (inode_insert (env_inodes E) inode_id source) md;
         Some (report ok (PutInodeFailed inode_id) md) }"

definition UpdateInode :: "('d, 'i) md_env \<Rightarrow> u64 \<Rightarrow> Inode \<Rightarrow> ('d, 'i) Metadata \<Rightarrow> ('d, 'i) Metadata option" where
  "UpdateInode E inode_id source md =
    do { (ok, md) \<leftarrow> on_inodes (inode_update_fn (env_inodes E) inode_id (\<lambda>cur. source)) md;
         Some (report ok (UpdateInodeFailed inode_id) md) }"

definition DeleteInode :: "('d, 'i) md_env \<Rightarrow> u64 \<Rightarrow> ('d, 'i) Metadata \<Rightarrow> ('d, 'i) Metadata option" where
  "DeleteInode E inode_id md =
    do { (_, md) \<leftarrow> on_inodes (inode_erase (env_inodes E) inode_id) md; Some md }"

definition FreeInodeId :: "u64 \<Rightarrow> ('d, 'i) Metadata \<Rightarrow> ('d, 'i) Metadata" where
  "FreeInodeId ino md =
    (let md = (if md_base_id md \<le> ino \<and> ino < md_max_id md
               then if md_min_unused_id md = ino + 1 then md\<lparr>md_min_unused_id := ino\<rparr>
                    else md\<lparr>md_recycled_ids := md_recycled_ids md @ [ino]\<rparr>
               else md)
     in if ino < md_min_avail_id md then md\<lparr>md_min_avail_id := ino\<rparr> else md)"

definition AllocateInodeId :: "('d, 'i) md_env \<Rightarrow> ('d, 'i) Metadata \<Rightarrow> u64 \<times> ('d, 'i) Metadata" where
  "AllocateInodeId E md =
    (let fresh = (md_min_unused_id md, md\<lparr>md_min_unused_id := md_min_unused_id md + 1, md_min_avail_id := md_min_unused_id md + 1\<rparr>)
     in if md_min_avail_id md = md_min_unused_id md then fresh
        else case env_try_dequeue E (md_recycled_ids md) of
            None \<Rightarrow> fresh
          | Some (ino, rest) \<Rightarrow> (ino, md\<lparr>md_recycled_ids := rest\<rparr>))"

section \<open>Path walk\<close>

definition slash :: byte where "slash = 0x2F"

text \<open>The arguments of the loop are the locals of the function; the result has the returned \<open>Result\<close>, the
  value left in \<open>*parent_buf\<close> and the entry written to \<open>*ent_ptr\<close>, if one is.\<close>

function locate_loop ::
  "('d, 'i) md_env \<Rightarrow> cstring \<Rightarrow> nat \<Rightarrow> u64 \<Rightarrow> u64 \<Rightarrow> Dirent option \<Rightarrow> ('d, 'i) Metadata \<Rightarrow>
    ((Result \<times> u64 \<times> Dirent option) \<times> ('d, 'i) Metadata) option" where
  "locate_loop E path offset inode_id parent_id dptr md =
    (if offset < length path then
       let s_name = takeWhile (\<lambda>c. c \<noteq> slash) (drop offset path);
           offset' = offset + length s_name + 1
       in do { (r, md) \<leftarrow> on_dents (dent_find (env_dents E) (inode_id, s_name)) md;
               case r of
                 Some d \<Rightarrow> locate_loop E path offset' (d_id d) inode_id (Some d) md
               | None \<Rightarrow> Some ((\<lparr>res_mark = -1, res_id = 0, res_new_path = s_name\<rparr>,
                   if offset' \<ge> length path then inode_id else 0, None), md) }
     else Some ((\<lparr>res_mark = 0, res_id = inode_id, res_new_path = []\<rparr>, parent_id,
            if parent_id \<noteq> 0 then dptr else None), md))"
  by pat_completeness auto
termination by (relation "measure (\<lambda>(E, path, offset, _). length path - offset)") auto

declare locate_loop.simps [simp del]

text \<open>\<open>parent_in\<close> is the value of \<open>*parent_buf\<close> on entry, 0 if \<open>parent_buf\<close> is null.\<close>

definition LocateInode ::
  "('d, 'i) md_env \<Rightarrow> cstring \<Rightarrow> u64 \<Rightarrow> ('d, 'i) Metadata \<Rightarrow> ((Result \<times> u64 \<times> Dirent option) \<times> ('d, 'i) Metadata) option" where
  "LocateInode E path parent_in md =
    locate_loop E path (if path \<noteq> [] \<and> hd path = slash then 1 else 0) (if parent_in \<noteq> 0 then parent_in else kRootId) 0 None md"

section \<open>Directory entries\<close>

definition AddDirectoryEntry ::
  "('d, 'i) md_env \<Rightarrow> Dirent \<Rightarrow> u64 \<Rightarrow> bool \<Rightarrow> ('d, 'i) Metadata \<Rightarrow> ('d, 'i) Metadata option" where
  "AddDirectoryEntry E entry parent_id update_parent md =
    do { md \<leftarrow> (if update_parent
           then do { (ok, md) \<leftarrow> on_inodes (inode_update_fn (env_inodes E) parent_id (\<lambda>cur. cur\<lparr>i_extra := i_extra cur + 1\<rparr>)) md;
                     Some (report ok (AddEntryParentFailed parent_id) md) }
           else Some md);
         (ok, md) \<leftarrow> on_dents (dent_insert (env_dents E) (parent_id, d_name entry) entry) md;
         Some (report ok (AddEntryFailed parent_id (d_name entry)) md) }"

definition DeleteDirectoryEntry ::
  "('d, 'i) md_env \<Rightarrow> Dirent \<Rightarrow> u64 \<Rightarrow> bool \<Rightarrow> ('d, 'i) Metadata \<Rightarrow> ('d, 'i) Metadata option" where
  "DeleteDirectoryEntry E entry parent_id update_parent md =
    do { md \<leftarrow> (if update_parent
           then do { (ok, md) \<leftarrow> on_inodes (inode_update_fn (env_inodes E) parent_id (\<lambda>cur. cur\<lparr>i_extra := i_extra cur - 1\<rparr>)) md;
                     Some (report ok (DeleteEntryParentFailed parent_id) md) }
           else Some md);
         (ok, md) \<leftarrow> on_dents (dent_erase (env_dents E) (parent_id, d_name entry)) md;
         Some (report ok (DeleteEntryFailed parent_id (d_name entry)) md) }"

section \<open>Namespace operations\<close>

definition md_Stat :: "('d, 'i) md_env \<Rightarrow> cstring \<Rightarrow> ('d, 'i) Metadata \<Rightarrow> ((Result \<times> Inode option) \<times> ('d, 'i) Metadata) option" where
  "md_Stat E path md =
    do { ((res, _, _), md) \<leftarrow> LocateInode E path 0 md;
         if res_mark res = -1 then Some ((res, None), md)
         else do { (r, md) \<leftarrow> GetInode E (res_id res) md;
                   Some ((Result_mark (if r = None then -1 else 0), r), md) } }"

text \<open>The refusal test of the functor that \<open>Unlink\<close> applies to the inode.\<close>

definition unlink_error :: "bool \<Rightarrow> Inode \<Rightarrow> bool" where
  "unlink_error is_dir cur \<longleftrightarrow>
    (if \<not> is_dir then i_mode cur AND S_IFDIR \<noteq> 0 else i_mode cur AND S_IFDIR = 0 \<or> i_extra cur > 0)"

definition unlink_fn :: "bool \<Rightarrow> Inode \<Rightarrow> Inode" where
  "unlink_fn is_dir cur = (if unlink_error is_dir cur then cur else cur\<lparr>i_nlink := i_nlink cur - 1\<rparr>)"

text \<open>The functor's captured variables \<open>error\<close> and \<open>remove\<close> depend only on the value it is applied to, which is
  read before it is applied.\<close>

definition unlink_inode ::
  "('d, 'i) md_env \<Rightarrow> u64 \<Rightarrow> u64 \<Rightarrow> Dirent \<Rightarrow> bool \<Rightarrow> ('d, 'i) Metadata \<Rightarrow> (Result \<times> ('d, 'i) Metadata) option" where
  "unlink_inode E ino parent_id dirent is_dir md =
    do { (cur, md) \<leftarrow> on_inodes (inode_find (env_inodes E) ino) md;
         (ok, md) \<leftarrow> on_inodes (inode_update_fn (env_inodes E) ino (unlink_fn is_dir)) md;
         let md = report ok (UnlinkFailed ino) md;
         case cur of
           None \<Rightarrow> Some (Result_mark (-1), md)
         | Some inode \<Rightarrow>
            if unlink_error is_dir inode then Some (Result_mark (-1), md) else
            do { md \<leftarrow> DeleteDirectoryEntry E dirent parent_id True md;
                 if i_nlink inode - 1 = 0
                 then do { md \<leftarrow> DeleteInode E ino (FreeInodeId ino md); Some (Result_mark 0, md) }
                 else Some (Result_mark 0, md) } }"

definition md_Unlink ::
  "('d, 'i) md_env \<Rightarrow> u64 \<Rightarrow> cstring \<Rightarrow> bool \<Rightarrow> ('d, 'i) Metadata \<Rightarrow> (Result \<times> ('d, 'i) Metadata) option" where
  "md_Unlink E now_ms path is_dir md =
    do { ((res, parent_id, ent), md) \<leftarrow> LocateInode E path 0 md;
         if res_mark res = -1 then Some (Result_mark (-1), md) else
         do { let dirent = (case ent of None \<Rightarrow> Dirent_zero | Some d \<Rightarrow> d);
              (sq, md) \<leftarrow> on_wal (LogUnlink now_ms (res_id res) parent_id (d_name dirent) (of_nat (length (d_name dirent)))) md;
              if sq = 0 then Some (Result_mark (- EAGAIN), md)
              else unlink_inode E (res_id res) parent_id dirent is_dir md } }"

definition md_Access ::
  "('d, 'i) md_env \<Rightarrow> cstring \<Rightarrow> u32 \<Rightarrow> u32 \<Rightarrow> u32 \<Rightarrow> ('d, 'i) Metadata \<Rightarrow> (Result \<times> ('d, 'i) Metadata) option" where
  "md_Access E path mode uid gid md =
    do { ((res, _, _), md) \<leftarrow> LocateInode E path 0 md;
         if res_mark res = -1 then Some (Result_mark (-1), md) else
         do { (r, md) \<leftarrow> GetInode E (res_id res) md;
              case r of
                None \<Rightarrow> Some (Result_mark (-1), md)
              | Some inode \<Rightarrow>
                 let allowed = (\<lambda>perm. Result_mark (if mode AND perm = mode then 0 else -1))
                 in Some (if mode = 0 then Result_mark 0
                          else if uid = i_uid inode then allowed (drop_bit 6 (i_mode inode))
                          else if gid = i_gid inode then allowed (drop_bit 3 (i_mode inode))
                          else allowed (i_mode inode), md) } }"

definition md_Chmod ::
  "('d, 'i) md_env \<Rightarrow> u64 \<Rightarrow> cstring \<Rightarrow> u32 \<Rightarrow> ('d, 'i) Metadata \<Rightarrow> (Result \<times> ('d, 'i) Metadata) option" where
  "md_Chmod E now_ms path mode md =
    do { ((res, _, _), md) \<leftarrow> LocateInode E path 0 md;
         if res_mark res = -1 \<or> res_id res = 0 then Some (Result_mark (-1), md) else
         do { (sq, md) \<leftarrow> on_wal (\<lambda>t w. Some (LogSetattr now_ms (res_id res) mode t w)) md;
              if sq = 0 then Some (Result_mark (- EAGAIN), md) else
              do { (ret, md) \<leftarrow> on_inodes (inode_update_fn (env_inodes E) (res_id res) (\<lambda>cur. cur\<lparr>i_mode := mode\<rparr>)) md;
                   Some (Result_mark (if ret then 0 else -1), md) } } }"

text \<open>\<open>buf\<close> is the inode buffer of the caller, \<open>None\<close> for the null pointer, which makes a directory. The first
  definition is the part for a missing name.\<close>

definition create_node ::
  "('d, 'i) md_env \<Rightarrow> u64 \<Rightarrow> u64 \<Rightarrow> u64 \<Rightarrow> cstring \<Rightarrow> u8 \<Rightarrow> u32 \<Rightarrow> u32 \<Rightarrow> u32 \<Rightarrow> Inode option \<Rightarrow> ('d, 'i) Metadata \<Rightarrow>
    ((Result \<times> Inode option) \<times> ('d, 'i) Metadata) option" where
  "create_node E now now_ms parent_id name ty mode uid gid buf md =
    do { let (ino, md) = AllocateInodeId E md;
         let mode = (if ty = DT_DIR then mode OR S_IFDIR else mode OR S_IFREG);
         entry \<leftarrow> Dirent_new ino parent_id (ucast ty) name;
         (sq, md) \<leftarrow> on_wal (LogCreate now_ms ino parent_id mode uid gid ty name (of_nat (length name))) md;
         if sq = 0 then Some ((Result_mark (- EAGAIN), buf), FreeInodeId ino md) else
         do { let node = Inode_new ino 1 mode uid gid now now now;
              md \<leftarrow> PutInode E ino node md;
              md \<leftarrow> AddDirectoryEntry E entry parent_id True md;
              Some ((Result_mark 0, if buf \<noteq> None then Some node else None), md) } }"

definition md_Create ::
  "('d, 'i) md_env \<Rightarrow> u64 \<Rightarrow> u64 \<Rightarrow> cstring \<Rightarrow> u32 \<Rightarrow> u32 \<Rightarrow> u32 \<Rightarrow> Inode option \<Rightarrow> ('d, 'i) Metadata \<Rightarrow>
    ((Result \<times> Inode option) \<times> ('d, 'i) Metadata) option" where
  "md_Create E now now_ms path mode uid gid buf md =
    do { ((res, parent_id, _), md) \<leftarrow> LocateInode E path 0 md;
         if parent_id = 0 then Some ((Result_mark (-1), buf), md)
         else if res_mark res = 0 then
           do { (r, md) \<leftarrow> GetInode E (res_id res) md;
                Some ((Result_mark (if r = None then -1 else 0), if buf \<noteq> None \<and> r \<noteq> None then r else buf), md) }
         else create_node E now now_ms parent_id (res_new_path res) (if buf \<noteq> None then DT_REG else DT_DIR) mode uid gid buf md }"

definition md_Mkdir ::
  "('d, 'i) md_env \<Rightarrow> u64 \<Rightarrow> u64 \<Rightarrow> cstring \<Rightarrow> u32 \<Rightarrow> u32 \<Rightarrow> u32 \<Rightarrow> ('d, 'i) Metadata \<Rightarrow>
    (Result \<times> ('d, 'i) Metadata) option" where
  "md_Mkdir E now now_ms path mode uid gid md =
    do { ((res, _), md) \<leftarrow> md_Create E now now_ms path mode uid gid None md; Some (res, md) }"

definition md_Rmdir ::
  "('d, 'i) md_env \<Rightarrow> u64 \<Rightarrow> cstring \<Rightarrow> ('d, 'i) Metadata \<Rightarrow> (Result \<times> ('d, 'i) Metadata) option" where
  "md_Rmdir E now_ms path md = md_Unlink E now_ms path True md"

text \<open>The loop that finds the last common directory: it runs on past the terminators of identical paths (\<open>None\<close>).\<close>

fun last_common_dir :: "nat \<Rightarrow> nat \<Rightarrow> cstring \<Rightarrow> cstring \<Rightarrow> nat option" where
  "last_common_dir i found [] [] = None"
| "last_common_dir i found (x # xs) (y # ys) =
    (if x = y then last_common_dir (Suc i) (if x = slash then i else found) xs ys else Some found)"
| "last_common_dir i found _ _ = Some found"

text \<open>The cover of an existing target, up to the second look for it: \<open>Inl\<close> is an early return.\<close>

definition rename_cover ::
  "('d, 'i) md_env \<Rightarrow> u64 \<Rightarrow> cstring \<Rightarrow> cstring \<Rightarrow> bool \<Rightarrow> bool \<Rightarrow> u64 \<Rightarrow> ('d, 'i) Metadata \<Rightarrow>
    ((int + Result \<times> u64) \<times> ('d, 'i) Metadata) option" where
  "rename_cover E now_ms newpath new_tail old_is_dir new_is_dir new_parent md =
    (if old_is_dir \<noteq> new_is_dir then Some (Inl (-1), md) else
     do { (cover_res, md) \<leftarrow> md_Unlink E now_ms newpath new_is_dir md;
          if res_mark cover_res = - EAGAIN then Some (Inl (- EAGAIN), md)
          else if res_mark cover_res \<noteq> 0 then Some (Inl (-1), md)
          else do { ((new_res, new_parent, _), md) \<leftarrow> LocateInode E new_tail new_parent md;
                    if res_mark new_res = 0 then Some (Inl (-1), md) else Some (Inr (new_res, new_parent), md) } })"

text \<open>Steps 5 and 6: log, remove the old entry or count the link, and add the new entry.\<close>

definition rename_move ::
  "('d, 'i) md_env \<Rightarrow> u64 \<Rightarrow> bool \<Rightarrow> u64 \<Rightarrow> Dirent \<Rightarrow> u64 \<Rightarrow> cstring \<Rightarrow> u64 \<Rightarrow> ('d, 'i) Metadata \<Rightarrow>
    (int \<times> ('d, 'i) Metadata) option" where
  "rename_move E now_ms link old_id entry old_parent new_name new_parent md =
    (let same_parent = (old_parent = new_parent);
         put = (\<lambda>md. if length new_name > kMaxFilenameLen then None
           else do { md \<leftarrow> AddDirectoryEntry E (Dirent_SetRecLen (entry\<lparr>d_pid := new_parent, d_name := new_name\<rparr>))
                       new_parent (\<not> same_parent \<or> link) md;
                     Some (0 :: int, md) })
     in if \<not> link then
          do { (sq, md) \<leftarrow> on_wal (LogRename now_ms old_id old_parent new_parent (d_name entry) (of_nat (length (d_name entry)))
                 new_name (of_nat (length new_name)) (d_type entry)) md;
               if sq = 0 then Some (- EAGAIN, md)
               else do { md \<leftarrow> DeleteDirectoryEntry E entry old_parent (\<not> same_parent) md; put md } }
        else
          do { (sq, md) \<leftarrow> on_wal (LogLink now_ms old_id new_parent new_name (of_nat (length new_name)) (d_type entry)) md;
               if sq = 0 then Some (- EAGAIN, md)
               else do { (ok, md) \<leftarrow> on_inodes (inode_update_fn (env_inodes E) old_id (\<lambda>cur. cur\<lparr>i_nlink := i_nlink cur + 1\<rparr>)) md;
                         if \<not> ok then Some (-1, md) else put md } })"

text \<open>The \<open>type_\<close> of an entry that the walk did not fill in is indeterminate (\<open>None\<close> when it is read).\<close>

definition md_Rename ::
  "('d, 'i) md_env \<Rightarrow> u64 \<Rightarrow> cstring \<Rightarrow> cstring \<Rightarrow> bool \<Rightarrow> ('d, 'i) Metadata \<Rightarrow> (int \<times> ('d, 'i) Metadata) option" where
  "md_Rename E now_ms oldpath newpath link md =
    do { dir \<leftarrow> last_common_dir 0 0 newpath oldpath;
         ((lcd, _, _), md) \<leftarrow> LocateInode E (take dir oldpath) 0 md;
         if res_mark lcd = -1 then Some (-1, md) else
         do { ((old_res, old_parent, ent), md) \<leftarrow> LocateInode E (drop dir oldpath) (res_id lcd) md;
              if res_mark old_res = -1 then Some (-1, md) else
              do { ((new_res, new_parent, new_ent), md) \<leftarrow> LocateInode E (drop dir newpath) (res_id lcd) md;
                   if res_mark new_res = 0 \<and> link then Some (-1, md) else
                   do { (t, md) \<leftarrow> (if res_mark new_res = 0
                          then do { entry \<leftarrow> ent; new_entry \<leftarrow> new_ent;
                                    rename_cover E now_ms newpath (drop dir newpath) (d_type entry = DT_DIR) (d_type new_entry = DT_DIR) new_parent md }
                          else Some (Inr (new_res, new_parent), md));
                        case t of
                          Inl rc \<Rightarrow> Some (rc, md)
                        | Inr (new_res, new_parent) \<Rightarrow>
                           if new_parent = 0 then Some (-1, md)
                           else do { entry \<leftarrow> ent;
                                     rename_move E now_ms link (res_id old_res) entry old_parent (res_new_path new_res) new_parent md } } } } }"

definition md_Link ::
  "('d, 'i) md_env \<Rightarrow> u64 \<Rightarrow> cstring \<Rightarrow> cstring \<Rightarrow> ('d, 'i) Metadata \<Rightarrow> (int \<times> ('d, 'i) Metadata) option" where
  "md_Link E now_ms oldpath newpath md = md_Rename E now_ms oldpath newpath True md"

definition md_OpenDir ::
  "('d, 'i) md_env \<Rightarrow> cstring \<Rightarrow> ('d, 'i) Metadata \<Rightarrow> ((Result \<times> DirHandle) \<times> ('d, 'i) Metadata) option" where
  "md_OpenDir E path md =
    do { ((res, _, _), md) \<leftarrow> LocateInode E path 0 md;
         Some ((res, \<lparr>dh_id = res_id res, dh_read_cutoff_version = 0\<rparr>), md) }"

section \<open>Initialisation\<close>

text \<open>\<open>Init\<close> with the stores as \<open>InitHashtable\<close> made them; server 0 adds the root directory. The atomic ids start at 0.\<close>

definition md_Init ::
  "('d, 'i) md_env \<Rightarrow> nat \<Rightarrow> u64 \<Rightarrow> 'd \<Rightarrow> 'i \<Rightarrow> CompactWAL \<Rightarrow> ('d, 'i) Metadata option" where
  "md_Init E meta_num now dents inodes wal =
    (let base = push_bit INODE_ID_RANGE (of_nat meta_num);
         md = \<lparr>md_recycled_ids = [], md_min_unused_id = base + kRootId + 1, md_min_avail_id = 0, md_base_id = base,
               md_max_id = push_bit INODE_ID_RANGE (of_nat (meta_num + 1)), md_dhashtable = dents, md_ihashtable = inodes,
               md_wal = wal, md_tls = no_tls, md_failures = []\<rparr>
     in if meta_num = 0
        then PutInode E kRootId (Inode_new kRootId 1 (0x1ED OR S_IFDIR) 1 2 now now now) md
        else Some md)"

end
