(* ===== verification/Namespace.thy ===== *)
theory Namespace
  imports Metadata LevelHashtableProbe
begin

text \<open>
  The name space that the metadata service keeps, as two maps: directory entries by parent and name, and inodes
  by id. It defines path resolution on the maps, the consistency of the maps (every entry points to an inode and
  lies in a directory, link counts and entry counts are exact), and shows that creating, removing, moving and
  linking an entry keep it.
\<close>

unbundle bit_operations_syntax

section \<open>The name space as two maps\<close>

type_synonym dmap = "u64 \<times> cstring \<Rightarrow> Dirent option"
type_synonym imap = "u64 \<Rightarrow> Inode option"

text \<open>The names of a path, and the walk along them: the entry and directory it ends with, or the first name
  that is missing, its directory, and whether it is the last name.\<close>

function path_names :: "cstring \<Rightarrow> cstring list" where
  "path_names cs =
    (if cs = [] then [] else takeWhile (\<lambda>c. c \<noteq> slash) cs # path_names (drop 1 (dropWhile (\<lambda>c. c \<noteq> slash) cs)))"
  by pat_completeness auto
termination
proof (relation "measure length", goal_cases)
  case (2 cs)
  then show ?case using length_dropWhile_le [of "\<lambda>c. c \<noteq> slash" cs] by (cases cs) (auto simp: less_Suc_eq_le)
qed simp

declare path_names.simps [simp del]

definition names_of :: "cstring \<Rightarrow> cstring list" where
  "names_of path = path_names (if path \<noteq> [] \<and> hd path = slash then tl path else path)"

datatype walked = Reached u64 u64 "Dirent option" | Missing u64 cstring bool

fun walk :: "dmap \<Rightarrow> u64 \<Rightarrow> u64 \<Rightarrow> Dirent option \<Rightarrow> cstring list \<Rightarrow> walked" where
  "walk D ino parent ent [] = Reached ino parent ent"
| "walk D ino parent ent (n # ns) =
    (case D (ino, n) of Some d \<Rightarrow> walk D (d_id d) ino (Some d) ns | None \<Rightarrow> Missing ino n (ns = []))"

definition resolve :: "dmap \<Rightarrow> u64 \<Rightarrow> cstring \<Rightarrow> walked" where
  "resolve D start path = walk D start 0 None (names_of path)"

definition links :: "dmap \<Rightarrow> u64 \<Rightarrow> (u64 \<times> cstring) set" where
  "links D ino = {k. \<exists>d. D k = Some d \<and> d_id d = ino}"

definition children :: "dmap \<Rightarrow> u64 \<Rightarrow> (u64 \<times> cstring) set" where
  "children D p = {k. D k \<noteq> None \<and> fst k = p}"

definition is_dir :: "Inode \<Rightarrow> bool" where
  "is_dir i \<longleftrightarrow> i_mode i AND S_IFDIR \<noteq> 0"

text \<open>Every entry points to an inode, lies in a directory, and is stored under its own key; its type byte
  says whether the inode is a directory.\<close>

definition entry_ok :: "imap \<Rightarrow> u64 \<times> cstring \<Rightarrow> Dirent \<Rightarrow> bool" where
  "entry_ok I k d \<longleftrightarrow> k = (d_pid d, d_name d) \<and> valid_dirent d \<and> d_id d \<noteq> kRootId \<and>
    (\<exists>i. I (d_id d) = Some i \<and> (d_type d = DT_DIR \<longleftrightarrow> is_dir i)) \<and> (\<exists>p. I (fst k) = Some p \<and> is_dir p)"

text \<open>The link count of an inode is the number of its entries and \<open>extra_\<close> the number of entries in it, up to
  the differences \<open>dl\<close> and \<open>dc\<close>.\<close>

definition counts_ok :: "dmap \<Rightarrow> imap \<Rightarrow> (u64 \<Rightarrow> u64) \<Rightarrow> (u64 \<Rightarrow> u32) \<Rightarrow> bool" where
  "counts_ok D I dl dc \<longleftrightarrow> (\<forall>ino i. I ino = Some i \<longrightarrow>
     i_id i = ino \<and> i_extra i = of_nat (card (children D ino)) + dc ino \<and>
     (ino \<noteq> kRootId \<longrightarrow> i_nlink i = of_nat (card (links D ino)) + dl ino))"

definition no_dl :: "u64 \<Rightarrow> u64" where "no_dl = (\<lambda>_. 0)"
definition no_dc :: "u64 \<Rightarrow> u32" where "no_dc = (\<lambda>_. 0)"

definition entries_ok :: "dmap \<Rightarrow> imap \<Rightarrow> bool" where
  "entries_ok D I \<longleftrightarrow> finite (dom D) \<and> card (dom D) < 2 ^ 32 \<and> (\<forall>k d. D k = Some d \<longrightarrow> entry_ok I k d) \<and>
    (\<exists>r. I kRootId = Some r \<and> is_dir r) \<and> I 0 = None"

definition fs_ok :: "dmap \<Rightarrow> imap \<Rightarrow> bool" where
  "fs_ok D I \<longleftrightarrow> entries_ok D I \<and> counts_ok D I no_dl no_dc \<and> (\<forall>ino. I ino \<noteq> None \<and> ino \<noteq> kRootId \<longrightarrow> links D ino \<noteq> {})"

subsection \<open>Counting\<close>

lemma finite_sets: "finite (dom D) \<Longrightarrow> finite (links D ino)" "finite (dom D) \<Longrightarrow> finite (children D ino)"
  by (auto simp: links_def children_def dom_def elim!: rev_finite_subset)

lemma links_insert: "D k = None \<Longrightarrow> links (D(k \<mapsto> d)) ino = (if d_id d = ino then insert k (links D ino) else links D ino)"
  by (auto simp: links_def)

lemma links_delete: "D k = Some d \<Longrightarrow> links (D(k := None)) ino = (if d_id d = ino then links D ino - {k} else links D ino)"
  by (auto simp: links_def)

lemma children_insert: "children (D(k \<mapsto> d)) ino = (if fst k = ino then insert k (children D ino) else children D ino)"
  by (auto simp: children_def)

lemma children_delete: "children (D(k := None)) ino = children D ino - {k}"
  by (auto simp: children_def)

lemma card_insert:
  assumes "finite (dom D)" "D k = None"
  shows "card (links (D(k \<mapsto> d)) ino) = card (links D ino) + (if d_id d = ino then 1 else 0)"
    "card (children (D(k \<mapsto> d)) ino) = card (children D ino) + (if fst k = ino then 1 else 0)"
proof -
  have "k \<notin> links D ino" "k \<notin> children D ino" using assms(2) by (auto simp: links_def children_def)
  then show "card (links (D(k \<mapsto> d)) ino) = card (links D ino) + (if d_id d = ino then 1 else 0)"
    "card (children (D(k \<mapsto> d)) ino) = card (children D ino) + (if fst k = ino then 1 else 0)"
    using finite_sets [OF assms(1)] assms(2) by (auto simp: links_insert children_insert)
qed

lemma card_delete:
  assumes "finite (dom D)" "D k = Some d"
  shows "card (links D ino) = card (links (D(k := None)) ino) + (if d_id d = ino then 1 else 0)"
    "card (children D ino) = card (children (D(k := None)) ino) + (if fst k = ino then 1 else 0)"
proof -
  have "k \<in> links D ino \<longleftrightarrow> d_id d = ino" "k \<in> children D ino \<longleftrightarrow> fst k = ino" using assms(2) by (auto simp: links_def children_def)
  then show "card (links D ino) = card (links (D(k := None)) ino) + (if d_id d = ino then 1 else 0)"
    "card (children D ino) = card (children (D(k := None)) ino) + (if fst k = ino then 1 else 0)"
    using finite_sets [OF assms(1), of ino] assms(2) card.remove [of "links D ino" k] card.remove [of "children D ino" k]
    by (auto simp: links_delete children_delete)
qed

lemma card_links_small: "entries_ok D I \<Longrightarrow> card (links D ino) < 2 ^ 32"
  "entries_ok D I \<Longrightarrow> card (children D ino) < 2 ^ 32"
proof -
  assume e: "entries_ok D I"
  have "links D ino \<subseteq> dom D" "children D ino \<subseteq> dom D" by (auto simp: links_def children_def)
  with e show "card (links D ino) < 2 ^ 32" "card (children D ino) < 2 ^ 32"
    unfolding entries_ok_def by (meson card_mono order.strict_trans1)+
qed

lemma of_nat_card_0:
  assumes "finite S" "card S < 2 ^ 32"
  shows "(of_nat (card S) :: u32) = 0 \<longleftrightarrow> S = {}" "(of_nat (card S) :: u64) = 0 \<longleftrightarrow> S = {}"
proof -
  have "unat (of_nat (card S) :: u32) = card S" "unat (of_nat (card S) :: u64) = card S"
    using assms(2) by (simp_all add: unsigned_of_nat take_bit_nat_eq_self)
  then have "(of_nat (card S) :: u32) = 0 \<longrightarrow> card S = 0" "(of_nat (card S) :: u64) = 0 \<longrightarrow> card S = 0" by force+
  then show "(of_nat (card S) :: u32) = 0 \<longleftrightarrow> S = {}" "(of_nat (card S) :: u64) = 0 \<longleftrightarrow> S = {}"
    using assms(1) by auto
qed

lemma fresh_no_links:
  assumes "entries_ok D I" "I ino = None"
  shows "links D ino = {}" "children D ino = {}"
proof -
  have "entry_ok I k d" if "D k = Some d" for k d using assms(1) that unfolding entries_ok_def by blast
  then show "links D ino = {}" "children D ino = {}"
    using assms(2) by (fastforce simp: links_def children_def entry_ok_def)+
qed

subsection \<open>Changes of the two maps\<close>

definition upd_extra :: "u32 \<Rightarrow> u64 \<Rightarrow> imap \<Rightarrow> imap" where
  "upd_extra c p I = I(p := map_option (\<lambda>i. i\<lparr>i_extra := i_extra i + c\<rparr>) (I p))"

definition upd_nlink :: "u64 \<Rightarrow> u64 \<Rightarrow> imap \<Rightarrow> imap" where
  "upd_nlink c ino I = I(ino := map_option (\<lambda>i. i\<lparr>i_nlink := i_nlink i + c\<rparr>) (I ino))"

definition same_kinds :: "imap \<Rightarrow> imap \<Rightarrow> bool" where
  "same_kinds I I' \<longleftrightarrow> (\<forall>ino. map_option is_dir (I' ino) = map_option is_dir (I ino))"

lemma is_dir_update [simp]: "is_dir (i\<lparr>i_extra := c\<rparr>) = is_dir i" "is_dir (i\<lparr>i_nlink := l\<rparr>) = is_dir i"
  by (simp_all add: is_dir_def)

lemma same_kinds_upd [simp]: "same_kinds I (upd_extra c p I)" "same_kinds I (upd_nlink l ino I)"
  by (auto simp: same_kinds_def upd_extra_def upd_nlink_def map_option_case split: option.splits)

lemma same_kinds_refl [simp]: "same_kinds I I"
  by (simp add: same_kinds_def)

lemma same_kinds_trans: "same_kinds I I' \<Longrightarrow> same_kinds I' I'' \<Longrightarrow> same_kinds I I''"
  by (simp add: same_kinds_def)

lemma same_kindsD: "same_kinds I I' \<Longrightarrow> I ino = Some i \<Longrightarrow> \<exists>i'. I' ino = Some i' \<and> is_dir i' = is_dir i"
  unfolding same_kinds_def by (metis map_option_eq_Some option.simps(9))

lemma same_kinds_None: "same_kinds I I' \<Longrightarrow> I' ino = None \<longleftrightarrow> I ino = None"
  unfolding same_kinds_def by (metis map_option_is_None)

lemma upd_None [simp]: "upd_extra c p I ino = None \<longleftrightarrow> I ino = None" "upd_nlink l j I ino = None \<longleftrightarrow> I ino = None"
  by (auto simp: upd_extra_def upd_nlink_def)

lemma entry_ok_kinds:
  assumes "same_kinds I I'" "entry_ok I k d"
  shows "entry_ok I' k d"
proof -
  obtain i p where e: "k = (d_pid d, d_name d)" "valid_dirent d" "d_id d \<noteq> kRootId" "I (d_id d) = Some i" "d_type d = DT_DIR \<longleftrightarrow> is_dir i"
    "I (fst k) = Some p" "is_dir p"
    using assms(2) unfolding entry_ok_def by blast
  obtain i' p' where "I' (d_id d) = Some i'" "is_dir i' = is_dir i" "I' (fst k) = Some p'" "is_dir p' = is_dir p"
    using same_kindsD [OF assms(1) e(4)] same_kindsD [OF assms(1) e(6)] by blast
  with e show ?thesis unfolding entry_ok_def by simp
qed

lemma entries_kinds:
  assumes "same_kinds I I'" "entries_ok D I"
  shows "entries_ok D I'"
proof -
  obtain r where "I kRootId = Some r" "is_dir r" using assms(2) unfolding entries_ok_def by blast
  then have "\<exists>r'. I' kRootId = Some r' \<and> is_dir r'" using same_kindsD [OF assms(1)] by blast
  moreover have "I' 0 = None" using assms same_kinds_None [OF assms(1)] unfolding entries_ok_def by blast
  ultimately show ?thesis using assms(2) entry_ok_kinds [OF assms(1)] unfolding entries_ok_def by blast
qed

lemma entries_insert:
  assumes "entries_ok D I" "card (dom D) + 1 < 2 ^ 32" "entry_ok I k d"
  shows "entries_ok (D(k \<mapsto> d)) I"
  using assms unfolding entries_ok_def by (auto simp: card_insert_if)

lemma entries_delete:
  assumes "entries_ok D I"
  shows "entries_ok (D(k := None)) I"
proof -
  have "card (dom (D(k := None))) \<le> card (dom D)" using assms by (auto simp: entries_ok_def intro: card_mono)
  then show ?thesis using assms unfolding entries_ok_def by auto
qed

lemma entries_new:
  assumes "entries_ok D I" "I ino = None" "ino \<noteq> 0"
  shows "entries_ok D (I(ino \<mapsto> node))"
proof -
  have r: "ino \<noteq> kRootId" using assms by (auto simp: entries_ok_def)
  have "entry_ok (I(ino \<mapsto> node)) k d" if "D k = Some d" for k d
  proof -
    have "entry_ok I k d" using assms(1) that unfolding entries_ok_def by blast
    then show ?thesis using assms(2) unfolding entry_ok_def by (auto simp: fun_upd_def)
  qed
  then show ?thesis using assms r unfolding entries_ok_def by (auto simp: fun_upd_def)
qed

lemma entries_remove:
  assumes "entries_ok D I" "links D ino = {}" "children D ino = {}" "ino \<noteq> kRootId"
  shows "entries_ok D (I(ino := None))"
proof -
  have "entry_ok (I(ino := None)) k d" if "D k = Some d" for k d
  proof -
    have "entry_ok I k d" using assms(1) that unfolding entries_ok_def by blast
    moreover have "d_id d \<noteq> ino" "fst k \<noteq> ino" using assms(2,3) that unfolding links_def children_def by blast+
    ultimately show ?thesis unfolding entry_ok_def by (auto simp: fun_upd_def)
  qed
  then show ?thesis using assms unfolding entries_ok_def by (auto simp: fun_upd_def)
qed

lemma counts_insert:
  assumes "counts_ok D I dl dc" "finite (dom D)" "D k = None"
  shows "counts_ok (D(k \<mapsto> d)) I (dl(d_id d := dl (d_id d) - 1)) (dc(fst k := dc (fst k) - 1))"
  using assms(1) unfolding counts_ok_def by (auto simp: card_insert [OF assms(2,3)])

lemma counts_delete:
  assumes "counts_ok D I dl dc" "finite (dom D)" "D k = Some d"
  shows "counts_ok (D(k := None)) I (dl(d_id d := dl (d_id d) + 1)) (dc(fst k := dc (fst k) + 1))"
  using assms(1) unfolding counts_ok_def card_delete [OF assms(2,3)] by auto

lemma counts_extra:
  assumes "counts_ok D I dl dc"
  shows "counts_ok D (upd_extra c p I) dl (dc(p := dc p + c))"
  using assms unfolding counts_ok_def upd_extra_def by (auto simp: add.assoc)

lemma counts_nlink:
  assumes "counts_ok D I dl dc"
  shows "counts_ok D (upd_nlink l ino I) (dl(ino := dl ino + l)) dc"
  using assms unfolding counts_ok_def upd_nlink_def by (auto simp: add.assoc)

lemma counts_new:
  assumes "counts_ok D I dl dc" "entries_ok D I" "I ino = None" "i_id node = ino"
  shows "counts_ok D (I(ino \<mapsto> node)) (dl(ino := i_nlink node)) (dc(ino := i_extra node))"
  using assms(1,4) fresh_no_links [OF assms(2,3)] unfolding counts_ok_def by auto

lemma counts_remove:
  assumes "counts_ok D I dl dc"
  shows "counts_ok D (I(ino := None)) dl dc"
  using assms unfolding counts_ok_def by auto

lemma counts_kinds:
  assumes "counts_ok D I dl dc" "\<And>i. i_id (f i) = i_id i" "\<And>i. i_extra (f i) = i_extra i" "\<And>i. i_nlink (f i) = i_nlink i"
  shows "counts_ok D (I(ino := map_option f (I ino))) dl dc"
  using assms(1) unfolding counts_ok_def by (auto simp: assms(2-4))

subsection \<open>The name space operations keep the maps consistent\<close>

lemma fs_okD:
  assumes "fs_ok D I"
  shows "entries_ok D I" "counts_ok D I no_dl no_dc" "finite (dom D)" "\<And>k d. D k = Some d \<Longrightarrow> entry_ok I k d"
    "\<exists>r. I kRootId = Some r \<and> is_dir r" "I 0 = None"
    "\<And>ino. I ino \<noteq> None \<Longrightarrow> ino \<noteq> kRootId \<Longrightarrow> links D ino \<noteq> {}"
  using assms unfolding fs_ok_def entries_ok_def by blast+

lemma fs_create:
  assumes ok: "fs_ok D I" and k: "D k = None" "card (dom D) + 1 < 2 ^ 32"
    and p: "I (fst k) = Some p" "is_dir p" and ino: "I ino = None" "ino \<noteq> 0"
    and e: "d_id e = ino" "k = (d_pid e, d_name e)" "valid_dirent e" "d_type e = DT_DIR \<longleftrightarrow> is_dir node"
    and n: "i_id node = ino" "i_nlink node = 1" "i_extra node = 0"
  shows "fs_ok (D(k \<mapsto> e)) (upd_extra 1 (fst k) (I(ino \<mapsto> node)))"
proof -
  note F = fs_okD [OF ok]
  have r: "ino \<noteq> kRootId" "fst k \<noteq> ino" using F(5) ino p by auto
  let ?I = "upd_extra 1 (fst k) (I(ino \<mapsto> node))"
  note E1 = entries_new [OF F(1) ino, of node]
  have "entry_ok (I(ino \<mapsto> node)) k e" using e p r unfolding entry_ok_def by auto
  from entries_insert [OF E1 k(2) this] have E: "entries_ok (D(k \<mapsto> e)) ?I"
    by (rule entries_kinds [OF same_kinds_upd(1)])
  note C1 = counts_new [OF F(2,1) ino(1) n(1)]
  note C2 = counts_extra [OF counts_insert [OF C1 F(3) k(1), of e], of 1 "fst k"]
  have "(no_dl(ino := i_nlink node))(d_id e := (no_dl(ino := i_nlink node)) (d_id e) - 1) = no_dl"
    using e n by (auto simp: no_dl_def)
  moreover have "((no_dc(ino := i_extra node))(fst k := (no_dc(ino := i_extra node)) (fst k) - 1))
     (fst k := ((no_dc(ino := i_extra node))(fst k := (no_dc(ino := i_extra node)) (fst k) - 1)) (fst k) + 1) = no_dc"
    using n r by (auto simp: no_dc_def)
  ultimately have C: "counts_ok (D(k \<mapsto> e)) ?I no_dl no_dc" using C2 by simp
  have "links (D(k \<mapsto> e)) j \<noteq> {}" if "?I j \<noteq> None" "j \<noteq> kRootId" for j
    using that F(7) [of j] e(1) k(1) by (auto simp: links_insert split: if_splits)
  with E C show ?thesis unfolding fs_ok_def by blast
qed

text \<open>Removing an entry whose inode may be unlinked: the inode goes with its last entry.\<close>

lemma children_empty:
  assumes "fs_ok D I" "I ino = Some i" "\<not> is_dir i \<or> i_extra i = 0"
  shows "children D ino = {}"
  using assms(3)
proof
  assume "\<not> is_dir i"
  then have "D (ino, n) = None" for n using fs_okD(4) [OF assms(1), of "(ino, n)"] assms(2)
    by (cases "D (ino, n)") (auto simp: entry_ok_def)
  then show ?thesis by (auto simp: children_def)
next
  assume "i_extra i = 0"
  then have "(of_nat (card (children D ino)) :: u32) = 0" using fs_okD(2) [OF assms(1)] assms(2) by (auto simp: counts_ok_def no_dc_def)
  then show ?thesis
    using of_nat_card_0(1) [OF finite_sets(2) card_links_small(2)] fs_okD(1,3) [OF assms(1)] by blast
qed

lemma fs_unlink:
  assumes ok: "fs_ok D I" and k: "D k = Some d" and i: "I (d_id d) = Some i" and e: "\<not> is_dir i \<or> i_extra i = 0"
  defines "I' \<equiv> upd_extra (- 1) (fst k) (upd_nlink (- 1) (d_id d) I)"
  shows "fs_ok (D(k := None)) (if i_nlink i - 1 = 0 then I'(d_id d := None) else I')"
proof -
  note F = fs_okD [OF ok]
  let ?D = "D(k := None)"
  have ek: "entry_ok I k d" using F(4) k by blast
  then have r: "d_id d \<noteq> kRootId" by (simp add: entry_ok_def)
  have E: "entries_ok ?D I'" unfolding I'_def
    by (intro entries_kinds [OF same_kinds_upd(1)] entries_kinds [OF same_kinds_upd(2)] entries_delete F(1))
  note C1 = counts_extra [OF counts_nlink [OF counts_delete [OF F(2,3) k], of "- 1" "d_id d"], of "- 1" "fst k"]
  have C: "counts_ok ?D I' no_dl no_dc"
    using C1 unfolding I'_def no_dl_def no_dc_def by (simp add: fun_upd_idem)
  have none: "children ?D (d_id d) = {}" using children_empty [OF ok i e] by (simp add: children_delete)
  have ne: "fst k \<noteq> d_id d"
  proof
    assume "fst k = d_id d"
    then have "k \<in> children D (d_id d)" using k by (simp add: children_def)
    then show False using children_empty [OF ok i e] by simp
  qed
  obtain i' where i': "I' (d_id d) = Some i'" "i_nlink i' = i_nlink i - 1" using i ne by (auto simp: I'_def upd_extra_def upd_nlink_def)
  then have "i_nlink i - 1 = of_nat (card (links ?D (d_id d)))" using C r by (auto simp: counts_ok_def no_dl_def)
  then have last: "i_nlink i - 1 = 0 \<longleftrightarrow> links ?D (d_id d) = {}"
    using of_nat_card_0(2) [OF finite_sets(1) card_links_small(1) [OF E]] E by (simp add: entries_ok_def)
  have L: "links ?D j \<noteq> {}" if "I' j \<noteq> None" "j \<noteq> kRootId" "j \<noteq> d_id d" for j
    using that F(7) [of j] k by (auto simp: I'_def links_delete)
  show ?thesis
  proof (cases "i_nlink i - 1 = 0")
    case True
    then show ?thesis using entries_remove [OF E _ none r] last counts_remove [OF C] L unfolding fs_ok_def by auto
  next
    case False
    then show ?thesis using E C L last unfolding fs_ok_def by auto
  qed
qed

lemma fs_link:
  assumes ok: "fs_ok D I" and k: "D k = Some d" and k': "D k' = None" "card (dom D) + 1 < 2 ^ 32"
    and p: "I (fst k') = Some p" "is_dir p" and e: "d_id e = d_id d" "d_type e = d_type d" "k' = (d_pid e, d_name e)" "valid_dirent e"
  shows "fs_ok (D(k' \<mapsto> e)) (upd_extra 1 (fst k') (upd_nlink 1 (d_id d) I))"
proof -
  note F = fs_okD [OF ok]
  have "entry_ok I k' e" using F(4) [OF k] p e unfolding entry_ok_def by auto
  then have E: "entries_ok (D(k' \<mapsto> e)) (upd_extra 1 (fst k') (upd_nlink 1 (d_id d) I))"
    by (intro entries_kinds [OF same_kinds_upd(1)] entries_kinds [OF same_kinds_upd(2)] entries_insert F(1) k'(2))
  note C1 = counts_extra [OF counts_nlink [OF counts_insert [OF F(2,3) k'(1), of e], of 1 "d_id d"], of 1 "fst k'"]
  have C: "counts_ok (D(k' \<mapsto> e)) (upd_extra 1 (fst k') (upd_nlink 1 (d_id d) I)) no_dl no_dc"
    using C1 e unfolding no_dl_def no_dc_def by (simp add: fun_upd_idem)
  have "links (D(k' \<mapsto> e)) j \<noteq> {}" if "upd_extra 1 (fst k') (upd_nlink 1 (d_id d) I) j \<noteq> None" "j \<noteq> kRootId" for j
    using that F(7) [of j] k'(1) by (auto simp: links_insert)
  with E C show ?thesis unfolding fs_ok_def by blast
qed

lemma fs_move:
  assumes ok: "fs_ok D I" and k: "D k = Some d" and k': "D k' = None"
    and p: "I (fst k') = Some p" "is_dir p" and e: "d_id e = d_id d" "d_type e = d_type d" "k' = (d_pid e, d_name e)" "valid_dirent e"
  defines "I' \<equiv> (if fst k = fst k' then I else upd_extra 1 (fst k') (upd_extra (- 1) (fst k) I))"
  shows "fs_ok (D(k := None, k' \<mapsto> e)) I'"
proof -
  note F = fs_okD [OF ok]
  let ?D = "D(k := None)"
  have n: "?D k' = None" using k' k by auto
  have sk: "same_kinds I I'"
    unfolding I'_def by (auto intro: same_kinds_trans [OF same_kinds_upd(1) same_kinds_upd(1)])
  have "entry_ok I k' e" using F(4) [OF k] p e unfolding entry_ok_def by auto
  moreover have "card (dom ?D) + 1 < 2 ^ 32"
  proof -
    have "card (dom ?D) < card (dom D)" using k F(3) by (auto intro!: psubset_card_mono)
    moreover have "card (dom D) < 2 ^ 32" using F(1) by (simp add: entries_ok_def)
    ultimately show ?thesis by linarith
  qed
  ultimately have E: "entries_ok (D(k := None, k' \<mapsto> e)) I'"
    by (intro entries_kinds [OF sk] entries_insert entries_delete F(1))
  have f: "finite (dom ?D)" using F(3) by simp
  let ?dl = "no_dl(d_id d := no_dl (d_id d) + 1)" and ?dc = "no_dc(fst k := no_dc (fst k) + 1)"
  have dl: "?dl(d_id e := ?dl (d_id e) - 1) = no_dl" using e(1) by (auto simp: no_dl_def)
  note C1 = counts_insert [OF counts_delete [OF F(2,3) k] f n, of e, unfolded dl]
  have C: "counts_ok (D(k := None, k' \<mapsto> e)) I' no_dl no_dc"
  proof (cases "fst k = fst k'")
    case True
    then have "?dc(fst k' := ?dc (fst k') - 1) = no_dc" by (auto simp: no_dc_def)
    with True C1 show ?thesis by (simp only: I'_def refl if_True)
  next
    case False
    let ?dc' = "?dc(fst k' := ?dc (fst k') - 1)"
    have "(?dc'(fst k := ?dc' (fst k) + - 1))(fst k' := (?dc'(fst k := ?dc' (fst k) + - 1)) (fst k') + 1) = no_dc"
      using False by (auto simp: no_dc_def)
    with counts_extra [OF counts_extra [OF C1, of "- 1" "fst k"], of 1 "fst k'"] False
    show ?thesis by (simp only: I'_def refl if_False)
  qed
  have "links (D(k := None, k' \<mapsto> e)) j \<noteq> {}" if "I' j \<noteq> None" "j \<noteq> kRootId" for j
  proof -
    have "I j \<noteq> None" using that same_kinds_None [OF sk, of j] by simp
    then show ?thesis using F(7) [of j] that(2) n k e(1) by (auto simp: links_insert links_delete)
  qed
  with E C show ?thesis unfolding fs_ok_def by blast
qed

lemma fs_chmod:
  assumes ok: "fs_ok D I" and m: "\<And>i. I ino = Some i \<Longrightarrow> is_dir (i\<lparr>i_mode := mode\<rparr>) = is_dir i"
  shows "fs_ok D (I(ino := map_option (\<lambda>i. i\<lparr>i_mode := mode\<rparr>) (I ino)))"
proof -
  note F = fs_okD [OF ok]
  have "same_kinds I (I(ino := map_option (\<lambda>i. i\<lparr>i_mode := mode\<rparr>) (I ino)))"
    using m by (auto simp: same_kinds_def option.map_comp o_def map_option_case split: option.splits)
  from entries_kinds [OF this F(1)] counts_kinds [OF F(2), of "\<lambda>i. i\<lparr>i_mode := mode\<rparr>" ino] F(7)
  show ?thesis unfolding fs_ok_def by auto
qed

end
