(* ===== verification/MetadataOps.thy ===== *)
theory MetadataOps
  imports Namespace
begin

text \<open>
  The operations of the metadata service on consistent states. The locales \<open>dent_store\<close> and \<open>inode_store\<close> are what
  the service expects of its two stores, \<open>metadata_service\<close> adds the queue of recycled ids. Inside it every
  operation is described by what it returns, what it does to the two maps, to the inode ids and to the error log,
  and which record it writes to the log.
\<close>

unbundle bit_operations_syntax

section \<open>The stores that the service relies on\<close>

text \<open>The contract of \<open>dhashtable_\<close>: it is a map; only an insertion may refuse or end abnormally.\<close>

locale dent_store =
  fixes dops :: "'d dent_ops" and dinv :: "'d \<Rightarrow> bool" and dabs :: "'d \<Rightarrow> dmap"
  assumes dent_find_law: "dinv d \<Longrightarrow> \<exists>d'. dent_find dops k d = Some (dabs d k, d') \<and> dinv d' \<and> dabs d' = dabs d"
    and dent_erase_law: "dinv d \<Longrightarrow> \<exists>d'. dent_erase dops k d = Some (dabs d k \<noteq> None, d') \<and> dinv d' \<and> dabs d' = (dabs d)(k := None)"
    and dent_insert_law: "dinv d \<Longrightarrow> valid_dirent v \<Longrightarrow> k = (d_pid v, d_name v) \<Longrightarrow> dabs d k = None \<Longrightarrow>
      dent_insert dops k v d = Some (b, d') \<Longrightarrow> dinv d' \<and> dabs d' = (if b then (dabs d)(k \<mapsto> v) else dabs d)"
    and dent_key_law: "dinv d \<Longrightarrow> dabs d k = Some v \<Longrightarrow> k = (d_pid v, d_name v) \<and> valid_dirent v"

text \<open>The contract of \<open>ihashtable_\<close>: it is a map; a server inserts the ids it owns.\<close>

locale inode_store =
  fixes iops :: "'i inode_ops" and iinv :: "'i \<Rightarrow> bool" and iabs :: "'i \<Rightarrow> imap" and own :: "u64 \<Rightarrow> bool"
  assumes inode_find_law: "iinv i \<Longrightarrow> \<exists>i'. inode_find iops k i = Some (iabs i k, i') \<and> iinv i' \<and> iabs i' = iabs i"
    and inode_update_law: "iinv i \<Longrightarrow> (\<And>v. i_id (f v) = i_id v) \<Longrightarrow>
      \<exists>i'. inode_update_fn iops k f i = Some (iabs i k \<noteq> None, i') \<and> iinv i' \<and> iabs i' = (iabs i)(k := map_option f (iabs i k))"
    and inode_erase_law: "iinv i \<Longrightarrow> \<exists>i'. inode_erase iops k i = Some (iabs i k \<noteq> None, i') \<and> iinv i' \<and> iabs i' = (iabs i)(k := None)"
    and inode_insert_law: "iinv i \<Longrightarrow> own k \<Longrightarrow> i_id v = k \<Longrightarrow> iabs i k = None \<Longrightarrow>
      inode_insert iops k v i = Some (b, i') \<Longrightarrow> iinv i' \<and> iabs i' = (if b then (iabs i)(k \<mapsto> v) else iabs i)"

text \<open>What \<open>try_dequeue\<close> takes out was in the queue, and it takes out one element.\<close>

locale metadata_service = dent_store "env_dents E" dinv dabs + inode_store "env_inodes E" iinv iabs own
  for E :: "('d, 'i) md_env" and dinv dabs iinv iabs own +
  assumes dequeue_law: "env_try_dequeue E q = Some (x, q') \<Longrightarrow> mset q = add_mset x (mset q')"

definition md_ids :: "('d, 'i) Metadata \<Rightarrow> u64 list \<times> u64 \<times> u64 \<times> u64 \<times> u64" where
  "md_ids md = (md_recycled_ids md, md_min_unused_id md, md_min_avail_id md, md_base_id md, md_max_id md)"

definition loc_of :: "walked \<Rightarrow> Result \<times> u64 \<times> Dirent option" where
  "loc_of w = (case w of
      Reached ino p e \<Rightarrow> (\<lparr>res_mark = 0, res_id = ino, res_new_path = []\<rparr>, p, if p \<noteq> 0 then e else None)
    | Missing ino n final \<Rightarrow> (\<lparr>res_mark = -1, res_id = 0, res_new_path = n\<rparr>, if final then ino else 0, None))"

lemma path_names_drop:
  "path_names (drop i path) =
    (if i < length path then let n = takeWhile (\<lambda>c. c \<noteq> slash) (drop i path) in n # path_names (drop (i + length n + 1) path) else [])"
proof (cases "i < length path")
  case True
  have "drop 1 (dropWhile (\<lambda>c. c \<noteq> slash) (drop i path)) = drop (i + length (takeWhile (\<lambda>c. c \<noteq> slash) (drop i path)) + 1) path"
    by (simp add: dropWhile_eq_drop add.commute add.left_commute)
  then show ?thesis using True by (subst path_names.simps) (simp add: Let_def)
qed (simp add: path_names.simps)

lemma path_names_empty [simp]: "path_names [] = []"
  by (simp add: path_names.simps)

lemma path_names_Nil: "path_names (drop i path) = [] \<longleftrightarrow> length path \<le> i"
  by (subst path_names.simps) auto

context metadata_service
begin

abbreviation D where "D md \<equiv> dabs (md_dhashtable md)"
abbreviation I where "I md \<equiv> iabs (md_ihashtable md)"

definition md_inv :: "('d, 'i) Metadata \<Rightarrow> bool" where
  "md_inv md \<longleftrightarrow> dinv (md_dhashtable md) \<and> iinv (md_ihashtable md)"

text \<open>A step that acts on the stores and the error log only.\<close>

definition eff :: "dmap \<Rightarrow> imap \<Rightarrow> md_failure list \<Rightarrow> ('d, 'i) Metadata \<Rightarrow> ('d, 'i) Metadata \<Rightarrow> bool" where
  "eff D' I' fs md md' \<longleftrightarrow> md_inv md' \<and> D md' = D' \<and> I md' = I' \<and> md_failures md' = md_failures md @ fs \<and>
    md_ids md' = md_ids md \<and> md_wal md' = md_wal md \<and> md_tls md' = md_tls md"

lemma effD:
  assumes "eff D' I' fs md md'"
  shows "md_inv md'" "D md' = D'" "I md' = I'" "md_failures md' = md_failures md @ fs" "md_ids md' = md_ids md"
    "md_wal md' = md_wal md" "md_tls md' = md_tls md"
  using assms unfolding eff_def by blast+

lemma eff_refl: "md_inv md \<Longrightarrow> eff (D md) (I md) [] md md"
  by (simp add: eff_def)

lemma eff_trans: "eff D1 I1 f1 md md1 \<Longrightarrow> eff D2 I2 f2 md1 md2 \<Longrightarrow> eff D2 I2 (f1 @ f2) md md2"
  by (simp add: eff_def)

lemma find_step:
  assumes "md_inv md"
  shows "\<exists>md'. on_dents (dent_find (env_dents E) k) md = Some (D md k, md') \<and> eff (D md) (I md) [] md md'"
proof -
  obtain d where d: "dent_find (env_dents E) k (md_dhashtable md) = Some (D md k, d)" "dinv d" "dabs d = D md"
    using dent_find_law [of "md_dhashtable md" k] assms by (auto simp: md_inv_def)
  then show ?thesis using assms by (simp add: on_dents_def eff_def md_inv_def md_ids_def)
qed

lemma erase_step:
  assumes "md_inv md"
  shows "\<exists>md'. on_dents (dent_erase (env_dents E) k) md = Some (D md k \<noteq> None, md') \<and> eff ((D md)(k := None)) (I md) [] md md'"
proof -
  obtain d where d: "dent_erase (env_dents E) k (md_dhashtable md) = Some (D md k \<noteq> None, d)" "dinv d" "dabs d = (D md)(k := None)"
    using dent_erase_law [of "md_dhashtable md" k] assms by (auto simp: md_inv_def)
  then show ?thesis using assms by (simp add: on_dents_def eff_def md_inv_def md_ids_def)
qed

lemma insert_step:
  assumes "md_inv md" "valid_dirent v" "k = (d_pid v, d_name v)" "D md k = None"
    and "on_dents (dent_insert (env_dents E) k v) md = Some (b, md')"
  shows "eff (if b then (D md)(k \<mapsto> v) else D md) (I md) [] md md'"
proof -
  obtain d where d: "dent_insert (env_dents E) k v (md_dhashtable md) = Some (b, d)" "md' = md\<lparr>md_dhashtable := d\<rparr>"
    using assms(5) unfolding on_dents_def by (auto split: bind_splits)
  have "dinv (md_dhashtable md)" "iinv (md_ihashtable md)" using assms(1) by (simp_all add: md_inv_def)
  with dent_insert_law [OF this(1) assms(2-4) d(1)] show ?thesis unfolding d(2) eff_def md_inv_def md_ids_def by simp
qed

lemma inode_find_step:
  assumes "md_inv md"
  shows "\<exists>md'. on_inodes (inode_find (env_inodes E) k) md = Some (I md k, md') \<and> eff (D md) (I md) [] md md'"
proof -
  obtain i where i: "inode_find (env_inodes E) k (md_ihashtable md) = Some (I md k, i)" "iinv i" "iabs i = I md"
    using inode_find_law [of "md_ihashtable md" k] assms by (auto simp: md_inv_def)
  then show ?thesis using assms by (simp add: on_inodes_def eff_def md_inv_def md_ids_def)
qed

lemma inode_update_step:
  assumes "md_inv md" "\<And>v. i_id (f v) = i_id v"
  shows "\<exists>md'. on_inodes (inode_update_fn (env_inodes E) k f) md = Some (I md k \<noteq> None, md') \<and>
    eff (D md) ((I md)(k := map_option f (I md k))) [] md md'"
proof -
  obtain i where i: "inode_update_fn (env_inodes E) k f (md_ihashtable md) = Some (I md k \<noteq> None, i)" "iinv i"
      "iabs i = (I md)(k := map_option f (I md k))"
    using inode_update_law [of "md_ihashtable md" f k] assms by (auto simp: md_inv_def)
  then show ?thesis using assms(1) by (simp add: on_inodes_def eff_def md_inv_def md_ids_def)
qed

lemma inode_erase_step:
  assumes "md_inv md"
  shows "\<exists>md'. DeleteInode E k md = Some md' \<and> eff (D md) ((I md)(k := None)) [] md md'"
proof -
  obtain i where i: "inode_erase (env_inodes E) k (md_ihashtable md) = Some (I md k \<noteq> None, i)" "iinv i" "iabs i = (I md)(k := None)"
    using inode_erase_law [of "md_ihashtable md" k] assms by (auto simp: md_inv_def)
  then show ?thesis using assms by (simp add: DeleteInode_def on_inodes_def eff_def md_inv_def md_ids_def)
qed

lemma report_eff: "eff D' I' fs md md' \<Longrightarrow> eff D' I' (fs @ (if ok then [] else [f])) md (report ok f md')"
  by (simp add: eff_def report_def md_inv_def md_ids_def)

lemma put_step:
  assumes "md_inv md" "own k" "i_id v = k" "I md k = None" "PutInode E k v md = Some md'"
  obtains b where "eff (D md) (if b then (I md)(k \<mapsto> v) else I md) (if b then [] else [PutInodeFailed k]) md md'"
proof -
  obtain b md1 where e: "on_inodes (inode_insert (env_inodes E) k v) md = Some (b, md1)" "md' = report b (PutInodeFailed k) md1"
    using assms(5) by (auto simp: PutInode_def split: bind_splits)
  have "eff (D md) (if b then (I md)(k \<mapsto> v) else I md) [] md md1"
  proof -
    obtain i where i: "inode_insert (env_inodes E) k v (md_ihashtable md) = Some (b, i)" "md1 = md\<lparr>md_ihashtable := i\<rparr>"
      using e(1) unfolding on_inodes_def by (auto split: bind_splits)
    have "dinv (md_dhashtable md)" "iinv (md_ihashtable md)" using assms(1) by (simp_all add: md_inv_def)
    with inode_insert_law [OF this(2) assms(2-4) i(1)] show ?thesis unfolding i(2) eff_def md_inv_def md_ids_def by simp
  qed
  from report_eff [OF this, of b "PutInodeFailed k"] show ?thesis using that e(2) by simp
qed

lemma add_step:
  assumes inv: "md_inv md" and e: "valid_dirent e" "d_pid e = p" and n: "D md (p, d_name e) = None"
    and r: "AddDirectoryEntry E e p u md = Some md'"
  obtains b where "eff (if b then (D md)((p, d_name e) \<mapsto> e) else D md) (if u then upd_extra 1 p (I md) else I md)
    ((if u \<and> I md p = None then [AddEntryParentFailed p] else []) @ (if b then [] else [AddEntryFailed p (d_name e)])) md md'"
proof -
  let ?I = "if u then upd_extra 1 p (I md) else I md" and ?fs = "if u \<and> I md p = None then [AddEntryParentFailed p] else []"
  obtain md1 where s1: "eff (D md) ((I md)(p := map_option (\<lambda>cur. cur\<lparr>i_extra := i_extra cur + 1\<rparr>) (I md p))) [] md md1"
    and o1: "on_inodes (inode_update_fn (env_inodes E) p (\<lambda>cur. cur\<lparr>i_extra := i_extra cur + 1\<rparr>)) md = Some (I md p \<noteq> None, md1)"
    using inode_update_step [OF inv, of "\<lambda>cur. cur\<lparr>i_extra := i_extra cur + 1\<rparr>" p] by auto
  define md2 where "md2 = (if u then report (I md p \<noteq> None) (AddEntryParentFailed p) md1 else md)"
  have s2: "eff (D md) ?I ?fs md md2"
    using report_eff [OF s1, of "I md p \<noteq> None" "AddEntryParentFailed p"] eff_refl [OF inv]
    by (cases "I md p") (simp_all add: md2_def upd_extra_def)
  obtain b md3 where o3: "on_dents (dent_insert (env_dents E) (p, d_name e) e) md2 = Some (b, md3)"
    and m: "md' = report b (AddEntryFailed p (d_name e)) md3"
    using r o1 by (auto simp: AddDirectoryEntry_def md2_def split: if_splits bind_splits)
  have s3: "eff (if b then (D md)((p, d_name e) \<mapsto> e) else D md) ?I [] md2 md3"
    using insert_step [OF effD(1) [OF s2] e(1) _ _ o3, unfolded effD(2,3) [OF s2]] n e(2) by simp
  from report_eff [OF eff_trans [OF s2 s3], of b "AddEntryFailed p (d_name e)"] show ?thesis
    using that [of b] m by simp
qed

lemma delete_step:
  assumes inv: "md_inv md"
  shows "\<exists>md'. DeleteDirectoryEntry E e p u md = Some md' \<and>
    eff ((D md)((p, d_name e) := None)) (if u then upd_extra (- 1) p (I md) else I md)
    ((if u \<and> I md p = None then [DeleteEntryParentFailed p] else []) @
     (if D md (p, d_name e) \<noteq> None then [] else [DeleteEntryFailed p (d_name e)])) md md'"
proof -
  let ?I = "if u then upd_extra (- 1) p (I md) else I md" and ?fs = "if u \<and> I md p = None then [DeleteEntryParentFailed p] else []"
  obtain md1 where s1: "eff (D md) ((I md)(p := map_option (\<lambda>cur. cur\<lparr>i_extra := i_extra cur - 1\<rparr>) (I md p))) [] md md1"
    and o1: "on_inodes (inode_update_fn (env_inodes E) p (\<lambda>cur. cur\<lparr>i_extra := i_extra cur - 1\<rparr>)) md = Some (I md p \<noteq> None, md1)"
    using inode_update_step [OF inv, of "\<lambda>cur. cur\<lparr>i_extra := i_extra cur - 1\<rparr>" p] by auto
  define md2 where "md2 = (if u then report (I md p \<noteq> None) (DeleteEntryParentFailed p) md1 else md)"
  have s2: "eff (D md) ?I ?fs md md2"
    using report_eff [OF s1, of "I md p \<noteq> None" "DeleteEntryParentFailed p"] eff_refl [OF inv]
    by (cases "I md p") (simp_all add: md2_def upd_extra_def)
  obtain md3 where o3: "on_dents (dent_erase (env_dents E) (p, d_name e)) md2 = Some (D md (p, d_name e) \<noteq> None, md3)"
    and s3: "eff ((D md)((p, d_name e) := None)) ?I [] md2 md3"
    using erase_step [OF effD(1) [OF s2], of "(p, d_name e)"] effD(2,3) [OF s2] by auto
  have "DeleteDirectoryEntry E e p u md = Some (report (D md (p, d_name e) \<noteq> None) (DeleteEntryFailed p (d_name e)) md3)"
    using o1 o3 unfolding md2_def by (cases u) (simp_all add: DeleteDirectoryEntry_def)
  with report_eff [OF eff_trans [OF s2 s3], of "D md (p, d_name e) \<noteq> None" "DeleteEntryFailed p (d_name e)"] show ?thesis by simp
qed

lemma locate_loop_spec:
  assumes "md_inv md"
  shows "\<exists>md'. locate_loop E path i ino p ent md = Some (loc_of (walk (D md) ino p ent (path_names (drop i path))), md') \<and>
    eff (D md) (I md) [] md md'"
  using assms
proof (induction "length path - i" arbitrary: i ino p ent md rule: less_induct)
  case less
  show ?case
  proof (cases "i < length path")
    case True
    define n where "n = takeWhile (\<lambda>c. c \<noteq> slash) (drop i path)"
    define j where "j = i + length n + 1"
    have ns: "path_names (drop i path) = n # path_names (drop j path)" using True by (simp add: path_names_drop [of i] n_def j_def Let_def)
    obtain md1 where f: "on_dents (dent_find (env_dents E) (ino, n)) md = Some (D md (ino, n), md1)" and s1: "eff (D md) (I md) [] md md1"
      using find_step [OF less.prems, of "(ino, n)"] by blast
    note l = locate_loop.simps [of E path i ino p ent md]
    show ?thesis
    proof (cases "D md (ino, n)")
      case None
      have "locate_loop E path i ino p ent md = Some (loc_of (Missing ino n (path_names (drop j path) = [])), md1)"
        using True f None unfolding l by (simp add: n_def [symmetric] j_def Let_def loc_of_def path_names_Nil)
      then show ?thesis using s1 None by (simp add: ns)
    next
      case (Some d)
      have "length path - j < length path - i" using True by (simp add: j_def)
      from less.hyps [OF this effD(1) [OF s1], of "d_id d" ino "Some d"] effD(2,3) [OF s1]
      obtain md' where m: "locate_loop E path j (d_id d) ino (Some d) md1 = Some (loc_of (walk (D md) (d_id d) ino (Some d) (path_names (drop j path))), md')"
        and s2: "eff (D md) (I md) [] md1 md'" by auto
      have "locate_loop E path i ino p ent md = Some (loc_of (walk (D md) (d_id d) ino (Some d) (path_names (drop j path))), md')"
        using True f Some m unfolding l by (simp add: n_def [symmetric] j_def Let_def)
      then show ?thesis using eff_trans [OF s1 s2] Some by (simp add: ns)
    qed
  next
    case False
    then show ?thesis using eff_refl [OF less.prems] by (simp add: locate_loop.simps [of E path i] path_names_drop [of i] loc_of_def)
  qed
qed

lemma LocateInode_spec:
  assumes "md_inv md"
  shows "\<exists>md'. LocateInode E path q md = Some (loc_of (resolve (D md) (if q \<noteq> 0 then q else kRootId) path), md') \<and> eff (D md) (I md) [] md md'"
proof -
  have "names_of path = path_names (drop (if path \<noteq> [] \<and> hd path = slash then 1 else 0) path)"
    by (cases path) (auto simp: names_of_def)
  then show ?thesis using locate_loop_spec [OF assms, of path _ "if q \<noteq> 0 then q else kRootId" 0 None]
    by (simp add: LocateInode_def resolve_def)
qed

end

section \<open>Writing to the log\<close>

text \<open>The log refuses a record and stays as it is, or has the record as its last one.\<close>

definition logs :: "CompactLogEntry \<Rightarrow> byte list \<Rightarrow> u32 \<Rightarrow> ('d, 'i) Metadata \<Rightarrow> ('d, 'i) Metadata \<Rightarrow> bool" where
  "logs e ov sq md md' \<longleftrightarrow>
    (if sq = 0 then md' = md
     else \<exists>w t. md' = md\<lparr>md_wal := w, md_tls := t\<rparr> \<and> (wal_inv (md_wal md) \<longrightarrow> wal_inv w \<and> appended e ov sq (md_wal md) w))"

lemma EncodeSeq_nonzero [simp]: "EncodeSeq l c \<noteq> 0"
  using EncodeSeq_ready [of l c] by (auto simp: seq_ready_def)

lemma AppendWithOverflow_full:
  "wal_AppendWithOverflow now e ov t w = (sq, t', w') \<Longrightarrow> sq = 0 \<Longrightarrow> t' = t \<and> w' = w"
  by (auto simp: wal_AppendWithOverflow_def TryReserveSlots_def Let_def split: prod.splits if_splits option.splits)

lemma log_step:
  assumes n: "length (cle_name e) = 20" "length ov \<le> 168"
  shows "\<exists>sq md'. on_wal (append_entry now e ov) md = Some (sq, md') \<and> logs e ov sq md md'"
proof -
  obtain sq t w where a: "wal_AppendWithOverflow now e ov (md_tls md) (md_wal md) = (sq, t, w)" by (metis surj_pair)
  have ap: "append_entry now e ov (md_tls md) (md_wal md) = Some (sq, t, w)"
    using n a by (cases "ov = []") (simp_all add: append_entry_def Append_as_overflow kContinuationDataMax_def kMaxContinuationSlots_def)
  have "sq = 0 \<longrightarrow> t = md_tls md \<and> w = md_wal md" using AppendWithOverflow_full [OF a] by blast
  moreover have "wal_inv (md_wal md) \<Longrightarrow> sq \<noteq> 0 \<Longrightarrow> wal_inv w \<and> appended e ov sq (md_wal md) w"
    using append_entry_appended(1,2) [OF _ n(1) ap] by blast
  ultimately show ?thesis using ap unfolding on_wal_def logs_def by auto
qed

lemma logs_same:
  assumes "logs e ov sq md md'"
  shows "md_dhashtable md' = md_dhashtable md" "md_ihashtable md' = md_ihashtable md" "md_failures md' = md_failures md" "md_ids md' = md_ids md"
  using assms by (auto simp: logs_def md_ids_def split: if_splits)

lemma short_overflow: "length name < 64 \<Longrightarrow> length (BuildOverflow name (of_nat (length name))) \<le> 168"
  by (auto simp: BuildOverflow_def kInlineMax_def)

lemma short_rename_overflow:
  "length a < 64 \<Longrightarrow> length b < 64 \<Longrightarrow> length (BuildRenameOverflow a (of_nat (length a)) b (of_nat (length b))) \<le> 168"
  by (auto simp: BuildRenameOverflow_def kInlineMax_def Let_def)

section \<open>Inode ids\<close>

text \<open>The ids of the inodes of this server's range are below \<open>min_unused_id_\<close>, and the recycled ids are in that
  range, distinct and not in use.\<close>

definition ids_ok :: "imap \<Rightarrow> ('d, 'i) Metadata \<Rightarrow> bool" where
  "ids_ok I md \<longleftrightarrow> 0 < md_min_unused_id md \<and> md_base_id md + kRootId < md_min_unused_id md \<and> md_base_id md \<le> md_base_id md + kRootId \<and>
    md_min_unused_id md \<le> md_max_id md \<and> distinct (md_recycled_ids md) \<and>
    (\<forall>x\<in>set (md_recycled_ids md). md_base_id md + kRootId < x \<and> x < md_min_unused_id md \<and> I x = None) \<and>
    (\<forall>x. I x \<noteq> None \<and> md_base_id md \<le> x \<and> x < md_max_id md \<longrightarrow>
      x < md_min_unused_id md \<and> (md_base_id md + kRootId < x \<or> x = kRootId))"

text \<open>An id that is handed out and not yet stored.\<close>

definition reserved :: "imap \<Rightarrow> u64 \<Rightarrow> ('d, 'i) Metadata \<Rightarrow> bool" where
  "reserved I x md \<longleftrightarrow> I x = None \<and> md_base_id md + kRootId < x \<and> x < md_min_unused_id md \<and> x \<notin> set (md_recycled_ids md)"

lemma ids_cong: "md_ids md' = md_ids md \<Longrightarrow> ids_ok I md' = ids_ok I md" "md_ids md' = md_ids md \<Longrightarrow> reserved I x md' = reserved I x md"
  by (simp_all add: md_ids_def ids_ok_def reserved_def)

lemma ids_dom: "(\<And>x. I' x = None \<longleftrightarrow> I x = None) \<Longrightarrow> ids_ok I' md = ids_ok I md"
  by (simp add: ids_ok_def)

lemma ids_store:
  assumes "ids_ok I md" "reserved I x md"
  shows "ids_ok (I(x \<mapsto> v)) md"
  using assms by (auto simp: ids_ok_def reserved_def)

lemma FreeInodeId_frame [simp]:
  "md_dhashtable (FreeInodeId x md) = md_dhashtable md" "md_ihashtable (FreeInodeId x md) = md_ihashtable md"
  "md_failures (FreeInodeId x md) = md_failures md" "md_wal (FreeInodeId x md) = md_wal md" "md_tls (FreeInodeId x md) = md_tls md"
  "md_base_id (FreeInodeId x md) = md_base_id md" "md_max_id (FreeInodeId x md) = md_max_id md"
  by (simp_all add: FreeInodeId_def Let_def)

lemma word_suc_le: "x < y \<Longrightarrow> y \<noteq> x + 1 \<Longrightarrow> x + 1 < (y :: 'a::len word)"
  using inc_le order_le_less by blast

lemma word_lt_suc: "x < y \<Longrightarrow> x < x + (1 :: u64)"
proof -
  assume "x < y"
  then have "unat x + 1 < 18446744073709551616" using unat_lt_exp64 [of y] unfolding word_less_nat_alt by linarith
  then show ?thesis by (simp add: word_less_nat_alt unat_word_ariths)
qed

lemma ids_free:
  assumes ok: "ids_ok I md" and x: "x \<notin> set (md_recycled_ids md)" "md_base_id md \<le> x \<Longrightarrow> x < md_max_id md \<Longrightarrow> md_base_id md + kRootId < x \<and> x < md_min_unused_id md"
    and I: "I' x = None" "\<And>y. y \<noteq> x \<Longrightarrow> I' y = I y"
  shows "ids_ok I' (FreeInodeId x md)"
proof -
  let ?b = "md_base_id md" and ?u = "md_min_unused_id md" and ?m = "md_max_id md"
  note O = ok [unfolded ids_ok_def]
  have I': "I' y \<noteq> None \<Longrightarrow> y \<noteq> x \<and> I y \<noteq> None" for y using I(1) I(2) [of y] by (cases "y = x") auto
  have In: "I y = None \<Longrightarrow> I' y = None" for y using I(1) I(2) [of y] by (cases "y = x") auto
  show ?thesis
  proof (cases "?b \<le> x \<and> x < ?m")
    case False
    then have "ids_ok I' md" using O I' In unfolding ids_ok_def by blast
    moreover have "FreeInodeId x md = (if x < md_min_avail_id md then md\<lparr>md_min_avail_id := x\<rparr> else md)"
      using False by (auto simp: FreeInodeId_def Let_def)
    ultimately show ?thesis by (simp add: ids_ok_def)
  next
    case True
    then have r: "?b + kRootId < x" "x < ?u" using x(2) by blast+
    have x0: "0 < x" using r(1) by (metis word_neq_0_conv word_not_simps(1))
    show ?thesis
    proof (cases "?u = x + 1")
      case last: True
      have lt: "y < x" if "y < ?u" "y \<noteq> x" for y using that word_suc_le [of y ?u] last by (metis add_right_cancel inc_le leD linorder_neqE)
      have "x \<le> ?m" using True by (simp add: order_less_imp_le)
      moreover have "\<forall>y\<in>set (md_recycled_ids md). y < x" using O lt x(1) by blast
      ultimately show ?thesis using True last O x0 r I' In lt
        by (auto simp: FreeInodeId_def Let_def ids_ok_def)
    next
      case False
      then show ?thesis using True O r x(1) I(1) I' In by (auto simp: FreeInodeId_def Let_def ids_ok_def)
    qed
  qed
qed

text \<open>What the walk ends with, in maps whose entries are stored under their own keys.\<close>

lemma walk_reached:
  assumes "walk D i p e ns = Reached ino q ent" "\<And>k d. D k = Some d \<Longrightarrow> k = (d_pid d, d_name d) \<and> d_id d \<noteq> 0" "i \<noteq> 0"
  shows "if ns = [] then ino = i \<and> q = p \<and> ent = e else q \<noteq> 0 \<and> (\<exists>d. ent = Some d \<and> d_id d = ino \<and> D (q, d_name d) = Some d)"
  using assms(1,3)
proof (induction ns arbitrary: i p e)
  case (Cons n ns)
  then obtain d where d: "D (i, n) = Some d" "walk D (d_id d) i (Some d) ns = Reached ino q ent" by (auto split: option.splits)
  have k: "n = d_name d" "d_id d \<noteq> 0" using assms(2) [OF d(1)] by auto
  show ?case using Cons.IH [OF d(2) k(2)] d(1) Cons.prems(2) k(1) by (auto split: if_splits)
qed simp

lemma resolve_reached:
  assumes "resolve D i path = Reached ino q ent" "\<And>k d. D k = Some d \<Longrightarrow> k = (d_pid d, d_name d) \<and> d_id d \<noteq> 0" "i \<noteq> 0"
  shows "if names_of path = [] then ino = i \<and> q = 0 \<and> ent = None
    else q \<noteq> 0 \<and> (\<exists>d. ent = Some d \<and> d_id d = ino \<and> D (q, d_name d) = Some d)"
  using walk_reached [OF assms(1) [unfolded resolve_def] assms(2,3)] by simp

lemma walk_missing:
  assumes "walk D i p e ns = Missing ino n final" "\<And>k d. D k = Some d \<Longrightarrow> d_id d \<noteq> 0" "i \<noteq> 0"
  shows "D (ino, n) = None \<and> ino \<noteq> 0"
  using assms(1,3)
proof (induction ns arbitrary: i p e)
  case (Cons m ns)
  then show ?case using assms(2) by (cases "D (i, m)") auto
qed simp

lemmas resolve_missing = walk_missing [where p = 0 and e = None and ns = "names_of path" for path, folded resolve_def]

context metadata_service
begin

lemma alloc_step:
  assumes ok: "ids_ok J md" and room: "md_min_unused_id md < md_max_id md" and a: "AllocateInodeId E md = (x, md')"
  shows "ids_ok J md'" "reserved J x md'" "md_dhashtable md' = md_dhashtable md" "md_ihashtable md' = md_ihashtable md"
    "md_failures md' = md_failures md" "md_wal md' = md_wal md" "md_tls md' = md_tls md"
    "md_base_id md' = md_base_id md" "md_max_id md' = md_max_id md"
proof -
  let ?u = "md_min_unused_id md"
  note O = ok [unfolded ids_ok_def]
  have f: "md_dhashtable md' = md_dhashtable md \<and> md_ihashtable md' = md_ihashtable md \<and> md_failures md' = md_failures md \<and>
    md_wal md' = md_wal md \<and> md_tls md' = md_tls md \<and> md_base_id md' = md_base_id md \<and> md_max_id md' = md_max_id md"
    using a by (auto simp: AllocateInodeId_def Let_def split: if_splits option.splits)
  then show "md_dhashtable md' = md_dhashtable md" "md_ihashtable md' = md_ihashtable md"
    "md_failures md' = md_failures md" "md_wal md' = md_wal md" "md_tls md' = md_tls md"
    "md_base_id md' = md_base_id md" "md_max_id md' = md_max_id md" by blast+
  have "ids_ok J md' \<and> reserved J x md'"
  proof (cases "\<exists>rest. md' = md\<lparr>md_recycled_ids := rest\<rparr> \<and> env_try_dequeue E (md_recycled_ids md) = Some (x, rest)")
    case True
    then obtain rest where r: "md' = md\<lparr>md_recycled_ids := rest\<rparr>" "mset (md_recycled_ids md) = add_mset x (mset rest)"
      using dequeue_law by blast
    have "distinct (md_recycled_ids md) \<longleftrightarrow> x \<notin> set rest \<and> distinct rest" "set (md_recycled_ids md) = insert x (set rest)"
      using r(2) by (metis distinct.simps(2) mset.simps(2) mset_eq_imp_distinct_iff, metis list.simps(15) mset.simps(2) mset_eq_setD)
    then show ?thesis using O r(1) by (auto simp: ids_ok_def reserved_def)
  next
    case False
    then have r: "x = ?u" "md_recycled_ids md' = md_recycled_ids md" "md_min_unused_id md' = ?u + 1" "md_base_id md' = md_base_id md" "md_max_id md' = md_max_id md"
      using a by (auto simp: AllocateInodeId_def Let_def split: if_splits option.splits)
    have lt: "?u < ?u + 1" "?u + 1 \<le> md_max_id md" using word_lt_suc [OF room] room by (simp_all add: inc_le)
    have b: "md_base_id md \<le> ?u" using O by (meson order_less_imp_le order_trans)
    then have "J ?u = None" using O room by (metis order_less_irrefl)
    moreover have "y < ?u + 1" if "y < ?u" for y using that lt(1) by (rule order_less_trans)
    moreover have "0 < ?u + 1" using lt(1) O by (meson order_less_trans)
    ultimately show ?thesis using O r lt by (auto simp: ids_ok_def reserved_def)
  qed
  then show "ids_ok J md'" "reserved J x md'" by blast+
qed

end

section \<open>Consistent states, and the operations on them\<close>

definition md_consistent ::
  "('d \<Rightarrow> bool) \<Rightarrow> ('d \<Rightarrow> dmap) \<Rightarrow> ('i \<Rightarrow> bool) \<Rightarrow> ('i \<Rightarrow> imap) \<Rightarrow> (u64 \<Rightarrow> bool) \<Rightarrow> ('d, 'i) Metadata \<Rightarrow> bool" where
  "md_consistent dinv dabs iinv iabs own md \<longleftrightarrow> dinv (md_dhashtable md) \<and> iinv (md_ihashtable md) \<and>
    fs_ok (dabs (md_dhashtable md)) (iabs (md_ihashtable md)) \<and> ids_ok (iabs (md_ihashtable md)) md \<and>
    (\<forall>x. md_base_id md \<le> x \<and> x < md_max_id md \<longrightarrow> own x)"

lemma unlink_fn_error: "unlink_error is_dir' i \<Longrightarrow> unlink_fn is_dir' i = i" "\<not> unlink_error is_dir' i \<Longrightarrow> unlink_fn is_dir' i = i\<lparr>i_nlink := i_nlink i - 1\<rparr>"
  by (simp_all add: unlink_fn_def)

lemma unlink_fn_id [simp]: "i_id (unlink_fn b v) = i_id v"
  by (simp add: unlink_fn_def)

lemma unlink_allowed: "\<not> unlink_error b i \<Longrightarrow> (\<not> is_dir i \<or> i_extra i = 0) \<and> (b \<longleftrightarrow> is_dir i)"
  using word_neq_0_conv [of "i_extra i"] by (auto simp: unlink_error_def is_dir_def split: if_splits)

context metadata_service
begin

abbreviation md_ok where "md_ok \<equiv> md_consistent dinv dabs iinv iabs own"

lemma okD:
  assumes "md_ok md"
  shows "md_inv md" "fs_ok (D md) (I md)" "ids_ok (I md) md" "\<And>x. md_base_id md \<le> x \<Longrightarrow> x < md_max_id md \<Longrightarrow> own x"
  using assms by (auto simp: md_consistent_def md_inv_def)

lemma entry_idD: "md_ok md \<Longrightarrow> D md k = Some d \<Longrightarrow> k = (d_pid d, d_name d) \<and> d_id d \<noteq> 0"
  using fs_okD(4,6) [OF okD(2)] by (fastforce simp: entry_ok_def)

lemma ok_reached:
  assumes ok: "md_ok md" and r: "resolve (D md) i path = Reached ino p ent" and i: "i \<noteq> 0" "names_of path \<noteq> []"
  obtains d where "ent = Some d" "p \<noteq> 0" "d_id d = ino" "D md (p, d_name d) = Some d" "length (d_name d) < 64"
    "\<exists>v. I md ino = Some v" "\<exists>v. I md p = Some v \<and> is_dir v"
proof -
  obtain d where d: "ent = Some d" "p \<noteq> 0" "d_id d = ino" "D md (p, d_name d) = Some d"
    using resolve_reached [OF r entry_idD [OF ok] i(1)] i(2) by auto
  have "entry_ok (I md) (p, d_name d) d" using fs_okD(4) [OF okD(2) [OF ok]] d(4) by blast
  then have "length (d_name d) < 64" "\<exists>v. I md ino = Some v" "\<exists>v. I md p = Some v \<and> is_dir v"
    using d(3) by (auto simp: entry_ok_def valid_dirent_def)
  with d that show ?thesis by blast
qed

lemma ok_missing:
  assumes "md_ok md" "resolve (D md) i path = Missing ino n final" "i \<noteq> 0"
  shows "D md (ino, n) = None" "ino \<noteq> 0"
  using resolve_missing [OF assms(2) _ assms(3)] entry_idD [OF assms(1)] by blast+

lemma root_nonzero [simp]: "kRootId \<noteq> 0"
  by (simp add: kRootId_def)

text \<open>A step that only looks keeps a consistent state consistent.\<close>

lemma eff_ok:
  assumes "md_ok md" "eff D' I' fs ma md'" "fs_ok D' I'" "ids_ok I' ma" "md_base_id ma = md_base_id md" "md_max_id ma = md_max_id md"
  shows "md_ok md'"
proof -
  note e = effD [OF assms(2)]
  have "md_base_id md' = md_base_id ma" "md_max_id md' = md_max_id ma" using e(5) by (simp_all add: md_ids_def)
  then show ?thesis using e(1-3) assms(3-6) ids_cong(1) [OF e(5)] okD(4) [OF assms(1)] unfolding md_consistent_def md_inv_def by auto
qed

lemma look_ok: "md_ok md \<Longrightarrow> eff (D md) (I md) fs md md' \<Longrightarrow> md_ok md'"
  by (rule eff_ok) (auto dest: okD)

lemma logs_eff:
  assumes "logs e ov sq md mdw"
  shows "D mdw = D md" "I mdw = I md" "md_inv mdw = md_inv md" "md_failures mdw = md_failures md" "md_base_id mdw = md_base_id md" "md_max_id mdw = md_max_id md"
    "ids_ok J mdw = ids_ok J md"
  using logs_same [OF assms] ids_cong(1) by (auto simp: md_inv_def md_ids_def)

lemma logs_ok: "md_ok md \<Longrightarrow> logs e ov sq md mdw \<Longrightarrow> md_ok mdw"
  using logs_eff [of e ov sq md mdw] logs_same [of e ov sq md mdw] by (simp add: md_consistent_def)

text \<open>How an operation leaves the service: the two maps, the failures it reported, the id counters and the
  record it logged, if any.\<close>

definition post ::
  "dmap \<Rightarrow> imap \<Rightarrow> md_failure list \<Rightarrow> ('d, 'i) Metadata \<Rightarrow> (CompactLogEntry \<times> byte list) option \<Rightarrow>
    ('d, 'i) Metadata \<Rightarrow> ('d, 'i) Metadata \<Rightarrow> bool" where
  "post D' I' fs mi lg md md' \<longleftrightarrow> md_inv md' \<and> D md' = D' \<and> I md' = I' \<and> md_failures md' = md_failures md @ fs \<and>
    md_ids md' = md_ids mi \<and>
    (case lg of None \<Rightarrow> md_wal md' = md_wal md
     | Some (e, ov) \<Rightarrow> wal_inv (md_wal md) \<longrightarrow> wal_inv (md_wal md') \<and> (\<exists>sq. appended e ov sq (md_wal md) (md_wal md')))"

lemma postD:
  assumes "post D' I' fs mi lg md md'"
  shows "md_inv md'" "D md' = D'" "I md' = I'" "md_failures md' = md_failures md @ fs" "md_ids md' = md_ids mi"
  using assms unfolding post_def by blast+

lemma post_look: "eff D' I' fs md md' \<Longrightarrow> post D' I' fs md None md md'"
  by (simp add: eff_def post_def)

text \<open>Looking, then logging, then acting.\<close>

lemma post_logged':
  assumes s1: "md_failures md1 = md_failures md" "md_wal md1 = md_wal md" and lg: "logs e ov sq md1 mdw" "sq \<noteq> 0"
    and s2: "eff D' I' fs ma md'" "md_failures ma = md_failures mdw" "md_wal ma = md_wal mdw" "md_ids ma = md_ids mi"
  shows "post D' I' fs mi (Some (e, ov)) md md'"
proof -
  have "md_failures mdw = md_failures md" using logs_same(3) [OF lg(1)] s1 by simp
  moreover have "wal_inv (md_wal md) \<longrightarrow> wal_inv (md_wal mdw) \<and> appended e ov sq (md_wal md) (md_wal mdw)"
    using lg s1 by (auto simp: logs_def)
  ultimately show ?thesis using effD [OF s2(1)] s2(2-4) unfolding post_def by auto
qed

lemma post_logged:
  assumes s1: "eff (D md) (I md) [] md md1" and lg: "logs e ov sq md1 mdw" "sq \<noteq> 0"
    and s2: "eff D' I' fs ma md'" "md_failures ma = md_failures mdw" "md_wal ma = md_wal mdw" "md_ids ma = md_ids mi"
  shows "post D' I' fs mi (Some (e, ov)) md md'"
  by (rule post_logged' [OF _ _ lg s2]) (use effD(4,6) [OF s1] in simp_all)

lemma post_ok:
  assumes "md_ok md" "post D' I' fs mi lg md md'" "fs_ok D' I'" "ids_ok I' mi" "md_base_id mi = md_base_id md" "md_max_id mi = md_max_id md"
  shows "md_ok md'"
proof -
  note e = postD [OF assms(2)]
  have "md_base_id md' = md_base_id mi" "md_max_id md' = md_max_id mi" using e(5) by (simp_all add: md_ids_def)
  then show ?thesis using e(1-3) assms(3-6) ids_cong(1) [OF e(5)] okD(4) [OF assms(1)] unfolding md_consistent_def md_inv_def by auto
qed

lemma unlink_consistent:
  assumes ok: "md_ok md" and k: "D md k = Some d" "d_id d = ino" and i: "I md ino = Some i" and e: "\<not> unlink_error b i"
  defines "I1 \<equiv> upd_extra (- 1) (fst k) (upd_nlink (- 1) ino (I md))"
  defines "I2 \<equiv> (if i_nlink i - 1 = 0 then I1(ino := None) else I1)"
  shows "fs_ok ((D md)(k := None)) I2" "ids_ok I2 (if i_nlink i - 1 = 0 then FreeInodeId ino md else md)"
proof -
  show "fs_ok ((D md)(k := None)) I2"
    using fs_unlink [OF okD(2) [OF ok] k(1)] i unlink_allowed [OF e] k(2) unfolding I2_def I1_def by blast
  have ids: "ids_ok I1 md" using okD(3) [OF ok] ids_dom [of I1 "I md" md] by (simp add: I1_def)
  have "ino \<notin> set (md_recycled_ids md)" using okD(3) [OF ok] i by (auto simp: ids_ok_def)
  moreover have "md_base_id md + kRootId < ino \<and> ino < md_min_unused_id md" if "md_base_id md \<le> ino" "ino < md_max_id md"
  proof -
    have "ino \<noteq> kRootId" using fs_okD(4) [OF okD(2) [OF ok] k(1)] k(2) by (simp add: entry_ok_def)
    then show ?thesis using okD(3) [OF ok] i that by (auto simp: ids_ok_def)
  qed
  ultimately have "ids_ok (I1(ino := None)) (FreeInodeId ino md)"
    by (intro ids_free [where I = I1]) (use ids in auto)
  then show "ids_ok I2 (if i_nlink i - 1 = 0 then FreeInodeId ino md else md)" using ids by (simp add: I2_def)
qed

end

context metadata_service
begin

lemma unlink_apply:
  assumes ok: "md_ok md" and k: "D md k = Some d" "d_id d = ino" and i: "I md ino = Some i"
  shows "\<exists>md1 md2 ok'. on_inodes (inode_find (env_inodes E) ino) md = Some (Some i, md1) \<and>
    on_inodes (inode_update_fn (env_inodes E) ino (unlink_fn b)) md1 = Some (True, md2) \<and>
    (if unlink_error b i then eff (D md) (I md) [] md md2 else eff (D md) (upd_nlink (- 1) ino (I md)) [] md md2)"
proof -
  obtain md1 where f: "on_inodes (inode_find (env_inodes E) ino) md = Some (Some i, md1)" and s1: "eff (D md) (I md) [] md md1"
    using inode_find_step [OF okD(1) [OF ok], of ino] i by auto
  obtain md2 where u: "on_inodes (inode_update_fn (env_inodes E) ino (unlink_fn b)) md1 = Some (True, md2)"
    and s2: "eff (D md) ((I md)(ino := map_option (unlink_fn b) (I md ino))) [] md1 md2"
    using inode_update_step [OF effD(1) [OF s1], where f = "unlink_fn b" and k = ino] effD(2,3) [OF s1] i by auto
  have "(I md)(ino := map_option (unlink_fn b) (I md ino)) = (if unlink_error b i then I md else upd_nlink (- 1) ino (I md))"
    using i by (auto simp: unlink_fn_error upd_nlink_def fun_upd_idem)
  with eff_trans [OF s1 s2] f u show ?thesis by auto
qed

lemma unlink_finish:
  assumes inv: "md_inv md2" and d: "D md2 (p, d_name d) \<noteq> None" and p: "I md2 p \<noteq> None"
  defines "I' \<equiv> upd_extra (- 1) p (I md2)"
  shows "\<exists>md'. (do { md \<leftarrow> DeleteDirectoryEntry E d p True md2;
      if final then do { md \<leftarrow> DeleteInode E ino (FreeInodeId ino md); Some (Result_mark 0, md) }
      else Some (Result_mark 0, md) }) = Some (Result_mark 0, md') \<and>
    eff ((D md2)((p, d_name d) := None)) (if final then I'(ino := None) else I') [] (if final then FreeInodeId ino md2 else md2) md'"
proof -
  obtain md3 where r3: "DeleteDirectoryEntry E d p True md2 = Some md3" and s3: "eff ((D md2)((p, d_name d) := None)) I' [] md2 md3"
    using delete_step [OF inv, of d p True] d p by (auto simp: I'_def)
  show ?thesis
  proof (cases final)
    case True
    have i3: "md_inv (FreeInodeId ino md3)" using effD(1) [OF s3] by (simp add: md_inv_def)
    obtain md4 where r4: "DeleteInode E ino (FreeInodeId ino md3) = Some md4"
      and s4: "eff ((D md2)((p, d_name d) := None)) (I'(ino := None)) [] (FreeInodeId ino md3) md4"
      using inode_erase_step [OF i3, of ino] effD(2,3) [OF s3] by auto
    have "md_ids (FreeInodeId ino md3) = md_ids (FreeInodeId ino md2)"
      using effD(5) [OF s3] by (simp add: md_ids_def FreeInodeId_def Let_def)
    then have "eff ((D md2)((p, d_name d) := None)) (I'(ino := None)) [] (FreeInodeId ino md2) md4"
      using s4 effD(4-7) [OF s3] by (simp add: eff_def)
    then show ?thesis using r3 r4 True by simp
  qed (use r3 s3 in simp)
qed

lemma Free_ids: "md_ids a = md_ids b \<Longrightarrow> md_ids (FreeInodeId x a) = md_ids (FreeInodeId x b)"
  by (simp add: md_ids_def FreeInodeId_def Let_def)

lemma Unlink_spec:
  assumes ok: "md_ok md" and ns: "names_of path \<noteq> []"
  shows "\<exists>r md'. md_Unlink E now path b md = Some (r, md') \<and>
    (case resolve (D md) kRootId path of
       Missing _ _ _ \<Rightarrow> r = Result_mark (-1) \<and> post (D md) (I md) [] md None md md'
     | Reached ino p ent \<Rightarrow> \<exists>d i. ent = Some d \<and> D md (p, d_name d) = Some d \<and> d_id d = ino \<and> I md ino = Some i \<and>
         (let len = of_nat (length (d_name d)); lg = Some (MakeUnlink ino p (d_name d) len, BuildOverflow (d_name d) len);
              I1 = upd_extra (- 1) p (upd_nlink (- 1) ino (I md)) in
          r = Result_mark (- EAGAIN) \<and> post (D md) (I md) [] md None md md' \<or>
          unlink_error b i \<and> r = Result_mark (-1) \<and> post (D md) (I md) [] md lg md md' \<or>
          \<not> unlink_error b i \<and> r = Result_mark 0 \<and>
            post ((D md)((p, d_name d) := None)) (if i_nlink i - 1 = 0 then I1(ino := None) else I1) []
              (if i_nlink i - 1 = 0 then FreeInodeId ino md else md) lg md md'))"
proof -
  obtain md1 where l: "LocateInode E path 0 md = Some (loc_of (resolve (D md) kRootId path), md1)" and s1: "eff (D md) (I md) [] md md1"
    using LocateInode_spec [OF okD(1) [OF ok], of path 0] by auto
  show ?thesis
  proof (cases "resolve (D md) kRootId path")
    case (Missing a n f)
    then show ?thesis using l post_look [OF s1] by (simp add: md_Unlink_def loc_of_def)
  next
    case (Reached ino p ent)
    obtain d where d: "ent = Some d" "p \<noteq> 0" "d_id d = ino" "D md (p, d_name d) = Some d" "length (d_name d) < 64"
        "\<exists>v. I md ino = Some v" "\<exists>v. I md p = Some v \<and> is_dir v"
      by (rule ok_reached [OF ok Reached root_nonzero ns])
    obtain i where i: "I md ino = Some i" using d(6) by blast
    let ?len = "of_nat (length (d_name d))"
    let ?e = "MakeUnlink ino p (d_name d) ?len" and ?ov = "BuildOverflow (d_name d) ?len"
    obtain sq mdw where w: "on_wal (LogUnlink now ino p (d_name d) ?len) md1 = Some (sq, mdw)" and lg: "logs ?e ?ov sq md1 mdw"
      using log_step [of ?e ?ov now md1] short_overflow [OF d(5)] by (auto simp: LogUnlink_def [abs_def])
    have U: "md_Unlink E now path b md = (if sq = 0 then Some (Result_mark (- EAGAIN), mdw) else unlink_inode E ino p d b mdw)"
      using l w d(1,2) Reached by (simp add: md_Unlink_def loc_of_def)
    show ?thesis
    proof (cases "sq = 0")
      case True
      then have "mdw = md1" using lg by (simp add: logs_def)
      then show ?thesis using U True post_look [OF s1] Reached d i by (auto simp: Let_def)
    next
      case False
      have okw: "md_ok mdw" using logs_ok [OF look_ok [OF ok s1] lg] .
      have same: "D mdw = D md" "I mdw = I md" using logs_eff(1,2) [OF lg] effD(2,3) [OF s1] by simp_all
      have idw: "md_ids mdw = md_ids md" using logs_same(4) [OF lg] effD(5) [OF s1] by simp
      obtain md2 md3 where a: "on_inodes (inode_find (env_inodes E) ino) mdw = Some (Some i, md2)"
        "on_inodes (inode_update_fn (env_inodes E) ino (unlink_fn b)) md2 = Some (True, md3)"
        and s3: "if unlink_error b i then eff (D mdw) (I mdw) [] mdw md3 else eff (D mdw) (upd_nlink (- 1) ino (I mdw)) [] mdw md3"
        using unlink_apply [OF okw, of "(p, d_name d)" d ino i b] d i same by auto
      show ?thesis
      proof (cases "unlink_error b i")
        case True
        then have "post (D md) (I md) [] md (Some (?e, ?ov)) md md3"
          using s3 post_logged [OF s1 lg False, where ma = mdw and mi = md] idw same by simp
        moreover have "md_Unlink E now path b md = Some (Result_mark (-1), md3)" using U a False True by (simp add: unlink_inode_def report_def)
        ultimately show ?thesis using Reached d i True by (auto simp: Let_def)
      next
        case allowed: False
        then have s3': "eff (D md) (upd_nlink (- 1) ino (I md)) [] mdw md3" using s3 same by simp
        note e3 = effD [OF s3']
        have "I md3 p \<noteq> None" "D md3 (p, d_name d) \<noteq> None" using e3(2,3) d(4,7) by auto
        from unlink_finish [OF e3(1) this(2,1), of "i_nlink i - 1 = 0" ino, unfolded e3(2,3)]
        obtain md4 where r4: "(do { md \<leftarrow> DeleteDirectoryEntry E d p True md3;
            if i_nlink i - 1 = 0 then do { md \<leftarrow> DeleteInode E ino (FreeInodeId ino md); Some (Result_mark 0, md) }
            else Some (Result_mark 0, md) }) = Some (Result_mark 0, md4)"
          and s4: "eff ((D md)((p, d_name d) := None)) (if i_nlink i - 1 = 0 then (upd_extra (- 1) p (upd_nlink (- 1) ino (I md)))(ino := None)
              else upd_extra (- 1) p (upd_nlink (- 1) ino (I md))) [] (if i_nlink i - 1 = 0 then FreeInodeId ino md3 else md3) md4" by blast
        have "md_Unlink E now path b md = Some (Result_mark 0, md4)" using U a False allowed r4 by (simp add: unlink_inode_def report_def)
        moreover have "md_ids md3 = md_ids md" using e3(5) idw by simp
        then have "md_ids (if i_nlink i - 1 = 0 then FreeInodeId ino md3 else md3) = md_ids (if i_nlink i - 1 = 0 then FreeInodeId ino md else md)"
          using Free_ids [of md3 md ino] by simp
        moreover note post_logged [OF s1 lg False s4]
        ultimately show ?thesis using Reached d i allowed e3(4,6) by (auto simp: Let_def)
      qed
    qed
  qed
qed

end

lemma Alloc_ids:
  assumes "md_ids a = md_ids b" "AllocateInodeId E b = (x, mb)"
  shows "\<exists>ma. AllocateInodeId E a = (x, ma) \<and> md_ids ma = md_ids mb \<and> md_wal ma = md_wal a \<and> md_tls ma = md_tls a \<and>
    md_failures ma = md_failures a \<and> md_dhashtable ma = md_dhashtable a \<and> md_ihashtable ma = md_ihashtable a"
  using assms by (auto simp: AllocateInodeId_def md_ids_def Let_def split: if_splits option.splits)

text \<open>The permissions that \<open>Access\<close> checks.\<close>

definition access_ok :: "u32 \<Rightarrow> u32 \<Rightarrow> u32 \<Rightarrow> Inode \<Rightarrow> bool" where
  "access_ok mode uid gid i \<longleftrightarrow> mode = 0 \<or>
    (let perm = drop_bit (if uid = i_uid i then 6 else if gid = i_gid i then 3 else 0) (i_mode i) in mode AND perm = mode)"

text \<open>The inode and the entry that \<open>Create\<close> makes.\<close>

definition new_mode :: "bool \<Rightarrow> u32 \<Rightarrow> u32" where
  "new_mode file mode = (if file then mode OR S_IFREG else mode OR S_IFDIR)"

definition new_entry :: "u64 \<Rightarrow> u64 \<Rightarrow> bool \<Rightarrow> cstring \<Rightarrow> Dirent" where
  "new_entry ino dir file n = \<lparr>d_id = ino, d_pid = dir, d_reclen = of_nat (19 + length n + 1), d_type = (if file then DT_REG else DT_DIR), d_name = n\<rparr>"

context metadata_service
begin

lemma walk_exists:
  assumes ok: "fs_ok J K"
  shows "walk J i p e ns = Missing dir n final \<Longrightarrow> K i \<noteq> None \<Longrightarrow> K dir \<noteq> None"
    "walk J i p e ns = Reached ino q ent \<Longrightarrow> K i \<noteq> None \<Longrightarrow> K ino \<noteq> None"
proof -
  have n: "K (d_id d) \<noteq> None" if "J k = Some d" for k d using fs_okD(4) [OF ok that] by (auto simp: entry_ok_def)
  show "walk J i p e ns = Missing dir n final \<Longrightarrow> K i \<noteq> None \<Longrightarrow> K dir \<noteq> None"
    by (induction ns arbitrary: i p e) (use n in \<open>auto split: option.splits\<close>)
  show "walk J i p e ns = Reached ino q ent \<Longrightarrow> K i \<noteq> None \<Longrightarrow> K ino \<noteq> None"
    by (induction ns arbitrary: i p e) (use n in \<open>auto split: option.splits\<close>)
qed

lemma root_exists: "md_ok md \<Longrightarrow> I md kRootId \<noteq> None"
  using fs_okD(5) [OF okD(2)] by fastforce

lemma resolve_exists:
  assumes "md_ok md" "I md i \<noteq> None"
  shows "resolve (D md) i path = Missing dir n final \<Longrightarrow> I md dir \<noteq> None"
    "resolve (D md) i path = Reached ino q ent \<Longrightarrow> \<exists>v. I md ino = Some v \<and> ino \<noteq> 0"
proof -
  note w = walk_exists [OF okD(2) [OF assms(1)], of i 0 None "names_of path", folded resolve_def]
  show "resolve (D md) i path = Missing dir n final \<Longrightarrow> I md dir \<noteq> None" using w(1) assms(2) by blast
  show "resolve (D md) i path = Reached ino q ent \<Longrightarrow> \<exists>v. I md ino = Some v \<and> ino \<noteq> 0"
    using w(2) [of ino q ent] assms(2) fs_okD(6) [OF okD(2) [OF assms(1)]] by (cases "ino = 0") auto
qed

lemma get_step:
  assumes "md_inv md" "k \<noteq> 0"
  shows "\<exists>md'. GetInode E k md = Some (I md k, md') \<and> eff (D md) (I md) [] md md'"
  using inode_find_step [OF assms(1), of k] assms(2) by (simp add: GetInode_def)

lemma Stat_spec:
  assumes ok: "md_ok md"
  shows "\<exists>md'. md_Stat E path md = Some ((case resolve (D md) kRootId path of
      Missing _ n _ \<Rightarrow> (\<lparr>res_mark = -1, res_id = 0, res_new_path = n\<rparr>, None) | Reached ino _ _ \<Rightarrow> (Result_mark 0, I md ino)), md') \<and>
    eff (D md) (I md) [] md md'"
proof -
  obtain md1 where l: "LocateInode E path 0 md = Some (loc_of (resolve (D md) kRootId path), md1)" and s1: "eff (D md) (I md) [] md md1"
    using LocateInode_spec [OF okD(1) [OF ok], of path 0] by auto
  show ?thesis
  proof (cases "resolve (D md) kRootId path")
    case (Reached ino p ent)
    then obtain i where i: "I md ino = Some i" "ino \<noteq> 0" using resolve_exists(2) [OF ok root_exists [OF ok]] by blast
    obtain md2 where "GetInode E ino md1 = Some (Some i, md2)" "eff (D md) (I md) [] md1 md2"
      using get_step [OF effD(1) [OF s1] i(2)] effD(2,3) [OF s1] i(1) by auto
    with l Reached i eff_trans [OF s1] show ?thesis by (fastforce simp: md_Stat_def loc_of_def)
  qed (use l s1 in \<open>simp add: md_Stat_def loc_of_def\<close>)
qed

lemma Access_spec:
  assumes ok: "md_ok md"
  shows "\<exists>md'. md_Access E path mode uid gid md = Some (Result_mark (case resolve (D md) kRootId path of
      Missing _ _ _ \<Rightarrow> -1 | Reached ino _ _ \<Rightarrow> (case I md ino of None \<Rightarrow> -1 | Some i \<Rightarrow> if access_ok mode uid gid i then 0 else -1)), md') \<and>
    eff (D md) (I md) [] md md'"
proof -
  obtain md1 where l: "LocateInode E path 0 md = Some (loc_of (resolve (D md) kRootId path), md1)" and s1: "eff (D md) (I md) [] md md1"
    using LocateInode_spec [OF okD(1) [OF ok], of path 0] by auto
  show ?thesis
  proof (cases "resolve (D md) kRootId path")
    case (Reached ino p ent)
    then obtain i where i: "I md ino = Some i" "ino \<noteq> 0" using resolve_exists(2) [OF ok root_exists [OF ok]] by blast
    obtain md2 where "GetInode E ino md1 = Some (Some i, md2)" "eff (D md) (I md) [] md1 md2"
      using get_step [OF effD(1) [OF s1] i(2)] effD(2,3) [OF s1] i(1) by auto
    with l Reached i eff_trans [OF s1] show ?thesis by (fastforce simp: md_Access_def loc_of_def access_ok_def Let_def)
  qed (use l s1 in \<open>simp add: md_Access_def loc_of_def\<close>)
qed

lemma Chmod_spec:
  assumes ok: "md_ok md"
  shows "\<exists>r md'. md_Chmod E now path mode md = Some (r, md') \<and>
    (case resolve (D md) kRootId path of
       Missing _ _ _ \<Rightarrow> r = Result_mark (-1) \<and> post (D md) (I md) [] md None md md'
     | Reached ino _ _ \<Rightarrow> r = Result_mark (- EAGAIN) \<and> post (D md) (I md) [] md None md md' \<or>
         r = Result_mark 0 \<and> post (D md) ((I md)(ino := map_option (\<lambda>i. i\<lparr>i_mode := mode\<rparr>) (I md ino))) [] md
           (Some (MakeSetattr ino mode, [])) md md')"
proof -
  obtain md1 where l: "LocateInode E path 0 md = Some (loc_of (resolve (D md) kRootId path), md1)" and s1: "eff (D md) (I md) [] md md1"
    using LocateInode_spec [OF okD(1) [OF ok], of path 0] by auto
  show ?thesis
  proof (cases "resolve (D md) kRootId path")
    case (Reached ino p ent)
    then obtain i where i: "I md ino = Some i" "ino \<noteq> 0" using resolve_exists(2) [OF ok root_exists [OF ok]] by blast
    have "(\<lambda>t w. Some (LogSetattr now ino mode t w)) = append_entry now (MakeSetattr ino mode) []"
      by (simp add: fun_eq_iff append_entry_def LogSetattr_def)
    then obtain sq mdw where w: "on_wal (\<lambda>t w. Some (LogSetattr now ino mode t w)) md1 = Some (sq, mdw)" and lg: "logs (MakeSetattr ino mode) [] sq md1 mdw"
      using log_step [of "MakeSetattr ino mode" "[]" now md1] by auto
    show ?thesis
    proof (cases "sq = 0")
      case True
      then show ?thesis using lg l w Reached i post_look [OF s1] by (simp add: md_Chmod_def loc_of_def logs_def)
    next
      case False
      have same: "D mdw = D md" "I mdw = I md" "md_inv mdw" "md_ids mdw = md_ids md"
        using logs_eff(1-3) [OF lg] logs_same(4) [OF lg] effD [OF s1] by simp_all
      obtain md2 where u: "on_inodes (inode_update_fn (env_inodes E) ino (\<lambda>cur. cur\<lparr>i_mode := mode\<rparr>)) mdw = Some (True, md2)"
        and s2: "eff (D md) ((I md)(ino := map_option (\<lambda>i. i\<lparr>i_mode := mode\<rparr>) (I md ino))) [] mdw md2"
        using inode_update_step [OF same(3), of "\<lambda>cur. cur\<lparr>i_mode := mode\<rparr>" ino] same(1,2) i by auto
      have "md_Chmod E now path mode md = Some (Result_mark 0, md2)" using False l w u Reached i by (simp add: md_Chmod_def loc_of_def)
      then show ?thesis using post_logged [OF s1 lg False s2 refl refl same(4)] Reached by simp
    qed
  qed (use l post_look [OF s1] in \<open>simp add: md_Chmod_def loc_of_def\<close>)
qed


lemma create_node_spec:
  assumes ok: "md_ok md" and room: "md_min_unused_id md < md_max_id md" and s1: "eff (D md) (I md) [] md md1"
    and dir: "D md (dir, n) = None" "I md dir \<noteq> None"
    and r: "create_node E now now_ms dir n (if buf \<noteq> None then DT_REG else DT_DIR) mode uid gid buf md1 = Some ((r, buf'), md')"
  shows "\<exists>ino mi. AllocateInodeId E md = (ino, mi) \<and> length n < 64 \<and>
          (let file = (buf \<noteq> None); node = Inode_new ino 1 (new_mode file mode) uid gid now now now; len = of_nat (length n) in
           r = Result_mark (- EAGAIN) \<and> buf' = buf \<and> post (D md) (I md) [] (FreeInodeId ino mi) None md md' \<or>
           (\<exists>b1 b2. r = Result_mark 0 \<and> buf' = map_option (\<lambda>_. node) buf \<and>
             post (if b2 then (D md)((dir, n) \<mapsto> new_entry ino dir file n) else D md)
               (upd_extra 1 dir (if b1 then (I md)(ino \<mapsto> node) else I md))
               ((if b1 then [] else [PutInodeFailed ino]) @ (if b2 then [] else [AddEntryFailed dir n])) mi
               (Some (MakeCreate ino dir (new_mode file mode) uid gid (if file then DT_REG else DT_DIR) n len, BuildOverflow n len)) md md'))"
proof -
  let ?file = "buf \<noteq> None" and ?len = "of_nat (length n) :: u8"
  define ty where "ty = (if ?file then DT_REG else DT_DIR)"
  have ty: "(if ty = DT_DIR then mode OR S_IFDIR else mode OR S_IFREG) = new_mode ?file mode"
    by (simp add: ty_def new_mode_def dt_consts)
  obtain ino mi where a: "AllocateInodeId E md = (ino, mi)" by (rule prod.exhaust)
  obtain md2 where a2: "AllocateInodeId E md1 = (ino, md2)" and f2: "md_ids md2 = md_ids mi" "md_wal md2 = md_wal md1" "md_tls md2 = md_tls md1"
    "md_failures md2 = md_failures md1" "md_dhashtable md2 = md_dhashtable md1" "md_ihashtable md2 = md_ihashtable md1"
    using Alloc_ids [OF effD(5) [OF s1] a] by blast
  note A = alloc_step [OF okD(3) [OF ok] room a]
  let ?node = "Inode_new ino 1 (new_mode ?file mode) uid gid now now now" and ?e = "new_entry ino dir ?file n"
  have n: "length n < 64" using r a2 by (auto simp: create_node_def Dirent_new_def kMaxFilenameLen_def split: if_splits)
  have e: "Dirent_new ino dir (ucast ty) n = Some ?e" using n by (simp add: Dirent_new_def new_entry_def ty_def kMaxFilenameLen_def dt_consts)
  let ?m = "MakeCreate ino dir (new_mode ?file mode) uid gid ty n ?len" and ?ov = "BuildOverflow n ?len"
  have s2: "eff (D md) (I md) [] md2 md2" using effD [OF s1] f2 by (simp add: eff_def md_inv_def)
  obtain sq mdw where w: "on_wal (LogCreate now_ms ino dir (new_mode ?file mode) uid gid ty n ?len) md2 = Some (sq, mdw)" and lg: "logs ?m ?ov sq md2 mdw"
    using log_step [of ?m ?ov now_ms md2] short_overflow [OF n] by (auto simp: LogCreate_def [abs_def])
  have c: "(if sq = 0 then Some ((Result_mark (- EAGAIN), buf), FreeInodeId ino mdw) else
      do { md \<leftarrow> PutInode E ino ?node mdw; md \<leftarrow> AddDirectoryEntry E ?e dir True md;
           Some ((Result_mark 0, if ?file then Some ?node else None), md) }) = Some ((r, buf'), md')"
    using r [folded ty_def] a2 e w ty by (simp add: create_node_def cong: if_cong)
  show ?thesis
  proof (cases "sq = 0")
    case True
    then have "mdw = md2" using lg by (simp add: logs_def)
    then have "r = Result_mark (- EAGAIN)" "buf' = buf" "md' = FreeInodeId ino md2" using c True by auto
    moreover have "post (D md) (I md) [] (FreeInodeId ino mi) None md (FreeInodeId ino md2)"
      using effD [OF s2] effD(4,6) [OF s1] f2 Free_ids [OF f2(1)] by (simp add: post_def md_inv_def)
    ultimately show ?thesis using a n by (auto simp: Let_def)
  next
    case False
    have ww: "D mdw = D md" "I mdw = I md" "md_inv mdw" "md_ids mdw = md_ids mi" "md_failures mdw = md_failures md"
      using logs_eff(1-3) [OF lg] logs_same(3,4) [OF lg] effD [OF s2] f2 effD(4) [OF s1] by simp_all
    obtain md3 where p3: "PutInode E ino ?node mdw = Some md3" and p4: "AddDirectoryEntry E ?e dir True md3 = Some md'"
      and rb: "r = Result_mark 0" "buf' = map_option (\<lambda>_. ?node) buf"
      using c False by (auto split: bind_splits if_splits)
    have "md_base_id md \<le> ino" "ino < md_max_id md" using A unfolding reserved_def ids_ok_def by (metis order_less_imp_le order_trans, metis order_less_le_trans)
    then have own: "own ino" by (rule okD(4) [OF ok])
    have free: "I mdw ino = None" using A(2) ww(2) by (simp add: reserved_def)
    have ids: "i_id ?node = ino" by (simp add: Inode_new_def)
    obtain b1 where s3: "eff (D mdw) (if b1 then (I mdw)(ino \<mapsto> ?node) else I mdw) (if b1 then [] else [PutInodeFailed ino]) mdw md3"
      by (rule put_step [OF ww(3) own ids free p3])
    note s3 = s3 [unfolded ww(1,2)]
    let ?I1 = "if b1 then (I md)(ino \<mapsto> ?node) else I md"
    have ex: "I md3 dir \<noteq> None" using effD(3) [OF s3] dir(2) by simp
    have "valid_dirent ?e" "d_pid ?e = dir" "D md3 (dir, d_name ?e) = None"
      using n dir(1) effD(2) [OF s3] by (simp_all add: new_entry_def valid_dirent_def)
    then obtain b2 where s4: "eff (if b2 then (D md3)((dir, d_name ?e) \<mapsto> ?e) else D md3) (if True then upd_extra 1 dir (I md3) else I md3)
        ((if True \<and> I md3 dir = None then [AddEntryParentFailed dir] else []) @ (if b2 then [] else [AddEntryFailed dir (d_name ?e)])) md3 md'"
      by (rule add_step [OF effD(1) [OF s3] _ _ _ p4])
    have "d_name ?e = n" by (simp add: new_entry_def)
    note s4 = s4 [unfolded effD(2,3) [OF s3] this if_True]
    have "\<not> (True \<and> ?I1 dir = None)" using ex effD(3) [OF s3] by simp
    note s4 = s4 [unfolded if_not_P [OF this] append_Nil]
    have "md_wal md2 = md_wal md" "md_failures md2 = md_failures md" using effD [OF s1] f2 by simp_all
    note P = post_logged' [OF this(2,1) lg False eff_trans [OF s3 s4] refl refl ww(4), unfolded ty_def]
    show ?thesis unfolding Let_def
      by (rule exI [of _ ino], rule exI [of _ mi], intro conjI a n disjI2, rule exI [of _ b1], rule exI [of _ b2], intro conjI rb P)
  qed
qed

lemma Create_spec:
  assumes ok: "md_ok md" and room: "md_min_unused_id md < md_max_id md"
    and r: "md_Create E now now_ms path mode uid gid buf md = Some ((r, buf'), md')"
  shows "case resolve (D md) kRootId path of
      Reached ino p ent \<Rightarrow> post (D md) (I md) [] md None md md' \<and>
        (if p = 0 then r = Result_mark (-1) \<and> buf' = buf else \<exists>i. I md ino = Some i \<and> r = Result_mark 0 \<and> buf' = map_option (\<lambda>_. i) buf)
    | Missing dir n final \<Rightarrow>
        if \<not> final then r = Result_mark (-1) \<and> buf' = buf \<and> post (D md) (I md) [] md None md md'
        else \<exists>ino mi. AllocateInodeId E md = (ino, mi) \<and> length n < 64 \<and>
          (let file = (buf \<noteq> None); node = Inode_new ino 1 (new_mode file mode) uid gid now now now; len = of_nat (length n) in
           r = Result_mark (- EAGAIN) \<and> buf' = buf \<and> post (D md) (I md) [] (FreeInodeId ino mi) None md md' \<or>
           (\<exists>b1 b2. r = Result_mark 0 \<and> buf' = map_option (\<lambda>_. node) buf \<and>
             post (if b2 then (D md)((dir, n) \<mapsto> new_entry ino dir file n) else D md)
               (upd_extra 1 dir (if b1 then (I md)(ino \<mapsto> node) else I md))
               ((if b1 then [] else [PutInodeFailed ino]) @ (if b2 then [] else [AddEntryFailed dir n])) mi
               (Some (MakeCreate ino dir (new_mode file mode) uid gid (if file then DT_REG else DT_DIR) n len, BuildOverflow n len)) md md'))"
proof -
  obtain md1 where l: "LocateInode E path 0 md = Some (loc_of (resolve (D md) kRootId path), md1)" and s1: "eff (D md) (I md) [] md md1"
    using LocateInode_spec [OF okD(1) [OF ok], of path 0] by auto
  show ?thesis
  proof (cases "resolve (D md) kRootId path")
    case (Reached ino p ent)
    then obtain i where i: "I md ino = Some i" "ino \<noteq> 0" using resolve_exists(2) [OF ok root_exists [OF ok]] by blast
    obtain md2 where g: "GetInode E ino md1 = Some (Some i, md2)" and s2: "eff (D md) (I md) [] md1 md2"
      using get_step [OF effD(1) [OF s1] i(2)] effD(2,3) [OF s1] i(1) by auto
    show ?thesis
    proof (cases "p = 0")
      case True
      then show ?thesis using r l Reached post_look [OF s1] by (simp add: md_Create_def loc_of_def)
    next
      case False
      then show ?thesis using r l Reached g post_look [OF eff_trans [OF s1 s2]] unfolding i(1) [symmetric]
        by (cases buf) (auto simp: md_Create_def loc_of_def i(1))
    qed
  next
    case (Missing dir n final)
    note dir = ok_missing [OF ok Missing root_nonzero] resolve_exists(1) [OF ok root_exists [OF ok] Missing]
    show ?thesis
    proof (cases final)
      case False
      then show ?thesis using r l Missing post_look [OF s1] by (simp add: md_Create_def loc_of_def)
    next
      case True
      have "create_node E now now_ms dir n (if buf \<noteq> None then DT_REG else DT_DIR) mode uid gid buf md1 = Some ((r, buf'), md')"
        using r l Missing True dir(2) by (simp add: md_Create_def loc_of_def)
      from create_node_spec [OF ok room s1 dir(1,3) this] show ?thesis using Missing True by simp
    qed
  qed
qed

end

end
