(* ===== verification/MetadataRename.thy ===== *)
theory MetadataRename
  imports MetadataOps
begin

text \<open>
  \<open>Rename\<close> and \<open>Link\<close>: the split of the two paths at their last common directory, the move of an entry, and the cover of
  an existing target.
\<close>

unbundle bit_operations_syntax

subsection \<open>The last common directory\<close>

lemma last_common_dir_Some:
  assumes "last_common_dir i f xs ys = Some dir"
  shows "dir = f \<or> (\<exists>as bs cs. xs = as @ slash # bs \<and> ys = as @ slash # cs \<and> dir = i + length as)"
  using assms
proof (induction i f xs ys rule: last_common_dir.induct)
  case (2 i f x xs y ys)
  show ?case
  proof (cases "x = y")
    case True
    with 2 have "dir = (if x = slash then i else f) \<or> (\<exists>as bs cs. xs = as @ slash # bs \<and> ys = as @ slash # cs \<and> dir = Suc i + length as)"
      by simp
    then show ?thesis
    proof
      assume "dir = (if x = slash then i else f)"
      then show ?thesis using True by (cases "x = slash") force+
    next
      assume "\<exists>as bs cs. xs = as @ slash # bs \<and> ys = as @ slash # cs \<and> dir = Suc i + length as"
      then obtain as bs cs where "xs = as @ slash # bs" "ys = as @ slash # cs" "dir = Suc i + length as" by blast
      then have "x # xs = (x # as) @ slash # bs" "y # ys = (x # as) @ slash # cs" "dir = i + length (x # as)" using True by simp_all
      then show ?thesis by blast
    qed
  qed (use 2 in simp)
qed simp_all

text \<open>Cutting a path at a slash cuts the list of its names, if it has no empty names.\<close>

lemma path_names_first: "slash \<notin> set as \<Longrightarrow> path_names (as @ slash # bs) = as # path_names bs"
proof -
  assume "slash \<notin> set as"
  then have "takeWhile (\<lambda>c. c \<noteq> slash) (as @ slash # bs) = as" "dropWhile (\<lambda>c. c \<noteq> slash) (as @ slash # bs) = slash # bs"
    by (auto simp: takeWhile_append dropWhile_append)
  then show ?thesis by (subst path_names.simps) simp
qed

lemma path_names_single: "slash \<notin> set as \<Longrightarrow> as \<noteq> [] \<Longrightarrow> path_names as = [as]"
proof -
  assume "slash \<notin> set as" "as \<noteq> []"
  then have t: "takeWhile (\<lambda>c. c \<noteq> slash) as = as" "dropWhile (\<lambda>c. c \<noteq> slash) as = []"
    by (auto simp: takeWhile_eq_all_conv dropWhile_eq_Nil_conv)
  show ?thesis using \<open>as \<noteq> []\<close> by (subst path_names.simps) (simp only: t, simp)
qed

lemma path_names_append:
  "xs \<noteq> [] \<Longrightarrow> last xs \<noteq> slash \<Longrightarrow> path_names (xs @ slash # ys) = path_names xs @ path_names ys"
proof (induction "length xs" arbitrary: xs rule: less_induct)
  case less
  show ?case
  proof (cases "slash \<in> set xs")
    case False
    then show ?thesis using path_names_first [OF False] path_names_single [OF False less.prems(1)] by simp
  next
    case True
    then obtain as bs where xs: "xs = as @ slash # bs" "slash \<notin> set as" by (metis split_list_first)
    have b: "bs \<noteq> []" "last bs \<noteq> slash" using less.prems xs by (auto split: if_splits)
    have "path_names (bs @ slash # ys) = path_names bs @ path_names ys" by (rule less.hyps) (use xs b in simp_all)
    then show ?thesis using path_names_first [OF xs(2)] xs(1) by simp
  qed
qed

lemma path_names_slash: "xs \<noteq> [] \<Longrightarrow> last xs = slash \<Longrightarrow> ys \<noteq> [] \<Longrightarrow> [] \<in> set (path_names (xs @ slash # ys))"
proof (induction "length xs" arbitrary: xs rule: less_induct)
  case less
  then obtain as bs where xs: "xs = as @ slash # bs" "slash \<notin> set as" by (metis last_in_set split_list_first)
  note p = path_names_first [OF xs(2)]
  show ?case
  proof (cases "bs = []")
    case True
    then show ?thesis using p [of "slash # ys"] path_names_first [of "[]" ys] xs(1) by simp
  next
    case False
    have "[] \<in> set (path_names (bs @ slash # ys))" by (rule less.hyps) (use xs False less.prems in simp_all)
    then show ?thesis using p [of "bs @ slash # ys"] xs(1) by simp
  qed
qed

lemma names_of_split:
  assumes "path = as @ slash # bs" "[] \<notin> set (names_of path)" "bs \<noteq> []"
  shows "names_of path = names_of as @ names_of (slash # bs)"
proof (cases "as = [] \<or> as = [slash]")
  case True
  then show ?thesis
  proof
    assume "as = [slash]"
    then have "names_of path = path_names (slash # bs)" using assms(1) by (simp add: names_of_def)
    also have "\<dots> = [] # path_names bs" using path_names_first [of "[]" bs] by simp
    finally show ?thesis using assms(2) by simp
  qed (use assms(1) in \<open>simp add: names_of_def\<close>)
next
  case False
  define as' where "as' = (if hd as = slash then tl as else as)"
  have a: "as' \<noteq> []" "last as' = last as" using False by (cases as; auto simp: as'_def)+
  have p: "names_of path = path_names (as' @ slash # bs)" using assms(1) False by (cases as) (auto simp: names_of_def as'_def)
  have "last as' \<noteq> slash" using path_names_slash [OF a(1) _ assms(3)] p assms(2) by auto
  from path_names_append [OF a(1) this, of bs] show ?thesis using p False by (simp add: names_of_def as'_def)
qed

lemma walk_append:
  "walk J i p e (ns @ ms) = (case walk J i p e ns of Reached j q e' \<Rightarrow> walk J j q e' ms | Missing j n final \<Rightarrow> Missing j n (final \<and> ms = []))"
  by (induction ns arbitrary: i p e) (auto split: option.splits)

lemma walk_start: "ns \<noteq> [] \<Longrightarrow> walk J i p e ns = walk J i 0 None ns"
  by (cases ns) (auto split: option.splits)

definition moved_entry :: "Dirent \<Rightarrow> u64 \<Rightarrow> cstring \<Rightarrow> Dirent" where
  "moved_entry e p n = Dirent_SetRecLen (e\<lparr>d_pid := p, d_name := n\<rparr>)"

lemma moved_entry_simps [simp]:
  "d_id (moved_entry e p n) = d_id e" "d_pid (moved_entry e p n) = p" "d_name (moved_entry e p n) = n" "d_type (moved_entry e p n) = d_type e"
  "valid_dirent (moved_entry e p n) \<longleftrightarrow> length n < 64"
  by (simp_all add: moved_entry_def Dirent_SetRecLen_def valid_dirent_def)

lemma log_done:
  assumes "on_wal (append_entry now e ov) md = Some (sq, mdw)" "length (cle_name e) = 20"
  shows "logs e ov sq md mdw"
proof -
  have "length ov \<le> 168"
    using assms(1) by (auto simp: on_wal_def append_entry_def kContinuationDataMax_def kMaxContinuationSlots_def split: if_splits)
  from log_step [OF assms(2) this, of now md] assms(1) show ?thesis by auto
qed

lemma rename_log_done:
  assumes "on_wal (LogRename now ino p q a al b bl ty) md = Some (sq, mdw)"
  shows "logs (MakeRename ino p q a al b bl ty) (BuildRenameOverflow a al b bl) sq md mdw"
proof (rule log_done)
  show "on_wal (append_entry now (MakeRename ino p q a al b bl ty) (BuildRenameOverflow a al b bl)) md = Some (sq, mdw)"
    using assms by (auto simp: on_wal_def LogRename_def split: if_splits)
qed simp

lemma link_log_done:
  assumes "on_wal (LogLink now ino q b bl ty) md = Some (sq, mdw)"
  shows "logs (MakeLink ino q b bl ty) (BuildOverflow b bl) sq md mdw"
  using log_done [of now "MakeLink ino q b bl ty" "BuildOverflow b bl"] assms by (simp add: LogLink_def [abs_def])

context metadata_service
begin

lemma put_entry:
  assumes inv: "md_inv md" and n: "D md (np, nn) = None" "I md np \<noteq> None" and l: "length nn < 64"
    and r: "AddDirectoryEntry E (moved_entry e np nn) np u md = Some md'"
  obtains b where "eff (if b then (D md)((np, nn) \<mapsto> moved_entry e np nn) else D md) (if u then upd_extra 1 np (I md) else I md)
    (if b then [] else [AddEntryFailed np nn]) md md'"
proof -
  have "valid_dirent (moved_entry e np nn)" "d_pid (moved_entry e np nn) = np" "D md (np, d_name (moved_entry e np nn)) = None"
    using n l by simp_all
  then obtain b where s: "eff (if b then (D md)((np, d_name (moved_entry e np nn)) \<mapsto> moved_entry e np nn) else D md) (if u then upd_extra 1 np (I md) else I md)
      ((if u \<and> I md np = None then [AddEntryParentFailed np] else []) @ (if b then [] else [AddEntryFailed np (d_name (moved_entry e np nn))])) md md'"
    by (rule add_step [OF inv _ _ _ r])
  have "\<not> (u \<and> I md np = None)" using n(2) by simp
  from that [OF s [unfolded moved_entry_simps if_not_P [OF this] append_Nil]] show ?thesis .
qed

lemma rename_move_spec:
  assumes ok: "md_ok md0" and s0: "eff (D md0) (I md0) [] md0 md" and old: "D md0 (op, d_name e) = Some e" and new: "D md0 (np, nn) = None" "I md0 np \<noteq> None"
    and r: "rename_move E now False (d_id e) e op nn np md = Some (r, md')"
  shows "r = - EAGAIN \<and> post (D md0) (I md0) [] md0 None md0 md' \<or>
    r = 0 \<and> length nn < 64 \<and> (\<exists>b. post (if b then (D md0)((op, d_name e) := None, (np, nn) \<mapsto> moved_entry e np nn) else (D md0)((op, d_name e) := None))
      (if op = np then I md0 else upd_extra 1 np (upd_extra (- 1) op (I md0))) (if b then [] else [AddEntryFailed np nn]) md0
      (Some (MakeRename (d_id e) op np (d_name e) (of_nat (length (d_name e))) nn (of_nat (length nn)) (d_type e),
        BuildRenameOverflow (d_name e) (of_nat (length (d_name e))) nn (of_nat (length nn)))) md0 md')"
proof -
  let ?log = "LogRename now (d_id e) op np (d_name e) (of_nat (length (d_name e))) nn (of_nat (length nn)) (d_type e)"
  obtain sq mdw where w: "on_wal ?log md = Some (sq, mdw)" using r by (auto simp: rename_move_def Let_def split: bind_splits)
  note lg = rename_log_done [OF w]
  show ?thesis
  proof (cases "sq = 0")
    case True
    then have "mdw = md" using lg by (simp add: logs_def)
    then show ?thesis using r w True post_look [OF s0] by (simp add: rename_move_def Let_def)
  next
    case False
    have ww: "D mdw = D md0" "I mdw = I md0" "md_inv mdw" "md_ids mdw = md_ids md0"
      using logs_eff(1-3) [OF lg] logs_same(4) [OF lg] effD [OF s0] by simp_all
    obtain md2 where d2: "DeleteDirectoryEntry E e op (op \<noteq> np) mdw = Some md2"
      and a3: "AddDirectoryEntry E (moved_entry e np nn) np (op \<noteq> np) md2 = Some md'" and r0: "r = 0" "length nn < 64"
      using r w False by (auto simp: rename_move_def moved_entry_def kMaxFilenameLen_def Let_def split: bind_splits if_splits)
    have op: "I md0 op \<noteq> None" using fs_okD(4) [OF okD(2) [OF ok] old] by (auto simp: entry_ok_def)
    have s2: "eff ((D md0)((op, d_name e) := None)) (if op \<noteq> np then upd_extra (- 1) op (I md0) else I md0) [] mdw md2"
      using delete_step [OF ww(3), of e op "op \<noteq> np"] d2 ww(1,2) old op by auto
    have "D md2 (np, nn) = None" "I md2 np \<noteq> None" using effD(2,3) [OF s2] new by (simp_all del: not_None_eq)
    then obtain b where s3: "eff (if b then (D md2)((np, nn) \<mapsto> moved_entry e np nn) else D md2) (if op \<noteq> np then upd_extra 1 np (I md2) else I md2)
      (if b then [] else [AddEntryFailed np nn]) md2 md'" by (rule put_entry [OF effD(1) [OF s2] _ _ r0(2) a3])
    have I2: "(if op \<noteq> np then upd_extra 1 np (if op \<noteq> np then upd_extra (- 1) op (I md0) else I md0) else (if op \<noteq> np then upd_extra (- 1) op (I md0) else I md0)) =
      (if op = np then I md0 else upd_extra 1 np (upd_extra (- 1) op (I md0)))" by simp
    note P = post_logged [OF s0 lg False eff_trans [OF s2 s3] refl refl ww(4), unfolded effD(2,3) [OF s2] I2 append_Nil]
    show ?thesis by (intro disjI2 conjI r0 exI [of _ b] P)
  qed
qed

lemma link_move_spec:
  assumes ok: "md_ok md0" and s0: "eff (D md0) (I md0) [] md0 md" and old: "D md0 (op, d_name e) = Some e" and new: "D md0 (np, nn) = None" "I md0 np \<noteq> None"
    and r: "rename_move E now True (d_id e) e op nn np md = Some (r, md')"
  shows "r = - EAGAIN \<and> post (D md0) (I md0) [] md0 None md0 md' \<or>
    r = 0 \<and> length nn < 64 \<and> (\<exists>b. post (if b then (D md0)((np, nn) \<mapsto> moved_entry e np nn) else D md0)
      (upd_extra 1 np (upd_nlink 1 (d_id e) (I md0))) (if b then [] else [AddEntryFailed np nn]) md0
      (Some (MakeLink (d_id e) np nn (of_nat (length nn)) (d_type e), BuildOverflow nn (of_nat (length nn)))) md0 md')"
proof -
  let ?log = "LogLink now (d_id e) np nn (of_nat (length nn)) (d_type e)"
  obtain sq mdw where w: "on_wal ?log md = Some (sq, mdw)" using r by (auto simp: rename_move_def Let_def split: bind_splits)
  note lg = link_log_done [OF w]
  show ?thesis
  proof (cases "sq = 0")
    case True
    then have "mdw = md" using lg by (simp add: logs_def)
    then show ?thesis using r w True post_look [OF s0] by (simp add: rename_move_def Let_def)
  next
    case False
    have ww: "D mdw = D md0" "I mdw = I md0" "md_inv mdw" "md_ids mdw = md_ids md0"
      using logs_eff(1-3) [OF lg] logs_same(4) [OF lg] effD [OF s0] by simp_all
    have ino: "I md0 (d_id e) \<noteq> None" using fs_okD(4) [OF okD(2) [OF ok] old] by (auto simp: entry_ok_def)
    obtain md2 where u2: "on_inodes (inode_update_fn (env_inodes E) (d_id e) (\<lambda>cur. cur\<lparr>i_nlink := i_nlink cur + 1\<rparr>)) mdw = Some (True, md2)"
      and s2: "eff (D md0) (upd_nlink 1 (d_id e) (I md0)) [] mdw md2"
      using inode_update_step [OF ww(3), of "\<lambda>cur. cur\<lparr>i_nlink := i_nlink cur + 1\<rparr>" "d_id e"] ww(1,2) ino by (auto simp: upd_nlink_def)
    have a3: "AddDirectoryEntry E (moved_entry e np nn) np True md2 = Some md'" and r0: "r = 0" "length nn < 64"
      using r w False u2 by (auto simp: rename_move_def moved_entry_def kMaxFilenameLen_def Let_def split: bind_splits if_splits)
    have "D md2 (np, nn) = None" "I md2 np \<noteq> None" using effD(2,3) [OF s2] new by auto
    then obtain b where s3: "eff (if b then (D md2)((np, nn) \<mapsto> moved_entry e np nn) else D md2) (if True then upd_extra 1 np (I md2) else I md2)
      (if b then [] else [AddEntryFailed np nn]) md2 md'" by (rule put_entry [OF effD(1) [OF s2] _ _ r0(2) a3])
    note P = post_logged [OF s0 lg False eff_trans [OF s2 s3] refl refl ww(4), unfolded effD(2,3) [OF s2] if_True append_Nil]
    show ?thesis by (intro disjI2 conjI r0 exI [of _ b] P)
  qed
qed

end

subsection \<open>The three walks of a rename\<close>

lemma common_split:
  assumes "last_common_dir 0 0 new old = Some dir"
  shows "take dir old = take dir new" "dir = 0 \<or> (\<exists>as bs cs. old = as @ slash # bs \<and> new = as @ slash # cs \<and> dir = length as)"
  using last_common_dir_Some [OF assms] by auto

text \<open>The names of a path without empty names, cut at the last common directory.\<close>

lemma names_cut:
  assumes c: "last_common_dir 0 0 new old = Some dir" and n: "[] \<notin> set (names_of path)" and p: "path \<in> {old, new}"
    and t: "names_of (drop dir path) \<noteq> []"
  shows "names_of path = names_of (take dir old) @ names_of (drop dir path)"
proof (cases "dir = 0")
  case False
  then obtain as bs cs where "old = as @ slash # bs" "new = as @ slash # cs" "dir = length as" using common_split(2) [OF c] by blast
  then obtain ds where d: "path = as @ slash # ds" "take dir old = as" "drop dir path = slash # ds" using p by auto
  have "ds \<noteq> []" using t d(3) by (auto simp: names_of_def)
  from names_of_split [OF d(1) n this] show ?thesis using d(2,3) by simp
qed (simp add: names_of_def)

lemma resolve_cut:
  assumes "last_common_dir 0 0 new old = Some dir" "[] \<notin> set (names_of path)" "path \<in> {old, new}" "names_of (drop dir path) \<noteq> []"
    and "resolve J i (take dir old) = Reached lcd q e"
  shows "resolve J i path = resolve J lcd (drop dir path)"
  using assms(5) walk_start [OF assms(4), of J lcd q e]
  by (simp add: resolve_def names_cut [OF assms(1-4)] walk_append)

context metadata_service
begin

lemma locate_from:
  assumes s: "eff (D md0) (I md0) [] md0 md" and i: "i \<noteq> 0"
  obtains md' where "LocateInode E path i md = Some (loc_of (resolve (D md0) i path), md')" "eff (D md0) (I md0) [] md0 md'"
proof -
  obtain md' where "LocateInode E path i md = Some (loc_of (resolve (D md0) i path), md')" "eff (D md0) (I md0) [] md md'"
    using LocateInode_spec [OF effD(1) [OF s], of path i] effD(2,3) [OF s] i by auto
  with eff_trans [OF s] that show ?thesis by fastforce
qed

text \<open>The walks to the last common directory, to the old name and to the new one.\<close>

lemma rename_walks:
  assumes ok: "md_ok md" and c: "last_common_dir 0 0 new old = Some dir"
    and lcd: "resolve (D md) kRootId (take dir old) = Reached lcd q0 e0"
  obtains md1 md2 md3 where "LocateInode E (take dir old) 0 md = Some (loc_of (Reached lcd q0 e0), md1)"
    "LocateInode E (drop dir old) lcd md1 = Some (loc_of (resolve (D md) lcd (drop dir old)), md2)"
    "LocateInode E (drop dir new) lcd md2 = Some (loc_of (resolve (D md) lcd (drop dir new)), md3)"
    "eff (D md) (I md) [] md md1" "eff (D md) (I md) [] md md2" "eff (D md) (I md) [] md md3" "lcd \<noteq> 0"
proof -
  obtain md1 where l1: "LocateInode E (take dir old) 0 md = Some (loc_of (Reached lcd q0 e0), md1)" and s1: "eff (D md) (I md) [] md md1"
    using LocateInode_spec [OF okD(1) [OF ok], of "take dir old" 0] lcd by auto
  have n: "lcd \<noteq> 0" using resolve_exists(2) [OF ok root_exists [OF ok] lcd] by blast
  obtain md2 where l2: "LocateInode E (drop dir old) lcd md1 = Some (loc_of (resolve (D md) lcd (drop dir old)), md2)" and s2: "eff (D md) (I md) [] md md2"
    by (rule locate_from [OF s1 n])
  obtain md3 where "LocateInode E (drop dir new) lcd md2 = Some (loc_of (resolve (D md) lcd (drop dir new)), md3)" "eff (D md) (I md) [] md md3"
    by (rule locate_from [OF s2 n])
  with that [OF l1 l2] s1 s2 n show ?thesis by blast
qed

lemma Rename_no_source:
  assumes ok: "md_ok md" and c: "last_common_dir 0 0 new old = Some dir"
    and n: "(\<exists>a b f. resolve (D md) kRootId (take dir old) = Missing a b f) \<or>
      (\<exists>lcd q e a b f. resolve (D md) kRootId (take dir old) = Reached lcd q e \<and> resolve (D md) lcd (drop dir old) = Missing a b f)"
    and r: "md_Rename E now old new link md = Some (r, md')"
  shows "r = -1 \<and> eff (D md) (I md) [] md md'"
proof (cases "resolve (D md) kRootId (take dir old)")
  case (Missing a b f)
  then show ?thesis using r c LocateInode_spec [OF okD(1) [OF ok], of "take dir old" 0] by (auto simp: md_Rename_def loc_of_def)
next
  case (Reached lcd q e)
  then obtain a b f where m: "resolve (D md) lcd (drop dir old) = Missing a b f" using n by auto
  obtain md1 md2 md3 where "LocateInode E (take dir old) 0 md = Some (loc_of (Reached lcd q e), md1)"
    "LocateInode E (drop dir old) lcd md1 = Some (loc_of (resolve (D md) lcd (drop dir old)), md2)" "eff (D md) (I md) [] md md2"
    by (rule rename_walks [OF ok c Reached])
  then show ?thesis using r c m by (auto simp: md_Rename_def loc_of_def)
qed

lemma source_entry:
  assumes ok: "md_ok md" and lcd: "I md lcd \<noteq> None" and old: "resolve (D md) lcd path = Reached ino p ent" and e: "p \<noteq> 0"
  obtains e where "ent = Some e" "d_id e = ino" "D md (p, d_name e) = Some e" "names_of path \<noteq> []"
proof -
  have l: "lcd \<noteq> 0" using lcd fs_okD(6) [OF okD(2) [OF ok]] by auto
  have n: "names_of path \<noteq> []" using resolve_reached [OF old entry_idD [OF ok] l] e by auto
  from ok_reached [OF ok old l n] that n show ?thesis by metis
qed

lemma Rename_missing:
  assumes ok: "md_ok md" and c: "last_common_dir 0 0 new old = Some dir" and lcd: "resolve (D md) kRootId (take dir old) = Reached lcd q0 e0"
    and old: "resolve (D md) lcd (drop dir old) = Reached ino op ent" and new: "resolve (D md) lcd (drop dir new) = Missing np nn final"
    and r: "md_Rename E now old new link md = Some (r, md')"
  shows "if \<not> final then r = -1 \<and> eff (D md) (I md) [] md md'
    else \<exists>e mda. ent = Some e \<and> d_id e = ino \<and> D md (op, d_name e) = Some e \<and> D md (np, nn) = None \<and> I md np \<noteq> None \<and>
      eff (D md) (I md) [] md mda \<and> rename_move E now link (d_id e) e op nn np mda = Some (r, md')"
proof -
  obtain md1 md2 md3 where l: "LocateInode E (take dir old) 0 md = Some (loc_of (Reached lcd q0 e0), md1)"
    "LocateInode E (drop dir old) lcd md1 = Some (loc_of (resolve (D md) lcd (drop dir old)), md2)"
    "LocateInode E (drop dir new) lcd md2 = Some (loc_of (resolve (D md) lcd (drop dir new)), md3)"
    and s: "eff (D md) (I md) [] md md3" and n: "lcd \<noteq> 0" by (rule rename_walks [OF ok c lcd])
  have il: "I md lcd \<noteq> None" using resolve_exists(2) [OF ok root_exists [OF ok] lcd] by auto
  note m = ok_missing [OF ok new n] resolve_exists(1) [OF ok il new]
  show ?thesis
  proof (cases final)
    case False
    then show ?thesis using r l c old new s by (simp add: md_Rename_def loc_of_def)
  next
    case True
    have o: "op \<noteq> 0" using r l c old new True m(2) by (auto simp: md_Rename_def loc_of_def split: if_splits)
    obtain e where e: "ent = Some e" "d_id e = ino" "D md (op, d_name e) = Some e" by (rule source_entry [OF ok il old o])
    have "rename_move E now link ino e op nn np md3 = Some (r, md')" using r l c old new True m(2) o e(1) by (simp add: md_Rename_def loc_of_def)
    then show ?thesis using True e m s by auto
  qed
qed

end

subsection \<open>Covering an existing target\<close>

context metadata_service
begin

definition unlink_post :: "bool \<Rightarrow> u64 \<Rightarrow> Dirent \<Rightarrow> Inode \<Rightarrow> ('d, 'i) Metadata \<Rightarrow> Result \<Rightarrow> ('d, 'i) Metadata \<Rightarrow> bool" where
  "unlink_post b p d i md r md' \<longleftrightarrow>
    (let len = of_nat (length (d_name d)); lg = Some (MakeUnlink (d_id d) p (d_name d) len, BuildOverflow (d_name d) len);
         I1 = upd_extra (- 1) p (upd_nlink (- 1) (d_id d) (I md)) in
     r = Result_mark (- EAGAIN) \<and> post (D md) (I md) [] md None md md' \<or>
     unlink_error b i \<and> r = Result_mark (-1) \<and> post (D md) (I md) [] md lg md md' \<or>
     \<not> unlink_error b i \<and> r = Result_mark 0 \<and>
       post ((D md)((p, d_name d) := None)) (if i_nlink i - 1 = 0 then I1(d_id d := None) else I1) []
         (if i_nlink i - 1 = 0 then FreeInodeId (d_id d) md else md) lg md md')"

lemma Unlink_reached:
  assumes ok: "md_ok md" and ns: "names_of path \<noteq> []" and r: "resolve (D md) kRootId path = Reached ino p ent"
  obtains d i res md' where "ent = Some d" "d_id d = ino" "D md (p, d_name d) = Some d" "I md ino = Some i"
    "md_Unlink E now path b md = Some (res, md')" "unlink_post b p d i md res md'"
proof -
  obtain d i res md' where u: "ent = Some d" "D md (p, d_name d) = Some d" "d_id d = ino" "I md ino = Some i"
      "md_Unlink E now path b md = Some (res, md')" and pp: "unlink_post b p d i md res md'"
    using Unlink_spec [OF ok ns, of now b] unfolding r unlink_post_def walked.case by metis
  from that [OF u(1,3,2,4,5) pp] show ?thesis .
qed

lemma unlink_post_ok:
  assumes ok: "md_ok md" and k: "D md (p, d_name d) = Some d" and i: "I md (d_id d) = Some i" and u: "unlink_post b p d i md r md'"
  shows "md_ok md'" "md_failures md' = md_failures md"
proof -
  note C = unlink_consistent [OF ok k refl i, of b, unfolded fst_conv]
  have *: "post D' I' [] mi lg md md' \<Longrightarrow> fs_ok D' I' \<Longrightarrow> ids_ok I' mi \<Longrightarrow> md_base_id mi = md_base_id md \<Longrightarrow> md_max_id mi = md_max_id md \<Longrightarrow>
    md_ok md' \<and> md_failures md' = md_failures md" for D' I' mi lg
    using post_ok [OF ok] postD(4) by fastforce
  have "md_ok md' \<and> md_failures md' = md_failures md"
    using u [unfolded unlink_post_def Let_def]
  proof (elim disjE conjE)
    assume "post (D md) (I md) [] md None md md'"
    from * [OF this okD(2,3) [OF ok]] show ?thesis by simp
  next
    assume "post (D md) (I md) [] md (Some (MakeUnlink (d_id d) p (d_name d) (of_nat (length (d_name d))), BuildOverflow (d_name d) (of_nat (length (d_name d))))) md md'"
    from * [OF this okD(2,3) [OF ok]] show ?thesis by simp
  next
    assume e: "\<not> unlink_error b i"
    let ?I = "upd_extra (- 1) p (upd_nlink (- 1) (d_id d) (I md))"
    assume "post ((D md)((p, d_name d) := None)) (if i_nlink i - 1 = 0 then ?I(d_id d := None) else ?I) [] (if i_nlink i - 1 = 0 then FreeInodeId (d_id d) md else md)
      (Some (MakeUnlink (d_id d) p (d_name d) (of_nat (length (d_name d))), BuildOverflow (d_name d) (of_nat (length (d_name d))))) md md'"
    from * [OF this C [OF e]] show ?thesis by simp
  qed
  then show "md_ok md'" "md_failures md' = md_failures md" by blast+
qed

text \<open>The state in which a rename looks for its target again, and how it goes on from there.\<close>

lemma Rename_covered:
  assumes ok: "md_ok md" and c: "last_common_dir 0 0 new old = Some dir" and lcd: "resolve (D md) kRootId (take dir old) = Reached lcd q0 e0"
    and old: "resolve (D md) lcd (drop dir old) = Reached ino op ent" and new: "resolve (D md) lcd (drop dir new) = Reached ino2 np nent"
    and ne: "[] \<notin> set (names_of new)" "names_of (drop dir new) \<noteq> []"
    and r: "md_Rename E now old new False md = Some (r, md')"
  shows "\<exists>e d i. ent = Some e \<and> nent = Some d \<and> d_id d = ino2 \<and> D md (np, d_name d) = Some d \<and> I md ino2 = Some i \<and>
    (if (d_type e = DT_DIR) \<noteq> (d_type d = DT_DIR) then r = -1 \<and> eff (D md) (I md) [] md md'
     else \<exists>mda res mdc. eff (D md) (I md) [] md mda \<and> unlink_post (d_type d = DT_DIR) np d i mda res mdc \<and>
       (if res_mark res \<noteq> 0 then r = (if res_mark res = - EAGAIN then - EAGAIN else -1) \<and> md' = mdc
        else case resolve (D mdc) np (drop dir new) of
            Reached _ _ _ \<Rightarrow> r = -1 \<and> eff (D mdc) (I mdc) [] mdc md'
          | Missing np' nn final \<Rightarrow>
              if \<not> final then r = -1 \<and> eff (D mdc) (I mdc) [] mdc md'
              else \<exists>mdd. eff (D mdc) (I mdc) [] mdc mdd \<and> rename_move E now False ino e op nn np' mdd = Some (r, md')))"
proof -
  obtain md1 md2 md3 where l: "LocateInode E (take dir old) 0 md = Some (loc_of (Reached lcd q0 e0), md1)"
    "LocateInode E (drop dir old) lcd md1 = Some (loc_of (resolve (D md) lcd (drop dir old)), md2)"
    "LocateInode E (drop dir new) lcd md2 = Some (loc_of (resolve (D md) lcd (drop dir new)), md3)"
    and s: "eff (D md) (I md) [] md md3" and n: "lcd \<noteq> 0" by (rule rename_walks [OF ok c lcd])
  have full: "resolve (D md) kRootId new = Reached ino2 np nent" using resolve_cut [OF c ne(1) _ ne(2) lcd] new by simp
  have fne: "names_of new \<noteq> []" using names_cut [OF c ne(1) _ ne(2)] ne(2) by simp
  note ok3 = look_ok [OF ok s] and e3 = effD [OF s]
  define b where "b = (case nent of None \<Rightarrow> False | Some d \<Rightarrow> d_type d = DT_DIR)"
  obtain d i res mdc where d: "nent = Some d" "d_id d = ino2" "D md (np, d_name d) = Some d" "I md ino2 = Some i"
    and u: "md_Unlink E now new b md3 = Some (res, mdc)" "unlink_post b np d i md3 res mdc"
    using Unlink_reached [OF ok3 fne, unfolded e3(2,3), OF full] by metis
  have bd: "b = (d_type d = DT_DIR)" by (simp add: b_def d(1))
  have np: "np \<noteq> 0" using fs_okD(4) [OF okD(2) [OF ok] d(3)] fs_okD(6) [OF okD(2) [OF ok]] by (auto simp: entry_ok_def)
  have okc: "md_ok mdc" using unlink_post_ok(1) [OF ok3 _ _ u(2)] d e3(2,3) by simp
  obtain e where e: "ent = Some e" "op \<noteq> 0"
    using r l c old new np d(1) by (auto simp: md_Rename_def loc_of_def split: if_splits bind_splits)
  have R: "md_Rename E now old new False md = (do { (t, md) \<leftarrow> rename_cover E now new (drop dir new) (d_type e = DT_DIR) b np md3;
      case t of Inl rc \<Rightarrow> Some (rc, md) | Inr (new_res, new_parent) \<Rightarrow> if new_parent = 0 then Some (-1, md)
        else rename_move E now False ino e op (res_new_path new_res) new_parent md })"
    using l c old new np d(1) e bd by (simp add: md_Rename_def loc_of_def)
      (rule Option.bind_cong [OF refl], auto split: sum.splits)
  show ?thesis
  proof (cases "(d_type e = DT_DIR) = b")
    case False
    then have "r = -1" "md' = md3" using R r by (auto simp: rename_cover_def)
    then show ?thesis using e d s False bd by auto
  next
    case True
    have *: "res_mark res \<noteq> 0 \<Longrightarrow> r = (if res_mark res = - EAGAIN then - EAGAIN else -1) \<and> md' = mdc"
      using R r u(1) True by (auto simp: rename_cover_def split: if_splits)
    obtain md4 where l4: "LocateInode E (drop dir new) np mdc = Some (loc_of (resolve (D mdc) np (drop dir new)), md4)"
      and s4: "eff (D mdc) (I mdc) [] mdc md4" by (rule locate_from [OF eff_refl [OF okD(1) [OF okc]] np])
    have ez: "(0 :: int) \<noteq> - EAGAIN" by (simp add: EAGAIN_def)
    have "case resolve (D mdc) np (drop dir new) of
        Reached _ _ _ \<Rightarrow> r = -1 \<and> eff (D mdc) (I mdc) [] mdc md'
      | Missing np' nn final \<Rightarrow> if \<not> final then r = -1 \<and> eff (D mdc) (I mdc) [] mdc md'
          else \<exists>mdd. eff (D mdc) (I mdc) [] mdc mdd \<and> rename_move E now False ino e op nn np' mdd = Some (r, md')"
      if z: "res_mark res = 0"
    proof (cases "resolve (D mdc) np (drop dir new)")
      case (Reached x y w)
      then show ?thesis using R r u(1) True z ez l4 s4 by (simp add: rename_cover_def loc_of_def)
    next
      case (Missing np' nn final)
      have "np' \<noteq> 0" using ok_missing(2) [OF okc Missing np] .
      then show ?thesis using R r u(1) True z ez l4 s4 Missing by (auto simp: rename_cover_def loc_of_def split: if_splits)
    qed
    then have "\<exists>mda res mdc. eff (D md) (I md) [] md mda \<and> unlink_post (d_type d = DT_DIR) np d i mda res mdc \<and>
       (if res_mark res \<noteq> 0 then r = (if res_mark res = - EAGAIN then - EAGAIN else -1) \<and> md' = mdc
        else case resolve (D mdc) np (drop dir new) of
            Reached _ _ _ \<Rightarrow> r = -1 \<and> eff (D mdc) (I mdc) [] mdc md'
          | Missing np' nn final \<Rightarrow>
              if \<not> final then r = -1 \<and> eff (D mdc) (I mdc) [] mdc md'
              else \<exists>mdd. eff (D mdc) (I mdc) [] mdc mdd \<and> rename_move E now False ino e op nn np' mdd = Some (r, md'))"
      using s u(2) * bd by (intro exI conjI) (assumption | simp)+
    then show ?thesis using e d True bd by auto
  qed
qed

end

section \<open>Runs of the service\<close>

datatype md_cmd =
    MStat cstring | MAccess cstring u32 u32 u32 | MOpenDir cstring | MCreate cstring u32 u32 u32 "Inode option"
  | MUnlink cstring | MRmdir cstring | MChmod cstring u32 | MRename cstring cstring | MLink cstring cstring

datatype md_res = RResult Result "Inode option" | RHandle Result DirHandle | RInt int

text \<open>A command comes with the readings of the two clocks.\<close>

fun md_exec :: "('d, 'i) md_env \<Rightarrow> u64 \<times> u64 \<times> md_cmd \<Rightarrow> ('d, 'i) Metadata \<Rightarrow> (md_res \<times> ('d, 'i) Metadata) option" where
  "md_exec E (now, ms, MStat path) md = do { ((r, i), md) \<leftarrow> md_Stat E path md; Some (RResult r i, md) }"
| "md_exec E (now, ms, MAccess path mode uid gid) md = do { (r, md) \<leftarrow> md_Access E path mode uid gid md; Some (RResult r None, md) }"
| "md_exec E (now, ms, MOpenDir path) md = do { ((r, h), md) \<leftarrow> md_OpenDir E path md; Some (RHandle r h, md) }"
| "md_exec E (now, ms, MCreate path mode uid gid buf) md = do { ((r, i), md) \<leftarrow> md_Create E now ms path mode uid gid buf md; Some (RResult r i, md) }"
| "md_exec E (now, ms, MUnlink path) md = do { (r, md) \<leftarrow> md_Unlink E ms path False md; Some (RResult r None, md) }"
| "md_exec E (now, ms, MRmdir path) md = do { (r, md) \<leftarrow> md_Rmdir E ms path md; Some (RResult r None, md) }"
| "md_exec E (now, ms, MChmod path mode) md = do { (r, md) \<leftarrow> md_Chmod E ms path mode md; Some (RResult r None, md) }"
| "md_exec E (now, ms, MRename old new) md = do { (r, md) \<leftarrow> md_Rename E ms old new False md; Some (RInt r, md) }"
| "md_exec E (now, ms, MLink old new) md = do { (r, md) \<leftarrow> md_Link E ms old new md; Some (RInt r, md) }"

text \<open>
  What the service leaves to its callers: new names go into directories, \<open>mode\<close> keeps the type of a file, the root
  is not removed, and a rename over an existing name stays in one directory and has two different names.
\<close>

definition dir_at :: "imap \<Rightarrow> u64 \<Rightarrow> bool" where
  "dir_at J ino = (case J ino of None \<Rightarrow> False | Some i \<Rightarrow> is_dir i)"

definition rename_allowed :: "dmap \<Rightarrow> imap \<Rightarrow> cstring \<Rightarrow> cstring \<Rightarrow> bool" where
  "rename_allowed J K old new =
    (case last_common_dir 0 0 new old of None \<Rightarrow> True | Some dir \<Rightarrow>
     case resolve J kRootId (take dir old) of Missing _ _ _ \<Rightarrow> True | Reached lcd _ _ \<Rightarrow>
     case resolve J lcd (drop dir new) of
       Missing np _ final \<Rightarrow> final \<longrightarrow> dir_at K np
     | Reached _ _ _ \<Rightarrow> [] \<notin> set (names_of new) \<and> length (names_of (drop dir new)) = 1 \<and>
         resolve J lcd (drop dir old) \<noteq> resolve J lcd (drop dir new))"

fun md_allowed :: "md_cmd \<Rightarrow> dmap \<Rightarrow> imap \<Rightarrow> bool" where
  "md_allowed (MCreate path mode uid gid buf) J K =
    (case resolve J kRootId path of Reached _ _ _ \<Rightarrow> True
     | Missing np _ final \<Rightarrow> final \<longrightarrow> dir_at K np \<and> (buf \<noteq> None \<longrightarrow> mode AND S_IFDIR = 0))"
| "md_allowed (MUnlink path) J K = (names_of path \<noteq> [])"
| "md_allowed (MRmdir path) J K = (names_of path \<noteq> [])"
| "md_allowed (MChmod path mode) J K =
    (case resolve J kRootId path of Missing _ _ _ \<Rightarrow> True | Reached ino _ _ \<Rightarrow> dir_at K ino = (mode AND S_IFDIR \<noteq> 0))"
| "md_allowed (MRename old new) J K = rename_allowed J K old new"
| "md_allowed (MLink old new) J K = rename_allowed J K old new"
| "md_allowed _ J K = True"

lemma S_IFDIR_or [simp]: "(m OR S_IFDIR) AND S_IFDIR \<noteq> 0" "(m OR S_IFREG) AND S_IFDIR = m AND S_IFDIR"
proof -
  have "(m OR S_IFDIR) AND S_IFDIR = S_IFDIR" by (rule bit_word_eqI) (auto simp: bit_simps)
  then show "(m OR S_IFDIR) AND S_IFDIR \<noteq> 0" by (simp add: S_IFDIR_def)
  have z: "S_IFREG AND S_IFDIR = 0" by (simp add: S_IFREG_def S_IFDIR_def)
  have "(m OR S_IFREG) AND S_IFDIR = (m AND S_IFDIR) OR (S_IFREG AND S_IFDIR)" by (rule bit.conj_disj_distrib2)
  then show "(m OR S_IFREG) AND S_IFDIR = m AND S_IFDIR" by (simp only: z) simp
qed

text \<open>The service can hand out one more id and one more entry can be counted.\<close>

definition md_room :: "('d \<Rightarrow> dmap) \<Rightarrow> ('d, 'i) Metadata \<Rightarrow> bool" where
  "md_room dabs md \<longleftrightarrow> card (dom (dabs (md_dhashtable md))) + 1 < 2 ^ 32 \<and> md_min_unused_id md < md_max_id md"

context metadata_service
begin

lemma look_post_ok: "md_ok md \<Longrightarrow> post (D md) (I md) fs md lg md md' \<Longrightarrow> md_ok md'"
  by (rule post_ok) (auto dest: okD)

lemma Create_ok:
  assumes ok: "md_ok md" and room: "md_room dabs md" and al: "md_allowed (MCreate path mode uid gid buf) (D md) (I md)"
    and r: "md_Create E now ms path mode uid gid buf md = Some ((r, buf'), md')" and f: "md_failures md' = md_failures md"
  shows "md_ok md'"
proof -
  have rm: "md_min_unused_id md < md_max_id md" "card (dom (D md)) + 1 < 2 ^ 32" using room by (simp_all add: md_room_def)
  note C = Create_spec [OF ok rm(1) r]
  show ?thesis
  proof (cases "resolve (D md) kRootId path")
    case (Reached ino p ent)
    then have "post (D md) (I md) [] md None md md'" using C by simp
    then show ?thesis by (rule look_post_ok [OF ok])
  next
    case (Missing dir n final)
    show ?thesis
    proof (cases final)
      case False
      then have "post (D md) (I md) [] md None md md'" using C Missing by simp
      then show ?thesis by (rule look_post_ok [OF ok])
    next
      case True
      then have nf: "\<not> \<not> final" by simp
      let ?node = "\<lambda>ino. Inode_new ino 1 (new_mode (buf \<noteq> None) mode) uid gid now now now" and ?e = "\<lambda>ino. new_entry ino dir (buf \<noteq> None) n"
      obtain ino mi where a: "AllocateInodeId E md = (ino, mi)" "length n < 64" and
        P: "post (D md) (I md) [] (FreeInodeId ino mi) None md md' \<or> (\<exists>b1 b2 lg. post (if b2 then (D md)((dir, n) \<mapsto> ?e ino) else D md)
          (upd_extra 1 dir (if b1 then (I md)(ino \<mapsto> ?node ino) else I md))
          ((if b1 then [] else [PutInodeFailed ino]) @ (if b2 then [] else [AddEntryFailed dir n])) mi lg md md')"
        using C [unfolded Missing walked.case Let_def if_not_P [OF nf]] by blast
      note A = alloc_step [OF okD(3) [OF ok] rm(1) a(1)]
      have fr: "I md ino = None" "ino \<notin> set (md_recycled_ids mi)" "md_base_id mi + kRootId < ino \<and> ino < md_min_unused_id mi" using A(2) by (simp_all add: reserved_def)
      have i0: "ino \<noteq> 0" using fr(3) by auto
      from P show ?thesis
      proof
        assume p: "post (D md) (I md) [] (FreeInodeId ino mi) None md md'"
        have "ids_ok (I md) (FreeInodeId ino mi)" using ids_free [OF A(1) fr(2), of "I md"] fr by simp
        then show ?thesis using post_ok [OF ok p okD(2) [OF ok]] A(8,9) by simp
      next
        assume "\<exists>b1 b2 lg. post (if b2 then (D md)((dir, n) \<mapsto> ?e ino) else D md)
          (upd_extra 1 dir (if b1 then (I md)(ino \<mapsto> ?node ino) else I md))
          ((if b1 then [] else [PutInodeFailed ino]) @ (if b2 then [] else [AddEntryFailed dir n])) mi lg md md'"
        then obtain b1 b2 lg where p: "post (if b2 then (D md)((dir, n) \<mapsto> ?e ino) else D md)
          (upd_extra 1 dir (if b1 then (I md)(ino \<mapsto> ?node ino) else I md))
          ((if b1 then [] else [PutInodeFailed ino]) @ (if b2 then [] else [AddEntryFailed dir n])) mi lg md md'" by blast
        have b: "b1" "b2" using postD(4) [OF p] f by (auto split: if_splits)
        obtain q where q: "I md dir = Some q" "is_dir q" and m: "buf \<noteq> None \<longrightarrow> mode AND S_IFDIR = 0"
          using al Missing True by (auto simp: dir_at_def split: option.splits)
        have F: "fs_ok ((D md)((dir, n) \<mapsto> ?e ino)) (upd_extra 1 (fst (dir, n)) ((I md)(ino \<mapsto> ?node ino)))"
          by (rule fs_create [OF okD(2) [OF ok] ok_missing(1) [OF ok Missing root_nonzero] rm(2) _ q(2) fr(1) i0])
            (use q a(2) m in \<open>auto simp: new_entry_def valid_dirent_def Inode_new_def is_dir_def new_mode_def dt_consts\<close>)
        have "ids_ok (upd_extra 1 dir ((I md)(ino \<mapsto> ?node ino))) mi"
          using ids_store [OF A(1,2), of "?node ino"] ids_dom [of "upd_extra 1 dir ((I md)(ino \<mapsto> ?node ino))" "(I md)(ino \<mapsto> ?node ino)" mi] by simp
        then show ?thesis using post_ok [OF ok p] F b A(8,9) by simp
      qed
    qed
  qed
qed

lemma Chmod_ok:
  assumes ok: "md_ok md" and al: "md_allowed (MChmod path mode) (D md) (I md)" and r: "md_Chmod E ms path mode md = Some (r, md')"
  shows "md_ok md'"
proof (cases "resolve (D md) kRootId path")
  case (Reached ino p ent)
  let ?I = "(I md)(ino := map_option (\<lambda>i. i\<lparr>i_mode := mode\<rparr>) (I md ino))"
  have "fs_ok (D md) ?I" by (rule fs_chmod [OF okD(2) [OF ok]]) (use al Reached in \<open>auto simp: dir_at_def is_dir_def\<close>)
  moreover have "ids_ok ?I md" using okD(3) [OF ok] ids_dom [of ?I "I md" md] by auto
  ultimately have "post (D md) ?I [] md lg md md' \<Longrightarrow> md_ok md'" for lg using post_ok [OF ok] by blast
  with look_post_ok [OF ok] show ?thesis using Chmod_spec [OF ok, of ms path mode] r Reached by auto
next
  case (Missing a b c)
  then show ?thesis using Chmod_spec [OF ok, of ms path mode] r look_post_ok [OF ok] by auto
qed

lemma Unlink_ok:
  assumes ok: "md_ok md" and ns: "names_of path \<noteq> []" and r: "md_Unlink E ms path b md = Some (r, md')"
  shows "md_ok md'"
proof (cases "resolve (D md) kRootId path")
  case (Reached ino p ent)
  obtain d i res md'' where u: "d_id d = ino" "D md (p, d_name d) = Some d" "I md ino = Some i" "md_Unlink E ms path b md = Some (res, md'')"
      "unlink_post b p d i md res md''"
    by (rule Unlink_reached [OF ok ns Reached])
  have "md'' = md'" using u(4) r by simp
  with unlink_post_ok(1) [OF ok u(2) _ u(5)] u(1,3) show ?thesis by simp
next
  case (Missing x y z)
  then have "post (D md) (I md) [] md None md md'" using Unlink_spec [OF ok ns, of ms b] r by auto
  then show ?thesis by (rule look_post_ok [OF ok])
qed

end

context metadata_service
begin

lemma dir_atD: "dir_at J p \<Longrightarrow> \<exists>q. J p = Some q \<and> is_dir q"
  by (auto simp: dir_at_def split: option.splits)

lemma move_ok:
  assumes ok: "md_ok md0" and s0: "eff (D md0) (I md0) [] md0 md" and old: "D md0 (op, d_name e) = Some e"
    and new: "D md0 (np, nn) = None" "dir_at (I md0) np" and room: "card (dom (D md0)) + 1 < 2 ^ 32"
    and r: "rename_move E now link (d_id e) e op nn np md = Some (r, md')" and f: "md_failures md' = md_failures md0"
  shows "md_ok md'"
proof -
  obtain q where q: "I md0 np = Some q" "is_dir q" using dir_atD [OF new(2)] by blast
  then have np: "I md0 np \<noteq> None" by simp
  let ?e = "moved_entry e np nn" and ?k = "(op, d_name e)" and ?k' = "(np, nn)"
  have ids: "ids_ok (upd_extra a x J) md0 = ids_ok J md0" "ids_ok (upd_nlink b x J) md0 = ids_ok J md0" for a b x J
    by (rule ids_dom, simp)+
  show ?thesis
  proof (cases link)
    case False
    let ?I = "if op = np then I md0 else upd_extra 1 np (upd_extra (- 1) op (I md0))"
    from rename_move_spec [OF ok s0 old new(1) np r [unfolded False [THEN eq_False [THEN iffD2]]]] look_post_ok [OF ok]
    consider "md_ok md'" | b lg where "length nn < 64" "post (if b then (D md0)(?k := None, ?k' \<mapsto> ?e) else (D md0)(?k := None)) ?I (if b then [] else [AddEntryFailed np nn]) md0 lg md0 md'"
      by blast
    then show ?thesis
    proof cases
      case 2
      then have b: "b" using postD(4) [OF 2(2)] f by (auto split: if_splits)
      have "fs_ok ((D md0)(?k := None, ?k' \<mapsto> ?e)) (if fst ?k = fst ?k' then I md0 else upd_extra 1 (fst ?k') (upd_extra (- 1) (fst ?k) (I md0)))"
        by (rule fs_move [OF okD(2) [OF ok] old new(1) _ q(2)]) (use q 2(1) in simp_all)
      moreover have "ids_ok ?I md0" using ids okD(3) [OF ok] by simp
      ultimately show ?thesis using post_ok [OF ok 2(2)] b by (simp only: fst_conv if_True)
    qed
  next
    case True
    from link_move_spec [OF ok s0 old new(1) np r [unfolded True [THEN eq_True [THEN iffD2]]]] look_post_ok [OF ok]
    consider "md_ok md'" | b lg where "length nn < 64" "post (if b then (D md0)(?k' \<mapsto> ?e) else D md0) (upd_extra 1 np (upd_nlink 1 (d_id e) (I md0))) (if b then [] else [AddEntryFailed np nn]) md0 lg md0 md'"
      by blast
    then show ?thesis
    proof cases
      case 2
      then have b: "b" using postD(4) [OF 2(2)] f by (auto split: if_splits)
      have "fs_ok ((D md0)(?k' \<mapsto> ?e)) (upd_extra 1 (fst ?k') (upd_nlink 1 (d_id e) (I md0)))"
        by (rule fs_link [OF okD(2) [OF ok] old new(1) room _ q(2)]) (use q 2(1) in simp_all)
      then show ?thesis using post_ok [OF ok 2(2)] b ids okD(3) [OF ok] by simp
    qed
  qed
qed

text \<open>A link does not cover an existing name.\<close>

lemma Link_exists:
  assumes ok: "md_ok md" and c: "last_common_dir 0 0 new old = Some dir" and lcd: "resolve (D md) kRootId (take dir old) = Reached lcd q0 e0"
    and old: "resolve (D md) lcd (drop dir old) = Reached ino op ent" and new: "resolve (D md) lcd (drop dir new) = Reached ino2 np nent"
    and r: "md_Rename E now old new True md = Some (r, md')"
  shows "r = -1 \<and> eff (D md) (I md) [] md md'"
proof -
  obtain md1 md2 md3 where l: "LocateInode E (take dir old) 0 md = Some (loc_of (Reached lcd q0 e0), md1)"
    "LocateInode E (drop dir old) lcd md1 = Some (loc_of (resolve (D md) lcd (drop dir old)), md2)"
    "LocateInode E (drop dir new) lcd md2 = Some (loc_of (resolve (D md) lcd (drop dir new)), md3)" "eff (D md) (I md) [] md md3"
    by (rule rename_walks [OF ok c lcd])
  then show ?thesis using r c old new by (auto simp: md_Rename_def loc_of_def)
qed

lemma unlink_post_D:
  assumes "unlink_post b p d i md r md'" "res_mark r = 0"
  shows "D md' = (D md)((p, d_name d) := None)" "\<And>x. x \<noteq> d_id d \<Longrightarrow> map_option is_dir (I md' x) = map_option is_dir (I md x)"
proof -
  let ?I = "upd_extra (- 1) p (upd_nlink (- 1) (d_id d) (I md))"
  obtain mi lg where p: "post ((D md)((p, d_name d) := None)) (if i_nlink i - 1 = 0 then ?I(d_id d := None) else ?I) [] mi lg md md'"
    using assms by (auto simp: unlink_post_def Let_def Result_mark_def EAGAIN_def)
  show "D md' = (D md)((p, d_name d) := None)" using postD(2) [OF p] .
  fix x assume "x \<noteq> d_id d"
  moreover have "map_option is_dir (?I x) = map_option is_dir (I md x)"
    using same_kinds_trans [OF same_kinds_upd(2) same_kinds_upd(1)] unfolding same_kinds_def by blast
  ultimately show "map_option is_dir (I md' x) = map_option is_dir (I md x)" using postD(3) [OF p] by simp
qed

lemma cover_ok:
  assumes ok: "md_ok md" and c: "last_common_dir 0 0 new old = Some dir" and lcd: "resolve (D md) kRootId (take dir old) = Reached lcd q0 e0"
    and old: "resolve (D md) lcd (drop dir old) = Reached ino op ent" and new: "resolve (D md) lcd (drop dir new) = Reached ino2 np nent"
    and al: "[] \<notin> set (names_of new)" "length (names_of (drop dir new)) = 1" "resolve (D md) lcd (drop dir old) \<noteq> resolve (D md) lcd (drop dir new)"
    and r: "md_Rename E now old new False md = Some (r, md')" and room: "card (dom (D md)) + 1 < 2 ^ 32" and f: "md_failures md' = md_failures md"
  shows "md_ok md'"
proof -
  have ne: "names_of (drop dir new) \<noteq> []" using al(2) by auto
  have il: "I md lcd \<noteq> None" "lcd \<noteq> 0" using resolve_exists(2) [OF ok root_exists [OF ok] lcd] by auto
  from Rename_covered [OF ok c lcd old new al(1) ne r]
  obtain e d i where e: "ent = Some e" "nent = Some d" "d_id d = ino2" "D md (np, d_name d) = Some d" "I md ino2 = Some i"
    and R: "if (d_type e = DT_DIR) \<noteq> (d_type d = DT_DIR) then r = -1 \<and> eff (D md) (I md) [] md md'
     else \<exists>mda res mdc. eff (D md) (I md) [] md mda \<and> unlink_post (d_type d = DT_DIR) np d i mda res mdc \<and>
       (if res_mark res \<noteq> 0 then r = (if res_mark res = - EAGAIN then - EAGAIN else -1) \<and> md' = mdc
        else case resolve (D mdc) np (drop dir new) of
            Reached _ _ _ \<Rightarrow> r = -1 \<and> eff (D mdc) (I mdc) [] mdc md'
          | Missing np' nn final \<Rightarrow>
              if \<not> final then r = -1 \<and> eff (D mdc) (I mdc) [] mdc md'
              else \<exists>mdd. eff (D mdc) (I mdc) [] mdc mdd \<and> rename_move E now False ino e op nn np' mdd = Some (r, md'))" by blast
  have "names_of (drop dir old) \<noteq> []" using resolve_reached [OF old entry_idD [OF ok] il(2)] e(1) by auto
  then have eo: "d_id e = ino" "D md (op, d_name e) = Some e" using resolve_reached [OF old entry_idD [OF ok] il(2)] e(1) by auto
  show ?thesis
  proof (cases "(d_type e = DT_DIR) \<noteq> (d_type d = DT_DIR)")
    case True
    then have "eff (D md) (I md) [] md md'" using R by simp
    then show ?thesis by (rule look_ok [OF ok])
  next
    case False
    then obtain mda res mdc where s: "eff (D md) (I md) [] md mda" and u: "unlink_post (d_type d = DT_DIR) np d i mda res mdc"
      and S: "if res_mark res \<noteq> 0 then r = (if res_mark res = - EAGAIN then - EAGAIN else -1) \<and> md' = mdc
        else case resolve (D mdc) np (drop dir new) of
            Reached _ _ _ \<Rightarrow> r = -1 \<and> eff (D mdc) (I mdc) [] mdc md'
          | Missing np' nn final \<Rightarrow>
              if \<not> final then r = -1 \<and> eff (D mdc) (I mdc) [] mdc md'
              else \<exists>mdd. eff (D mdc) (I mdc) [] mdc mdd \<and> rename_move E now False ino e op nn np' mdd = Some (r, md')" using R by auto
    note oka = look_ok [OF ok s] and ea = effD [OF s]
    have okc: "md_ok mdc" "md_failures mdc = md_failures md"
      using unlink_post_ok [OF oka _ _ u] e(3-5) ea(2-4) by simp_all
    show ?thesis
    proof (cases "res_mark res = 0")
      case False
      then show ?thesis using S okc by simp
    next
      case True
      obtain n where n: "names_of (drop dir new) = [n]" using al(2) by (cases "names_of (drop dir new)") auto
      have "D md (lcd, n) = Some d" "np = lcd" using new e(2) n by (auto simp: resolve_def split: option.splits)
      moreover have "n = d_name d" using calculation(1) entry_idD [OF ok] by blast
      ultimately have np: "np = lcd" "n = d_name d" by simp_all
      have Dc: "D mdc = (D md)((np, n) := None)" using unlink_post_D(1) [OF u True] ea(2) np by simp
      have mis: "resolve (D mdc) np (drop dir new) = Missing np n True" by (simp add: resolve_def n Dc)
      have "\<not> res_mark res \<noteq> 0" using True by simp
      note S' = S [unfolded if_not_P [OF this] mis walked.case not_True_eq_False if_False]
      obtain mdd where m: "eff (D mdc) (I mdc) [] mdc mdd" "rename_move E now False (d_id e) e op n np mdd = Some (r, md')"
        using S' unfolding eo(1) by blast
      have ke: "(op, d_name e) \<noteq> (np, n)" 
      proof
        assume k: "(op, d_name e) = (np, n)"
        then have o: "op = np" and "d_name e = n" by blast+
        then have "D md (op, d_name e) = D md (np, d_name d)" unfolding np(2) by (simp only:)
        then have ed: "e = d" unfolding eo(2) e(4) by blast
        then have "ino = ino2" using eo(1) e(3) by blast
        with al(3) show False unfolding old new e(1,2) o ed by blast
      qed
      have oc: "D mdc (op, d_name e) = Some e" "D mdc (np, n) = None" using Dc ke eo(2) by auto
      have "entry_ok (I md) (np, d_name d) d" using fs_okD(4) [OF okD(2) [OF ok] e(4)] .
      then have kd: "dir_at (I md) np" by (auto simp: entry_ok_def dir_at_def)
      have "\<not> unlink_error (d_type d = DT_DIR) i" using u True by (auto simp: unlink_post_def Let_def Result_mark_def EAGAIN_def)
      from children_empty [OF okD(2) [OF ok] e(5)] unlink_allowed [OF this] have "children (D md) ino2 = {}" by blast
      moreover have "(np, d_name d) \<in> children (D md) np" using e(4) by (simp add: children_def)
      ultimately have "np \<noteq> d_id d" using e(3) by blast
      then have dc: "dir_at (I mdc) np" using unlink_post_D(2) [OF u True, of np] ea(3) kd by (auto simp: dir_at_def split: option.splits)
      have "card (dom (D mdc)) \<le> card (dom (D md))" unfolding Dc by (rule card_mono [OF fs_okD(3) [OF okD(2) [OF ok]]]) auto
      then have "card (dom (D mdc)) + 1 < 2 ^ 32" using room by linarith
      from move_ok [OF okc(1) m(1) oc dc this m(2)] show ?thesis using f okc(2) by simp
    qed
  qed
qed

end

text \<open>A command is run in a state with room and no reported failure, and is one that callers may issue.\<close>

definition md_step_ok :: "('d \<Rightarrow> dmap) \<Rightarrow> ('i \<Rightarrow> imap) \<Rightarrow> ('d, 'i) Metadata \<Rightarrow> u64 \<times> u64 \<times> md_cmd \<Rightarrow> bool" where
  "md_step_ok dabs iabs md c \<longleftrightarrow> md_failures md = [] \<and> md_room dabs md \<and>
    md_allowed (snd (snd c)) (dabs (md_dhashtable md)) (iabs (md_ihashtable md))"

context metadata_service
begin

lemma Rename_ok:
  assumes ok: "md_ok md" and al: "rename_allowed (D md) (I md) old new" and room: "card (dom (D md)) + 1 < 2 ^ 32"
    and r: "md_Rename E now old new link md = Some (r, md')" and f: "md_failures md' = md_failures md"
  shows "md_ok md'"
proof -
  obtain dir where c: "last_common_dir 0 0 new old = Some dir" using r by (auto simp: md_Rename_def split: bind_splits)
  show ?thesis
  proof (cases "resolve (D md) kRootId (take dir old)")
    case (Missing x y z)
    have "eff (D md) (I md) [] md md'" using Rename_no_source [OF ok c _ r] Missing by blast
    then show ?thesis by (rule look_ok [OF ok])
  next
    case lcd: (Reached lcd q0 e0)
    show ?thesis
    proof (cases "resolve (D md) lcd (drop dir old)")
      case (Missing x y z)
      have "eff (D md) (I md) [] md md'" using Rename_no_source [OF ok c _ r] lcd Missing by blast
      then show ?thesis by (rule look_ok [OF ok])
    next
      case old: (Reached ino op ent)
      show ?thesis
      proof (cases "resolve (D md) lcd (drop dir new)")
        case (Missing np nn final)
        note R = Rename_missing [OF ok c lcd old Missing r]
        show ?thesis
        proof (cases final)
          case False
          then have "eff (D md) (I md) [] md md'" using R by simp
          then show ?thesis by (rule look_ok [OF ok])
        next
          case True
          then have d: "dir_at (I md) np" using al c lcd Missing by (simp add: rename_allowed_def)
          have "\<not> \<not> final" using True by simp
          from R [unfolded if_not_P [OF this]] obtain e mda where e: "D md (op, d_name e) = Some e" "D md (np, nn) = None"
            "eff (D md) (I md) [] md mda" "rename_move E now link (d_id e) e op nn np mda = Some (r, md')" by blast
          show ?thesis by (rule move_ok [OF ok e(3,1,2) d room e(4) f])
        qed
      next
        case new: (Reached ino2 np nent)
        have a: "[] \<notin> set (names_of new)" "length (names_of (drop dir new)) = 1" "resolve (D md) lcd (drop dir old) \<noteq> resolve (D md) lcd (drop dir new)"
          using al c lcd new by (simp_all add: rename_allowed_def)
        show ?thesis
        proof (cases link)
          case True
          then have "eff (D md) (I md) [] md md'" using Link_exists [OF ok c lcd old new] r by simp
          then show ?thesis by (rule look_ok [OF ok])
        next
          case False
          with cover_ok [OF ok c lcd old new a _ room f] r show ?thesis by simp
        qed
      qed
    qed
  qed
qed

lemma exec_ok:
  assumes ok: "md_ok md" and al: "md_step_ok dabs iabs md c" and r: "md_exec E c md = Some (r, md')" and f: "md_failures md' = []"
  shows "md_ok md'"
proof -
  obtain now ms cmd where c: "c = (now, ms, cmd)" by (metis surj_pair)
  have a: "md_allowed cmd (D md) (I md)" "md_room dabs md" "md_failures md' = md_failures md" "card (dom (D md)) + 1 < 2 ^ 32"
    using al f by (simp_all add: md_step_ok_def c md_room_def)
  have look: "eff (D md) (I md) [] md md' \<Longrightarrow> md_ok md'" by (rule look_ok [OF ok])
  show ?thesis
  proof (cases cmd)
    case (MStat path)
    then show ?thesis using r c look Stat_spec [OF ok, of path] by (auto split: walked.splits)
  next
    case (MAccess path mode uid gid)
    then show ?thesis using r c look Access_spec [OF ok, of path mode uid gid] by auto
  next
    case (MOpenDir path)
    then show ?thesis using r c look LocateInode_spec [OF okD(1) [OF ok], of path 0] by (auto simp: md_OpenDir_def loc_of_def split: walked.splits)
  next
    case (MCreate path mode uid gid buf)
    then obtain res buf' where e: "md_Create E now ms path mode uid gid buf md = Some ((res, buf'), md')" using r c by (auto split: bind_splits)
    show ?thesis by (rule Create_ok [OF ok a(2) a(1) [unfolded MCreate] e a(3)])
  next
    case (MUnlink path)
    then obtain res where e: "md_Unlink E ms path False md = Some (res, md')" using r c by (auto split: bind_splits)
    show ?thesis by (rule Unlink_ok [OF ok _ e]) (use a(1) MUnlink in simp)
  next
    case (MRmdir path)
    then obtain res where e: "md_Unlink E ms path True md = Some (res, md')" using r c by (auto simp: md_Rmdir_def split: bind_splits)
    show ?thesis by (rule Unlink_ok [OF ok _ e]) (use a(1) MRmdir in simp)
  next
    case (MChmod path mode)
    then obtain res where e: "md_Chmod E ms path mode md = Some (res, md')" using r c by (auto split: bind_splits)
    show ?thesis by (rule Chmod_ok [OF ok a(1) [unfolded MChmod] e])
  next
    case (MRename old new)
    then obtain res where e: "md_Rename E ms old new False md = Some (res, md')" using r c by (auto split: bind_splits)
    show ?thesis by (rule Rename_ok [OF ok _ a(4) e a(3)]) (use a(1) MRename in simp)
  next
    case (MLink old new)
    then obtain res where e: "md_Rename E ms old new True md = Some (res, md')" using r c by (auto simp: md_Link_def split: bind_splits)
    show ?thesis by (rule Rename_ok [OF ok _ a(4) e a(3)]) (use a(1) MLink in simp)
  qed
qed

lemma run_consistent:
  "md_ok md \<Longrightarrow> run_ok (md_exec E) (md_step_ok dabs iabs) cs md \<Longrightarrow> run_ops (md_exec E) cs md = Some (rs, md') \<Longrightarrow> md_failures md' = [] \<Longrightarrow> md_ok md'"
proof (induction cs arbitrary: md rs)
  case (Cons c cs)
  then obtain r md1 rs' where e: "md_exec E c md = Some (r, md1)" "run_ops (md_exec E) cs md1 = Some (rs', md')"
    by (auto split: option.splits)
  have ok: "md_step_ok dabs iabs md c" "run_ok (md_exec E) (md_step_ok dabs iabs) cs md1" using Cons.prems(2) e(1) by auto
  have "md_failures md1 = []" using e(2) ok(2) Cons.prems(4) by (cases cs) (auto simp: md_step_ok_def)
  from Cons.IH [OF exec_ok [OF Cons.prems(1) ok(1) e(1) this] ok(2) e(2) Cons.prems(4)] show ?case .
qed simp

end

end
