(* ===== verification/MetadataStores.thy ===== *)
theory MetadataStores
  imports MetadataRename LevelHashtableMap InodeCluster
begin

text \<open>
  The stores of the metadata service: the level hash table and the inode array meet the contracts \<open>dent_store\<close> and
  \<open>inode_store\<close>, so that the service built on them is an instance of \<open>metadata_service\<close>. \<open>Init\<close> starts it in a
  consistent state. A small file system held in concrete stores shows that such states exist.
\<close>

unbundle bit_operations_syntax

section \<open>The stores of the sources meet the contracts\<close>

definition ht_ok :: "('k, 'v) ht_traits \<Rightarrow> ('v \<Rightarrow> bool) \<Rightarrow> 'v hts \<Rightarrow> bool" where
  "ht_ok T valid st \<longleftrightarrow> ht_inv T valid st \<and> keys_unique T (tbag st)"

definition ht_map :: "('k, 'v) ht_traits \<Rightarrow> 'v hts \<Rightarrow> 'k \<Rightarrow> 'v option" where
  "ht_map T st = hmap T (tbag st)"

definition ht_erase_key :: "('k, 'v) ht_traits \<Rightarrow> 'k \<Rightarrow> 'v hts \<Rightarrow> (bool \<times> 'v hts) option" where
  "ht_erase_key T key st = do { (r, st) \<leftarrow> ht_erase T key st; Some (r \<noteq> None, st) }"

lemma hmap_card:
  assumes "keys_unique T B"
  shows "card (dom (hmap T B)) = size B"
proof -
  have c: "count B w = 1" if "w \<in># B" for w
    using arg_cong [OF with_key_single [OF assms that refl], of "\<lambda>M. count M w"] by (simp add: with_key_def)
  have "dom (hmap T B) = tr_extract T ` set_mset B" using hmap_None [of T B] by (auto simp: dom_def not_None_eq [symmetric] simp del: not_None_eq)
  moreover have "inj_on (tr_extract T) (set_mset B)" using hmap_Some [OF assms] by (metis inj_onI option.inject)
  moreover have "size B = card (set_mset B)" unfolding size_multiset_overloaded_eq using c by simp
  ultimately show ?thesis by (simp add: card_image)
qed

context key_traits
begin

lemma table_find:
  assumes "ht_ok T valid st" "vkey k"
  shows "\<exists>st'. ht_find T k st = Some (ht_map T st k, st') \<and> ht_ok T valid st' \<and> ht_map T st' = ht_map T st"
proof -
  obtain r st' where f: "ht_find T k st = Some (r, st')" using ht_find_spec [of st k] assms by (auto simp: ht_ok_def)
  with table.exec_permitted [of st "HFind k" "HValue r" st'] assms show ?thesis
    by (auto simp: ht_ok_def ht_map_def split: if_splits)
qed

lemma table_update:
  assumes "ht_ok T valid st" "vkey k" "\<And>w. valid w \<Longrightarrow> tr_extract T w = k \<Longrightarrow> valid (f w) \<and> tr_extract T (f w) = k"
  shows "\<exists>st'. ht_update_fn T k f st = Some (ht_map T st k \<noteq> None, st') \<and> ht_ok T valid st' \<and>
    ht_map T st' = (ht_map T st)(k := map_option f (ht_map T st k))"
proof -
  obtain r st' where f: "ht_update_fn T k f st = Some (r, st')" using ht_update_fn_spec [of st k f] assms by (auto simp: ht_ok_def)
  with table.exec_permitted [of st "HUpdate k f" "HDone r" st'] assms show ?thesis
    by (cases "hmap T (tbag st) k") (auto simp: ht_ok_def ht_map_def fun_upd_idem split: if_splits)
qed

lemma table_erase:
  assumes "ht_ok T valid st" "vkey k"
  shows "\<exists>st'. ht_erase_key T k st = Some (ht_map T st k \<noteq> None, st') \<and> ht_ok T valid st' \<and> ht_map T st' = (ht_map T st)(k := None)"
proof -
  obtain r st' where f: "ht_erase T k st = Some (r, st')" using ht_erase_spec [of st k] assms by (auto simp: ht_ok_def)
  with table.exec_permitted [of st "HErase k" "HValue r" st'] assms show ?thesis
    by (auto simp: ht_ok_def ht_map_def ht_erase_key_def split: if_splits)
qed

lemma table_insert:
  assumes "ht_ok T valid st" "valid v" "ht_map T st (tr_extract T v) = None" "ht_insert T (tr_extract T v) v st = Some (b, st')"
  shows "ht_ok T valid st' \<and> ht_map T st' = (if b then (ht_map T st)(tr_extract T v \<mapsto> v) else ht_map T st)"
  using table.exec_permitted [of st "HInsert v" "HDone b" st'] assms by (auto simp: ht_ok_def ht_map_def)

lemma table_key:
  assumes "ht_ok T valid st" "ht_map T st k = Some v"
  shows "tr_extract T v = k" "valid v"
proof -
  have ne: "with_key T k (tbag st) \<noteq> {#}" "v = (SOME w. w \<in># with_key T k (tbag st))" using assms(2) by (auto simp: ht_map_def hmap_def split: if_splits)
  then have "v \<in># with_key T k (tbag st)" by (metis multiset_nonemptyE someI_ex)
  then have v: "v \<in># tbag st" "tr_extract T v = k" by (simp_all add: with_key_def)
  then show "tr_extract T v = k" by simp
  have "placed T valid (levels (fst st)) (snd st)" using assms(1) by (cases st) (auto simp: ht_ok_def dest: ht_invD(2))
  then show "valid v" using v(1) by (auto simp: in_bag mem_locs placed_def)
qed

text \<open>A table with fewer entries than a bucket has slots takes one more.\<close>

lemma table_insert_small:
  assumes ok: "ht_ok T valid st" and small: "finite (dom (ht_map T st))" "card (dom (ht_map T st)) < kSlots" and v: "valid v"
  shows "\<exists>st'. ht_insert T (tr_extract T v) v st = Some (True, st')"
proof -
  obtain t m where st: "st = (t, m)" by (cases st)
  let ?c = "\<lparr>c_level = 0, c_base = ht_tl_offset t, c_idx = f_idx (mix_h1 (tr_hash T (tr_extract T v))) (ht_tl_n t)\<rparr>"
  have inv: "ht_inv T valid (t, m)" "keys_unique T (tbag (t, m))" using ok by (simp_all add: st ht_ok_def)
  have "2 \<le> ht_tl_n t" using ht_invD(1) [OF inv(1)] by (simp add: layout_ok_def levels_def)
  then have loc: "(c_base ?c, c_idx ?c, s) \<in> locs (levels t)" if "s < kSlots" for s using that by (auto simp: mem_locs levels_def)
  have "has_empty_slot (read_hr (c_base ?c) (c_idx ?c) m)"
  proof (rule ccontr)
    assume "\<not> ?thesis"
    then have full: "\<forall>s<kSlots. cell m (c_base ?c) (c_idx ?c) s \<noteq> None" by (simp add: room_cell)
    then have "size (cell_bag (cell m (c_base ?c) (c_idx ?c) s)) = 1" if "s < kSlots" for s
      using that by (cases "cell m (c_base ?c) (c_idx ?c) s") auto
    then have "kSlots = (\<Sum>s<kSlots. size (cell_bag (cell m (c_base ?c) (c_idx ?c) s)))" by simp
    also have "\<dots> = (\<Sum>(b, i, s)\<in>(\<lambda>s. (c_base ?c, c_idx ?c, s)) ` {..<kSlots}. size (cell_bag (cell m b i s)))"
      by (subst sum.reindex) (auto simp: inj_on_def)
    also have "\<dots> \<le> (\<Sum>(b, i, s)\<in>locs (levels t). size (cell_bag (cell m b i s)))"
      by (rule sum_mono2) (use loc in auto)
    also have "\<dots> = size (tbag st)" by (simp add: st bag_def size_multiset_sum case_prod_beta)
    also have "\<dots> = card (dom (ht_map T st))" using hmap_card [OF inv(2)] by (simp add: st ht_map_def)
    finally show False using small(2) by simp
  qed
  then show ?thesis using ht_insert_room [OF inv(1) v, of ?c] by (simp add: st get_candidates_def Let_def)
qed

end

text \<open>The directory entries in a level hash table.\<close>

definition level_dents :: "(u64 \<times> cstring, Dirent) ht_traits \<Rightarrow> Dirent hts dent_ops" where
  "level_dents T = \<lparr>dent_find = ht_find T, dent_insert = ht_insert T, dent_erase = ht_erase_key T\<rparr>"

interpretation level: dent_store "level_dents (dirent_traits hash_u64 hash_string)" "ht_ok (dirent_traits hash_u64 hash_string) valid_dirent"
  "ht_map (dirent_traits hash_u64 hash_string)" for hash_u64 hash_string
proof (unfold_locales, goal_cases)
  case (1 d k)
  then show ?case using dirents.table_find [OF 1 TrueI, of k] by (simp add: level_dents_def)
next
  case (2 d k)
  then show ?case using dirents.table_erase [OF 2 TrueI, of k] by (simp add: level_dents_def)
next
  case (3 d v k b d')
  have k: "tr_extract (dirent_traits hash_u64 hash_string) v = k" using 3(3) by (simp add: dirent_traits_def dirent_extract_def)
  show ?case using dirents.table_insert [OF 3(1,2), unfolded k, OF 3(4)] 3(5) by (simp add: level_dents_def)
next
  case (4 d k v)
  then show ?case using dirents.table_key [OF 4] by (simp add: dirent_traits_def dirent_extract_def)
qed

text \<open>The inodes in a level hash table (\<open>USING_INODE_ARRAY\<close> not defined).\<close>

definition level_inodes :: "Inode hts inode_ops" where
  "level_inodes = \<lparr>inode_find = ht_find inode_traits, inode_insert = ht_insert inode_traits,
     inode_update_fn = ht_update_fn inode_traits, inode_erase = ht_erase_key inode_traits\<rparr>"

interpretation level: inode_store level_inodes "ht_ok inode_traits (\<lambda>_. True)" "ht_map inode_traits" "\<lambda>_. True"
proof (unfold_locales, goal_cases)
  case (1 i k)
  then show ?case using inodes.table_find [OF 1 TrueI, of k] by (simp add: level_inodes_def)
next
  case (2 i f k)
  then show ?case using inodes.table_update [OF 2(1) TrueI, of k f] by (simp add: level_inodes_def inode_traits_def)
next
  case (3 i k)
  then show ?case using inodes.table_erase [OF 3 TrueI, of k] by (simp add: level_inodes_def)
next
  case (4 i k v b i')
  have k: "tr_extract inode_traits v = k" using 4(3) by (simp add: inode_traits_def)
  show ?case using inodes.table_insert [OF 4(1) TrueI, of v, unfolded k, OF 4(4)] 4(5) by (simp add: level_inodes_def)
qed

text \<open>The inodes in the inode array of server \<open>n\<close>; its \<open>insert\<close> always returns 1.\<close>

definition array_inodes :: "(InodeArray \<times> CXLMem) inode_ops" where
  "array_inodes =
    \<lparr>inode_find = (\<lambda>k (a, m). do { (r, a) \<leftarrow> ia_find k a m; Some (r, a, m) }),
     inode_insert = (\<lambda>k v (a, m). do { (a, m) \<leftarrow> ia_insert k v a m; Some (True, a, m) }),
     inode_update_fn = (\<lambda>k f (a, m). ia_update_fn k f a m),
     inode_erase = (\<lambda>k (a, m). do { (r, a, m) \<leftarrow> ia_erase k a m; Some (r \<noteq> None, a, m) })\<rparr>"

definition array_ok :: "nat \<Rightarrow> InodeArray \<times> CXLMem \<Rightarrow> bool" where
  "array_ok n s \<longleftrightarrow> ia_inv (fst s) (snd s) \<and> ia_meta_id (fst s) = n \<and> seg_at (ia_block_offs (fst s)) (snd s) n 0 \<noteq> 0"

lemma array_ok_step:
  assumes "array_ok n (a, m)" "ia_inv a' m'" "ia_meta_id a' = ia_meta_id a" "ia_block_offs a' = ia_block_offs a"
    "segs_grow (ia_meta_id a) (ia_block_offs a) m m'"
  shows "array_ok n (a', m')"
proof -
  have "n < 8" using assms(1) by (auto simp: array_ok_def ia_inv_def ia_cache_inv_def)
  then have "seg_at (ia_block_offs a) m' n 0 = seg_at (ia_block_offs a) m n 0" using assms(1,5) by (simp add: array_ok_def segs_grow_def)
  then show ?thesis using assms by (simp add: array_ok_def)
qed

definition array_map :: "InodeArray \<times> CXLMem \<Rightarrow> u64 \<Rightarrow> Inode option" where
  "array_map s = ia_abs (fst s) (snd s)"

interpretation array: inode_store array_inodes "array_ok n" array_map "\<lambda>k. key_meta k = n" for n
proof (unfold_locales, goal_cases)
  case (1 s k)
  obtain a m where s: "s = (a, m)" by (cases s)
  with 1 have inv: "ia_inv a m" by (simp add: array_ok_def)
  obtain a' where "ia_find k a m = Some (ia_abs a m k, a')" "ia_inv a' m" "ia_abs a' m = ia_abs a m" "ia_meta_id a' = ia_meta_id a"
    "ia_block_offs a' = ia_block_offs a" using ia_find_spec [OF inv] by metis
  then show ?case using 1 by (simp add: s array_inodes_def array_ok_def array_map_def)
next
  case (2 s f k)
  obtain a m where s: "s = (a, m)" by (cases s)
  with 2 have inv: "ia_inv a m" by (simp add: array_ok_def)
  obtain a' m' where "ia_update_fn k f a m = Some (ia_abs a m k \<noteq> None, a', m')" "ia_inv a' m'"
    "ia_abs a' m' = (ia_abs a m)(k := map_option f (ia_abs a m k))" "ia_meta_id a' = ia_meta_id a"
    "ia_block_offs a' = ia_block_offs a" "segs_grow (ia_meta_id a) (ia_block_offs a) m m'"
    using ia_update_fn_spec [OF inv] by metis
  then show ?case using array_ok_step [OF 2(1) [unfolded s]] by (simp add: s array_inodes_def array_map_def)
next
  case (3 s k)
  obtain a m where s: "s = (a, m)" by (cases s)
  with 3 have inv: "ia_inv a m" by (simp add: array_ok_def)
  obtain a' m' where "ia_erase k a m = Some (ia_abs a m k, a', m')" "ia_inv a' m'"
    "ia_abs a' m' = (ia_abs a m)(k := None)" "ia_meta_id a' = ia_meta_id a"
    "ia_block_offs a' = ia_block_offs a" "segs_grow (ia_meta_id a) (ia_block_offs a) m m'"
    using ia_erase_spec [OF inv] by metis
  then show ?case using array_ok_step [OF 3(1) [unfolded s]] by (simp add: s array_inodes_def array_map_def)
next
  case (4 s k v b s')
  obtain a m a' m' where s: "s = (a, m)" "s' = (a', m')" by (cases s; cases s') blast
  then have b: "b" "ia_insert k v a m = Some (a', m')" using 4(5) by (auto simp: array_inodes_def split: bind_splits)
  have "ia_inv a m" "own_key a k" using 4(1,2) by (simp_all add: s array_ok_def own_key_def)
  note I = ia_insert_spec [OF this b(2)]
  show ?case using I(2) b(1) array_ok_step [OF 4(1) [unfolded s] I(1,3-5)] by (simp add: s array_map_def)
qed

text \<open>The first segment of a server exists from the start, so that its ids are inserted without an allocation.\<close>

lemma array_insert_first:
  assumes "array_ok n s" "key_meta k = n" "key_seg k = 0"
  shows "\<exists>s'. inode_insert array_inodes k v s = Some (True, s')"
proof -
  obtain a m where s: "s = (a, m)" by (cases s)
  have "ia_inv a m" "own_key a k" "key_seg k < 1024" "seg_at (ia_block_offs a) m (ia_meta_id a) (key_seg k) \<noteq> 0"
    using assms by (auto simp: s array_ok_def own_key_def)
  then obtain a' m' where "ia_insert k v a m = Some (a', m')" using ia_insert_total [of a m k v] by auto
  then show ?thesis by (simp add: s array_inodes_def)
qed

text \<open>The service as it is built by default, and the one with both kinds of metadata in hash tables.\<close>

definition array_env ::
  "(u64 \<Rightarrow> u64) \<Rightarrow> (cstring \<Rightarrow> u64) \<Rightarrow> (u64 list \<Rightarrow> (u64 \<times> u64 list) option) \<Rightarrow> (Dirent hts, InodeArray \<times> CXLMem) md_env" where
  "array_env hash_u64 hash_string try_dequeue =
    \<lparr>env_dents = level_dents (dirent_traits hash_u64 hash_string), env_inodes = array_inodes, env_try_dequeue = try_dequeue\<rparr>"

definition table_env ::
  "(u64 \<Rightarrow> u64) \<Rightarrow> (cstring \<Rightarrow> u64) \<Rightarrow> (u64 list \<Rightarrow> (u64 \<times> u64 list) option) \<Rightarrow> (Dirent hts, Inode hts) md_env" where
  "table_env hash_u64 hash_string try_dequeue =
    \<lparr>env_dents = level_dents (dirent_traits hash_u64 hash_string), env_inodes = level_inodes, env_try_dequeue = try_dequeue\<rparr>"

text \<open>What the library promises of the queue of recycled ids: an element taken out was in it.\<close>

definition dequeues :: "(u64 list \<Rightarrow> (u64 \<times> u64 list) option) \<Rightarrow> bool" where
  "dequeues try_dequeue \<longleftrightarrow> (\<forall>q x q'. try_dequeue q = Some (x, q') \<longrightarrow> mset q = add_mset x (mset q'))"

lemma array_service:
  assumes "dequeues try_dequeue"
  shows "metadata_service (array_env hash_u64 hash_string try_dequeue) (ht_ok (dirent_traits hash_u64 hash_string) valid_dirent)
    (ht_map (dirent_traits hash_u64 hash_string)) (array_ok n) array_map (\<lambda>k. key_meta k = n)"
  unfolding metadata_service_def metadata_service_axioms_def array_env_def
  using assms level.dent_store_axioms array.inode_store_axioms by (simp add: dequeues_def)

lemma table_service:
  assumes "dequeues try_dequeue"
  shows "metadata_service (table_env hash_u64 hash_string try_dequeue) (ht_ok (dirent_traits hash_u64 hash_string) valid_dirent)
    (ht_map (dirent_traits hash_u64 hash_string)) (ht_ok inode_traits (\<lambda>_. True)) (ht_map inode_traits) (\<lambda>_. True)"
  unfolding metadata_service_def metadata_service_axioms_def table_env_def
  using assms level.dent_store_axioms level.inode_store_axioms by (simp add: dequeues_def)

section \<open>Starting a server\<close>

lemma locate_loop_inodes:
  "locate_loop E path offset ino p e md = Some (r, md') \<Longrightarrow> md_ihashtable md' = md_ihashtable md"
proof (induction E path offset ino p e md arbitrary: r rule: locate_loop.induct)
  case (1 E path offset ino p e md)
  show ?case
  proof (cases "offset < length path")
    case True
    let ?n = "takeWhile (\<lambda>c. c \<noteq> slash) (drop offset path)"
    obtain x md1 where f: "on_dents (dent_find (env_dents E) (ino, ?n)) md = Some (x, md1)" using 1(2) True
      by (subst (asm) locate_loop.simps) (auto simp: Let_def split: bind_splits)
    then have i: "md_ihashtable md1 = md_ihashtable md" by (auto simp: on_dents_def split: bind_splits)
    show ?thesis
    proof (cases x)
      case None
      then show ?thesis using 1(2) True f i by (subst (asm) locate_loop.simps) (auto simp: Let_def)
    next
      case (Some d)
      have "locate_loop E path (offset + length ?n + 1) (d_id d) ino (Some d) md1 = Some (r, md')"
        using 1(2) True f Some by (subst (asm) locate_loop.simps) (simp add: Let_def)
      from 1(1) [OF True refl refl f refl Some this] i show ?thesis by simp
    qed
  qed (use 1(2) in \<open>subst (asm) locate_loop.simps, simp\<close>)
qed

lemma Allocate_stores:
  "AllocateInodeId E md = (ino, mi) \<Longrightarrow> md_dhashtable mi = md_dhashtable md \<and> md_ihashtable mi = md_ihashtable md"
  by (auto simp: AllocateInodeId_def Let_def split: if_splits option.splits)

context metadata_service
begin

text \<open>\<open>Init\<close> on empty stores gives the root directory; another server joins an existing namespace.\<close>

lemma Init_ok:
  assumes n: "n < 8" and d: "dinv d" and i: "iinv i" and own: "\<And>x. unat x div 2 ^ 50 = n \<Longrightarrow> own x"
    and s: "if n = 0 then dabs d = Map.empty \<and> iabs i = Map.empty else fs_ok (dabs d) (iabs i) \<and> (\<forall>x. unat x div 2 ^ 50 = n \<longrightarrow> iabs i x = None)"
    and e: "md_Init E n now d i wal = Some md" "md_failures md = []"
  shows "md_ok md"
proof -
  define base mx :: u64 where "base = push_bit INODE_ID_RANGE (of_nat n)" and "mx = push_bit INODE_ID_RANGE (of_nat (n + 1))"
  have u: "unat base = n * 2 ^ 50" "unat mx = (n + 1) * 2 ^ 50"
    using n by (auto simp: base_def mx_def INODE_ID_RANGE_def push_bit_eq_mult unat_mult_lem unat_of_nat unat_word_ariths)
  have u1: "unat (base + kRootId) = n * 2 ^ 50 + 2" "unat (base + kRootId + 1) = n * 2 ^ 50 + 3"
    using n u by (simp_all add: kRootId_def unat_word_ariths)
  have rng: "base \<le> x \<and> x < mx \<longleftrightarrow> unat x div 2 ^ 50 = n" for x
    using u by (auto simp: word_le_nat_alt word_less_nat_alt div_nat_eqI dest: less_mult_imp_div_less)
  let ?md = "\<lparr>md_recycled_ids = [], md_min_unused_id = base + kRootId + 1, md_min_avail_id = 0, md_base_id = base,
    md_max_id = mx, md_dhashtable = d, md_ihashtable = i, md_wal = wal, md_tls = no_tls, md_failures = []\<rparr>"
  have inv: "md_inv ?md" using d i by (simp add: md_inv_def)
  have ids: "ids_ok J md'" if "md_ids md' = md_ids ?md" "\<And>x. J x \<noteq> None \<Longrightarrow> x = kRootId \<or> \<not> (base \<le> x \<and> x < mx)" for J md'
  proof -
    have "md_recycled_ids md' = []" "md_min_unused_id md' = base + kRootId + 1" "md_base_id md' = base" "md_max_id md' = mx"
      using that(1) by (simp_all add: md_ids_def)
    moreover have "0 < base + kRootId + 1" "base + kRootId < base + kRootId + 1" "base \<le> base + kRootId" "base + kRootId + 1 \<le> mx"
      using u u1 by (simp_all add: word_le_nat_alt word_less_nat_alt)
    moreover have "kRootId < base + kRootId + 1" using u1 by (simp add: word_less_nat_alt kRootId_def)
    ultimately show ?thesis using that(2) by (auto simp: ids_ok_def)
  qed
  show ?thesis
  proof (cases "n = 0")
    case True
    let ?r = "Inode_new kRootId 1 (0x1ED OR S_IFDIR) 1 2 now now now"
    have p: "PutInode E kRootId ?r ?md = Some md" using e(1) True by (simp add: md_Init_def Let_def base_def mx_def)
    obtain b where b: "eff (D ?md) (if b then (I ?md)(kRootId \<mapsto> ?r) else I ?md) (if b then [] else [PutInodeFailed kRootId]) ?md md"
      by (rule put_step [OF inv own _ _ p]) (use s True in \<open>simp_all add: kRootId_def Inode_new_def\<close>)
    then have "b" using effD(4) [OF b] e(2) by (auto split: if_splits)
    then have E: "eff Map.empty [kRootId \<mapsto> ?r] [] ?md md" using b s True by simp
    have "fs_ok Map.empty [kRootId \<mapsto> ?r]"
      by (auto simp: fs_ok_def entries_ok_def counts_ok_def is_dir_def Inode_new_def kRootId_def S_IFDIR_def children_def links_def no_dc_def no_dl_def split: if_splits)
    moreover have "ids_ok [kRootId \<mapsto> ?r] md" by (rule ids [OF effD(5) [OF E]]) (simp split: if_splits)
    ultimately show ?thesis using effD [OF E] own rng
      by (auto simp: md_consistent_def md_inv_def md_ids_def split: if_splits)
  next
    case False
    then have m: "md = ?md" using e(1) by (simp add: md_Init_def Let_def base_def mx_def)
    have "\<not> (base \<le> x \<and> x < mx)" if "iabs i x \<noteq> None" for x using s False that rng by auto
    then show ?thesis unfolding m using inv own rng s False by (auto simp: md_consistent_def md_inv_def intro!: ids)
  qed
qed

lemma Create_returns:
  assumes ok: "md_ok md" and room: "md_min_unused_id md < md_max_id md" and m: "resolve (D md) kRootId path = Missing dir n True" and n: "length n < 64"
    and a: "AllocateInodeId E md = (ino, mi)"
    and put: "\<And>v. \<exists>i'. inode_insert (env_inodes E) ino v (md_ihashtable md) = Some (True, i')"
    and add: "\<And>d e. dinv d \<Longrightarrow> dabs d = D md \<Longrightarrow> valid_dirent e \<Longrightarrow> d_pid e = dir \<Longrightarrow> d_name e = n \<Longrightarrow> \<exists>d'. dent_insert (env_dents E) (dir, n) e d = Some (True, d')"
  shows "\<exists>r md'. md_Create E now ms path mode uid gid buf md = Some (r, md') \<and> md_failures md' = md_failures md"
proof -
  obtain md1 where l: "LocateInode E path 0 md = Some (loc_of (Missing dir n True), md1)" and s1: "eff (D md) (I md) [] md md1"
    using LocateInode_spec [OF okD(1) [OF ok], of path 0] m by auto
  have i1: "md_ihashtable md1 = md_ihashtable md" using l locate_loop_inodes by (fastforce simp: LocateInode_def)
  have dir: "D md (dir, n) = None" "I md dir \<noteq> None" "dir \<noteq> 0"
    using ok_missing [OF ok m root_nonzero] resolve_exists(1) [OF ok root_exists [OF ok] m] okD(2) [OF ok] by (auto simp: fs_ok_def entries_ok_def)
  obtain md2 where a2: "AllocateInodeId E md1 = (ino, md2)" and f2: "md_ids md2 = md_ids mi" "md_dhashtable md2 = md_dhashtable md1" "md_ihashtable md2 = md_ihashtable md1"
      "md_failures md2 = md_failures md1"
    using Alloc_ids [OF effD(5) [OF s1] a] by blast
  define ty where "ty = (if buf \<noteq> None then DT_REG else DT_DIR)"
  define mo where "mo = (if ty = DT_DIR then mode OR S_IFDIR else mode OR S_IFREG)"
  define e where "e = new_entry ino dir (buf \<noteq> None) n"
  have e: "Dirent_new ino dir (ucast ty) n = Some e" using n by (simp add: Dirent_new_def e_def new_entry_def ty_def kMaxFilenameLen_def dt_consts)
  have ve: "valid_dirent e" "d_pid e = dir" "d_name e = n" using n by (simp_all add: e_def new_entry_def valid_dirent_def)
  let ?m = "MakeCreate ino dir mo uid gid ty n (of_nat (length n))" and ?ov = "BuildOverflow n (of_nat (length n))"
  obtain sq mdw where w: "on_wal (LogCreate ms ino dir mo uid gid ty n (of_nat (length n))) md2 = Some (sq, mdw)" and lg: "logs ?m ?ov sq md2 mdw"
    using log_step [of ?m ?ov ms md2] short_overflow [OF n] by (auto simp: LogCreate_def [abs_def])
  note ls = logs_same [OF lg]
  let ?node = "Inode_new ino 1 mo uid gid now now now"
  have c: "md_Create E now ms path mode uid gid buf md = (if sq = 0 then Some ((Result_mark (- EAGAIN), buf), FreeInodeId ino mdw) else
      do { md \<leftarrow> PutInode E ino ?node mdw; md \<leftarrow> AddDirectoryEntry E e dir True md;
           Some ((Result_mark 0, if buf \<noteq> None then Some ?node else None), md) })"
    using l a2 e w dir(3) by (simp add: md_Create_def loc_of_def create_node_def ty_def mo_def cong: if_cong)
  show ?thesis
  proof (cases "sq = 0")
    case True
    then show ?thesis using c ls f2 effD(4) [OF s1] by simp
  next
    case False
    obtain i' where i: "inode_insert (env_inodes E) ino ?node (md_ihashtable mdw) = Some (True, i')" using put [of ?node] ls(2) f2(3) i1 by auto
    define md3 where "md3 = mdw\<lparr>md_ihashtable := i'\<rparr>"
    have p: "PutInode E ino ?node mdw = Some md3" using i by (simp add: PutInode_def on_inodes_def report_def md3_def)
    note A = alloc_step [OF okD(3) [OF ok] room a]
    have "md_base_id md \<le> ino" "ino < md_max_id md" using A unfolding reserved_def ids_ok_def by (metis order_less_imp_le order_trans, metis order_less_le_trans)
    then have own: "own ino" by (rule okD(4) [OF ok])
    have J: "D mdw = D md" "I mdw = I md" "md_inv mdw" using ls f2 i1 effD [OF s1] by (simp_all add: md_inv_def)
    have free: "I md ino = None" using A(2) by (simp add: reserved_def)
    have law: "iinv i' \<and> iabs i' = (I md)(ino \<mapsto> ?node)"
      using inode_insert_law [OF _ own _ _ i] J free by (simp add: Inode_new_def md_inv_def)
    have inv3: "md_inv md3" and D3: "D md3 = D md" and I3: "I md3 dir \<noteq> None" using J law dir(2) by (simp_all add: md3_def md_inv_def)
    obtain md4 where u: "on_inodes (inode_update_fn (env_inodes E) dir (\<lambda>cur. cur\<lparr>i_extra := i_extra cur + 1\<rparr>)) md3 = Some (True, md4)"
      and s4: "eff (D md3) ((I md3)(dir := map_option (\<lambda>cur. cur\<lparr>i_extra := i_extra cur + 1\<rparr>) (I md3 dir))) [] md3 md4"
      using inode_update_step [OF inv3, of "\<lambda>cur. cur\<lparr>i_extra := i_extra cur + 1\<rparr>" dir] I3 by auto
    obtain d' where "dent_insert (env_dents E) (dir, n) e (md_dhashtable md4) = Some (True, d')"
      using add [of "md_dhashtable md4" e] effD(1,2) [OF s4] D3 ve by (auto simp: md_inv_def)
    then have "AddDirectoryEntry E e dir True md3 = Some (md4\<lparr>md_dhashtable := d'\<rparr>)"
      using u ve by (simp add: AddDirectoryEntry_def on_dents_def report_def)
    then show ?thesis using c p False effD(4) [OF s4] ls(3) f2(4) effD(4) [OF s1] by (simp add: md3_def)
  qed
qed

end

section \<open>The service of the default build\<close>

definition array_dents :: "(u64 \<Rightarrow> u64) \<Rightarrow> (cstring \<Rightarrow> u64) \<Rightarrow> (Dirent hts, 'i) Metadata \<Rightarrow> dmap" where
  "array_dents hash_u64 hash_string md = ht_map (dirent_traits hash_u64 hash_string) (md_dhashtable md)"

definition array_imap :: "('d, InodeArray \<times> CXLMem) Metadata \<Rightarrow> imap" where
  "array_imap md = array_map (md_ihashtable md)"

definition array_consistent ::
  "(u64 \<Rightarrow> u64) \<Rightarrow> (cstring \<Rightarrow> u64) \<Rightarrow> nat \<Rightarrow> (Dirent hts, InodeArray \<times> CXLMem) Metadata \<Rightarrow> bool" where
  "array_consistent hash_u64 hash_string n =
    md_consistent (ht_ok (dirent_traits hash_u64 hash_string) valid_dirent) (ht_map (dirent_traits hash_u64 hash_string))
      (array_ok n) array_map (\<lambda>k. key_meta k = n)"

lemmas array_service_defs = array_dents_def array_imap_def array_consistent_def

text \<open>A concrete server: identity and length as hash functions, a first-in-first-out queue, one blank pool per store.\<close>

definition fifo :: "u64 list \<Rightarrow> (u64 \<times> u64 list) option" where
  "fifo q = (case q of [] \<Rightarrow> None | x # q \<Rightarrow> Some (x, q))"

lemma fifo_dequeues: "dequeues fifo"
  by (auto simp: dequeues_def fifo_def split: list.splits)

definition ex_env :: "(Dirent hts, InodeArray \<times> CXLMem) md_env" where
  "ex_env = array_env (\<lambda>x. x) (\<lambda>s. of_nat (length s)) fifo"

interpretation ex: metadata_service ex_env "ht_ok ex_traits valid_dirent" "ht_map ex_traits" "array_ok n" array_map "\<lambda>k. key_meta k = n" for n
  unfolding ex_env_def ex_traits_def by (rule array_service [OF fifo_dequeues])

lemma ex_consistent: "array_consistent (\<lambda>x. x) (\<lambda>s. of_nat (length s)) n = md_consistent (ht_ok ex_traits valid_dirent) (ht_map ex_traits) (array_ok n) array_map (\<lambda>k. key_meta k = n)"
  by (simp add: array_consistent_def ex_traits_def)

lemma ex_dents: "array_dents (\<lambda>x. x) (\<lambda>s. of_nat (length s)) md = ht_map ex_traits (md_dhashtable md)"
  by (simp add: array_dents_def ex_traits_def)

definition root_inode :: "u64 \<Rightarrow> Inode" where
  "root_inode now = Inode_new kRootId 1 (0x1ED OR S_IFDIR) 1 2 now now now"

lemma ex_stores:
  obtains d i where "ht_ok ex_traits valid_dirent d" "ht_map ex_traits d = Map.empty" "array_ok 0 i" "array_map i = Map.empty"
proof -
  obtain st where inv: "ht_inv ex_traits valid_dirent (enable_resize 0 1 st)" and bag: "tbag (enable_resize 0 1 st) = {#}" by (rule ex_table)
  define d where "d = enable_resize 0 1 st"
  have "keys_unique ex_traits (tbag d)" "hmap ex_traits (tbag d) = Map.empty" unfolding d_def bag by (rule keys_unique_empty)+
  then have d: "ht_ok ex_traits valid_dirent d" "ht_map ex_traits d = Map.empty"
    using inv by (simp_all add: ht_ok_def ht_map_def d_def)
  let ?s = "fresh_cluster 64 (2 ^ 40)"
  have s: "cluster_inv ?s" "cluster_abs ?s = (\<lambda>_. None)" by (rule fresh_cluster_inv; simp)+
  then have mi: "ia_mem_inv (dfs_inode_array_block_offset (cl_dfs ?s)) (cl_mem ?s)" by (simp add: cluster_inv_def cl_offs_def)
  have z: "dfs_inode_array_block_offset (cl_dfs ?s) j = 0" for j by (simp add: fresh_cluster_def)
  have "na_offset (cm_alloc (cl_mem ?s)) + (round64 kBlockSize + kSegmentSize) \<le> na_capacity (cm_alloc (cl_mem ?s))"
    by (simp add: fresh_cluster_def na_Init_def ia_consts round64_def)
  then obtain dfs a m where N: "InodeArray_new 0 1 0 (cl_dfs ?s) (cl_mem ?s) = Some (dfs, a, m)"
    unfolding InodeArray_new_def using InitBlock_ok [OF mem_invD(1) [OF mi]] by blast
  have base: "(0 :: u64) = push_bit 50 (of_nat 0)" by simp
  have lt: "(0 :: nat) < 8" by simp
  note S = InodeArray_new_spec(3,5) [of "cl_dfs ?s" "cl_mem ?s" 0 0 1 dfs a m 1, OF mi lt z base N]
  let ?a = "ia_SetMds 1 dfs a"
  have "ia_exec Join ?s = Some (RDone, \<lparr>cl_dfs = dfs, cl_arrays = [?a], cl_mem = m\<rparr>)"
    using N by (simp add: fresh_cluster_def)
  from cluster_join [OF s(1) _ this] have "cluster_abs \<lparr>cl_dfs = dfs, cl_arrays = [?a], cl_mem = m\<rparr> = (\<lambda>_. None)"
    and B: "ia_block_offs ?a = dfs_inode_array_block_offset dfs" "ia_meta_id ?a = 0"
    using s(2) clusterD(2,3) [of "\<lparr>cl_dfs = dfs, cl_arrays = [?a], cl_mem = m\<rparr>" 0] by (auto simp: fresh_cluster_def cl_offs_def)
  moreover have "cluster_abs \<lparr>cl_dfs = dfs, cl_arrays = [?a], cl_mem = m\<rparr> = ia_abs ?a m"
    by (simp add: fun_eq_iff cluster_abs_def ia_abs_def cl_offs_def Let_def B(1) [unfolded One_nat_def])
  ultimately have "ia_abs ?a m = Map.empty" "ia_meta_id ?a = 0" by simp_all
  then have "array_ok 0 (?a, m)" "array_map (?a, m) = Map.empty" using S by (simp_all add: array_ok_def array_map_def)
  then show ?thesis by (rule that [OF d])
qed

text \<open>Stores with given contents, as long as they are few and their ids are in the first segment of server 0.\<close>

definition dents_map :: "Dirent list \<Rightarrow> dmap" where
  "dents_map es = map_of (map (\<lambda>e. ((d_pid e, d_name e), e)) es)"

definition inodes_map :: "Inode list \<Rightarrow> imap" where
  "inodes_map is = map_of (map (\<lambda>v. (i_id v, v)) is)"

lemma ex_dents_store:
  assumes "length es \<le> kSlots" "list_all valid_dirent es" "distinct (map (\<lambda>e. (d_pid e, d_name e)) es)"
  shows "\<exists>d. ht_ok ex_traits valid_dirent d \<and> ht_map ex_traits d = dents_map es"
  using assms
proof (induction es)
  case Nil
  obtain d i where "ht_ok ex_traits valid_dirent d" "ht_map ex_traits d = Map.empty" "array_ok 0 i" "array_map i = Map.empty" by (rule ex_stores)
  then show ?case by (intro exI [of _ d]) (simp add: dents_map_def)
next
  case (Cons e es)
  then obtain d where d: "ht_ok ex_traits valid_dirent d" "ht_map ex_traits d = dents_map es" by auto
  have k: "tr_extract ex_traits e = (d_pid e, d_name e)" by (simp add: ex_traits_def dirent_traits_def dirent_extract_def)
  have n: "dents_map es (d_pid e, d_name e) = None" using Cons.prems(3) by (auto simp: dents_map_def map_of_eq_None_iff)
  have "dom (dents_map es) = (\<lambda>e. (d_pid e, d_name e)) ` set es" by (simp add: dents_map_def dom_map_of_conv_image_fst image_image)
  then have "finite (dom (dents_map es))" "card (dom (dents_map es)) < kSlots"
    using Cons.prems(1) card_image_le [of "set es" "\<lambda>e. (d_pid e, d_name e)"] card_length [of es] by auto
  then obtain d' where i: "ht_insert ex_traits (tr_extract ex_traits e) e d = Some (True, d')"
    using dirents.table_insert_small [of "\<lambda>x. x" "\<lambda>s. of_nat (length s)" d e, folded ex_traits_def]
      d Cons.prems(2) by (auto simp del: split_paired_Ex)
  have "ht_ok ex_traits valid_dirent d' \<and> ht_map ex_traits d' = (if True then (ht_map ex_traits d)(tr_extract ex_traits e \<mapsto> e) else ht_map ex_traits d)"
    by (rule dirents.table_insert [of "\<lambda>x. x" "\<lambda>s. of_nat (length s)", folded ex_traits_def, OF d(1) _ _ i]) (use d(2) n k Cons.prems(2) in simp_all)
  then show ?case using d(2) k by (intro exI [of _ d']) (simp add: dents_map_def fun_upd_def)
qed

lemma ex_inodes_store:
  assumes "list_all (\<lambda>v. key_meta (i_id v) = 0 \<and> key_seg (i_id v) = 0) is" "distinct (map i_id is)"
  shows "\<exists>i. array_ok 0 i \<and> array_map i = inodes_map is"
  using assms
proof (induction "is")
  case Nil
  obtain d i where "ht_ok ex_traits valid_dirent d" "ht_map ex_traits d = Map.empty" "array_ok 0 i" "array_map i = Map.empty" by (rule ex_stores)
  then show ?case by (intro exI [of _ i]) (simp add: inodes_map_def)
next
  case (Cons v vs)
  then obtain i where i: "array_ok 0 i" "array_map i = inodes_map vs" by auto
  have n: "array_map i (i_id v) = None" using Cons.prems(2) i(2) by (auto simp: inodes_map_def map_of_eq_None_iff)
  obtain i' where e: "inode_insert array_inodes (i_id v) v i = Some (True, i')" using array_insert_first [OF i(1), of "i_id v" v] Cons.prems(1) by (auto simp del: split_paired_Ex)
  from array.inode_insert_law [OF i(1) _ refl n this] show ?case using Cons.prems(1) i(2) by (intro exI [of _ i']) (simp add: inodes_map_def fun_upd_def)
qed

text \<open>A small tree: \<open>/a\<close> is a directory with the file \<open>/a/c\<close>, and \<open>/b\<close> is a file.\<close>

definition ex_entries :: "Dirent list" where
  "ex_entries = [new_entry 3 2 False [97], new_entry 4 2 True [98], new_entry 5 3 True [99]]"

definition ex_inodes :: "Inode list" where
  "ex_inodes = [(Inode_new 2 1 0x41ED 1 2 0 0 0)\<lparr>i_extra := 2\<rparr>, (Inode_new 3 1 0x41ED 1 2 0 0 0)\<lparr>i_extra := 1\<rparr>,
     Inode_new 4 1 0x81A4 1 2 0 0 0, Inode_new 5 1 0x81A4 1 2 0 0 0]"

lemma ex_dents_Some:
  "dents_map ex_entries k = Some e \<longleftrightarrow> k = (2, [97]) \<and> e = new_entry 3 2 False [97] \<or> k = (2, [98]) \<and> e = new_entry 4 2 True [98] \<or>
    k = (3, [99]) \<and> e = new_entry 5 3 True [99]"
  by (simp add: dents_map_def ex_entries_def new_entry_def) (cases k, auto)

lemma ex_inodes_at:
  "inodes_map ex_inodes k = (if k = 2 then Some ((Inode_new 2 1 0x41ED 1 2 0 0 0)\<lparr>i_extra := 2\<rparr>)
    else if k = 3 then Some ((Inode_new 3 1 0x41ED 1 2 0 0 0)\<lparr>i_extra := 1\<rparr>)
    else if k = 4 then Some (Inode_new 4 1 0x81A4 1 2 0 0 0) else if k = 5 then Some (Inode_new 5 1 0x81A4 1 2 0 0 0) else None)"
  by (simp add: inodes_map_def ex_inodes_def Inode_new_def)

lemma ex_fs_ok: "fs_ok (dents_map ex_entries) (inodes_map ex_inodes)"
proof -
  let ?D = "dents_map ex_entries" and ?I = "inodes_map ex_inodes"
  have dom: "dom ?D = {(2, [97]), (2, [98]), (3, [99])}" unfolding dom_def not_None_eq ex_dents_Some by blast
  have "children ?D n = {k \<in> dom ?D. fst k = n}" for n by (simp add: children_def dom_def)
  then have ch: "children ?D n = (if n = 2 then {(2, [97]), (2, [98])} else if n = 3 then {(3, [99])} else {})" for n
    unfolding dom by auto
  have v: "?D (2, [97]) = Some (new_entry 3 2 False [97])" "?D (2, [98]) = Some (new_entry 4 2 True [98])" "?D (3, [99]) = Some (new_entry 5 3 True [99])"
    by (simp_all add: ex_dents_Some)
  have L: "links ?D n = {k \<in> dom ?D. d_id (the (?D k)) = n}" for n by (auto simp: links_def)
  have li: "links ?D n = (if n = 3 then {(2, [97])} else if n = 4 then {(2, [98])} else if n = 5 then {(3, [99])} else {})" for n
    unfolding L dom by (auto simp: v new_entry_def)
  have "entry_ok ?I k e" if "?D k = Some e" for k e
    using that unfolding ex_dents_Some entry_ok_def
    by (elim disjE) (simp_all add: ex_inodes_at new_entry_def valid_dirent_def is_dir_def Inode_new_def kRootId_def S_IFDIR_def DT_DIR_def DT_REG_def)
  then have "entries_ok ?D ?I"
    unfolding entries_ok_def dom by (simp add: ex_inodes_at is_dir_def Inode_new_def kRootId_def S_IFDIR_def)
  moreover have "counts_ok ?D ?I no_dl no_dc"
    unfolding counts_ok_def ch li ex_inodes_at by (simp add: Inode_new_def kRootId_def no_dl_def no_dc_def)
  ultimately show ?thesis unfolding fs_ok_def li ex_inodes_at by (simp add: kRootId_def)
qed

text \<open>A server that keeps that tree.\<close>

definition ex_server :: "(Dirent hts, InodeArray \<times> CXLMem) Metadata \<Rightarrow> bool" where
  "ex_server md \<longleftrightarrow> array_consistent (\<lambda>x. x) (\<lambda>s. of_nat (length s)) 0 md \<and>
    array_dents (\<lambda>x. x) (\<lambda>s. of_nat (length s)) md = dents_map ex_entries \<and> array_imap md = inodes_map ex_inodes \<and>
    md_min_unused_id md = 6 \<and> md_max_id md = 2 ^ 50 \<and> md_recycled_ids md = [] \<and> md_wal md = empty_wal 8 0 \<and> md_failures md = []"

lemma ex_server_exists: "\<exists>md. ex_server md"
proof -
  obtain d where d: "ht_ok ex_traits valid_dirent d" "ht_map ex_traits d = dents_map ex_entries"
    using ex_dents_store [of ex_entries] by (auto simp: ex_entries_def new_entry_def valid_dirent_def kSlots_def)
  obtain i where i: "array_ok 0 i" "array_map i = inodes_map ex_inodes"
    using ex_inodes_store [of ex_inodes] by (auto simp: ex_inodes_def Inode_new_def key_meta_def key_seg_def)
  let ?md = "\<lparr>md_recycled_ids = [], md_min_unused_id = 6, md_min_avail_id = 0, md_base_id = 0, md_max_id = 2 ^ 50, md_dhashtable = d,
    md_ihashtable = i, md_wal = empty_wal 8 0, md_tls = no_tls, md_failures = []\<rparr>"
  have "ids_ok (inodes_map ex_inodes) ?md" unfolding ids_ok_def ex_inodes_at by (auto simp: kRootId_def split: if_splits)
  moreover have "key_meta x = 0" if "x < 2 ^ 50" for x :: u64 using that by (simp add: key_meta_def word_less_nat_alt)
  ultimately have "array_consistent (\<lambda>x. x) (\<lambda>s. of_nat (length s)) 0 ?md"
    unfolding ex_consistent md_consistent_def using d i ex_fs_ok by simp
  then have "ex_server ?md" using d i by (simp add: ex_server_def ex_dents array_imap_def)
  then show ?thesis ..
qed

end
