(* ===== verification/MetadataService.thy ===== *)
theory MetadataService
  imports MetadataStores
begin

text \<open>
  The metadata service on its stores: what clients see of each operation, and the properties of the service of the
  default build (entries in a level hash table, inodes in the inode array).
\<close>

unbundle bit_operations_syntax

section \<open>What clients see\<close>

text \<open>The states before and after agree on the name space and the log.\<close>

definition same_namespace ::
  "('d \<Rightarrow> dmap) \<Rightarrow> ('i \<Rightarrow> imap) \<Rightarrow> ('d, 'i) Metadata \<Rightarrow> ('d, 'i) Metadata \<Rightarrow> bool" where
  "same_namespace dabs iabs md md' \<longleftrightarrow> dabs (md_dhashtable md') = dabs (md_dhashtable md) \<and> iabs (md_ihashtable md') = iabs (md_ihashtable md) \<and>
    md_failures md' = md_failures md \<and> md_wal md' = md_wal md"

text \<open>The log has one record more, with continuation bytes \<open>ov\<close>.\<close>

definition logged :: "CompactLogEntry \<Rightarrow> byte list \<Rightarrow> ('d, 'i) Metadata \<Rightarrow> ('d, 'i) Metadata \<Rightarrow> bool" where
  "logged e ov md md' \<longleftrightarrow> (wal_inv (md_wal md) \<longrightarrow> wal_inv (md_wal md') \<and> (\<exists>sq. appended e ov sq (md_wal md) (md_wal md')))"

context metadata_service
begin

lemma post_same: "post (D md) (I md) [] mi None md md' \<Longrightarrow> same_namespace dabs iabs md md'"
  by (auto simp: post_def same_namespace_def)

lemma post_logs: "post D' I' fs mi (Some (e, ov)) md md' \<Longrightarrow> D md' = D' \<and> I md' = I' \<and> md_failures md' = md_failures md @ fs \<and> logged e ov md md'"
  by (auto simp: post_def logged_def)

lemma locate_client:
  assumes "md_ok md"
  shows "\<exists>md'. LocateInode E path q md = Some (loc_of (resolve (D md) (if q \<noteq> 0 then q else kRootId) path), md') \<and>
    md_ok md' \<and> same_namespace dabs iabs md md'"
  using LocateInode_spec [OF okD(1) [OF assms], of path q] look_ok [OF assms] effD by (fastforce simp: same_namespace_def)

lemma access_client:
  assumes "md_ok md"
  shows "\<exists>md'. md_Access E path mode uid gid md = Some (Result_mark (case resolve (D md) kRootId path of
      Missing _ _ _ \<Rightarrow> -1 | Reached ino _ _ \<Rightarrow> (case I md ino of None \<Rightarrow> -1 | Some i \<Rightarrow> if access_ok mode uid gid i then 0 else -1)), md') \<and>
    md_ok md' \<and> same_namespace dabs iabs md md'"
proof -
  obtain md' where a: "md_Access E path mode uid gid md = Some (Result_mark (case resolve (D md) kRootId path of
      Missing _ _ _ \<Rightarrow> -1 | Reached ino _ _ \<Rightarrow> (case I md ino of None \<Rightarrow> -1 | Some i \<Rightarrow> if access_ok mode uid gid i then 0 else -1)), md')"
    and e: "eff (D md) (I md) [] md md'" using Access_spec [OF assms] by blast
  have "md_ok md'" "same_namespace dabs iabs md md'" using look_ok [OF assms e] effD [OF e] by (simp_all add: same_namespace_def)
  with a show ?thesis by blast
qed

lemma unlink_client:
  assumes ok: "md_ok md" and ns: "names_of path \<noteq> []"
  shows "\<exists>r md'. md_Unlink E now path b md = Some (r, md') \<and> md_ok md' \<and>
    (case resolve (D md) kRootId path of
       Missing _ _ _ \<Rightarrow> r = Result_mark (-1) \<and> same_namespace dabs iabs md md'
     | Reached ino p ent \<Rightarrow> \<exists>d i. ent = Some d \<and> D md (p, d_name d) = Some d \<and> d_id d = ino \<and> I md ino = Some i \<and>
         (let len = of_nat (length (d_name d)); I1 = upd_extra (- 1) p (upd_nlink (- 1) ino (I md)) in
          r = Result_mark (- EAGAIN) \<and> same_namespace dabs iabs md md' \<or>
          logged (MakeUnlink ino p (d_name d) len) (BuildOverflow (d_name d) len) md md' \<and> md_failures md' = md_failures md \<and>
          (if unlink_error b i then r = Result_mark (-1) \<and> D md' = D md \<and> I md' = I md
           else r = Result_mark 0 \<and> D md' = (D md)((p, d_name d) := None) \<and> I md' = (if i_nlink i - 1 = 0 then I1(ino := None) else I1))))"
proof (cases "resolve (D md) kRootId path")
  case (Missing x y z)
  obtain r md' where u: "md_Unlink E now path b md = Some (r, md')" "r = Result_mark (-1)" "post (D md) (I md) [] md None md md'"
    using Unlink_spec [OF ok ns, of now b] unfolding Missing walked.case by blast
  show ?thesis using u Unlink_ok [OF ok ns u(1)] post_same [OF u(3)] Missing by auto
next
  case (Reached ino p ent)
  obtain d i res md' where u: "ent = Some d" "d_id d = ino" "D md (p, d_name d) = Some d" "I md ino = Some i"
    "md_Unlink E now path b md = Some (res, md')" "unlink_post b p d i md res md'"
    by (rule Unlink_reached [OF ok ns Reached])
  from u(6) [unfolded unlink_post_def Let_def u(2)] show ?thesis unfolding Reached walked.case
    using u(1-5) Unlink_ok [OF ok ns u(5)] by (elim disjE conjE) (auto simp: Let_def dest: post_same post_logs)
qed

text \<open>A new name: what the service returns, and the two maps afterwards unless a store refused.\<close>

lemma create_client:
  assumes ok: "md_ok md" and room: "md_room dabs md" and m: "resolve (D md) kRootId path = Missing dir n True" and dir: "dir_at (I md) dir"
    and md: "buf \<noteq> None \<Longrightarrow> mode AND S_IFDIR = 0"
    and r: "md_Create E now ms path mode uid gid buf md = Some ((r, buf'), md')"
  shows "\<exists>ino mi. AllocateInodeId E md = (ino, mi) \<and>
    (let file = (buf \<noteq> None); node = Inode_new ino 1 (new_mode file mode) uid gid now now now; len = of_nat (length n) in
     r = Result_mark (- EAGAIN) \<and> buf' = buf \<and> md_ok md' \<and> same_namespace dabs iabs md md' \<or>
     r = Result_mark 0 \<and> buf' = map_option (\<lambda>_. node) buf \<and>
       logged (MakeCreate ino dir (new_mode file mode) uid gid (if file then DT_REG else DT_DIR) n len) (BuildOverflow n len) md md' \<and>
       (md_failures md' = md_failures md \<longrightarrow> md_ok md' \<and> D md' = (D md)((dir, n) \<mapsto> new_entry ino dir file n) \<and>
          I md' = upd_extra 1 dir ((I md)(ino \<mapsto> node))))"
proof -
  have rm: "md_min_unused_id md < md_max_id md" using room by (simp add: md_room_def)
  have al: "md_allowed (MCreate path mode uid gid buf) (D md) (I md)" using m dir md by simp
  have okk: "md_failures md' = md_failures md \<Longrightarrow> md_ok md'" by (rule Create_ok [OF ok room al r])
  have nn: "\<not> \<not> True" by simp
  note C = Create_spec [OF ok rm r, unfolded m walked.case if_not_P [OF nn]]
  obtain ino mi where a: "AllocateInodeId E md = (ino, mi)" "length n < 64" and
    P: "let file = (buf \<noteq> None); node = Inode_new ino 1 (new_mode file mode) uid gid now now now; len = of_nat (length n) in
           r = Result_mark (- EAGAIN) \<and> buf' = buf \<and> post (D md) (I md) [] (FreeInodeId ino mi) None md md' \<or>
           (\<exists>b1 b2. r = Result_mark 0 \<and> buf' = map_option (\<lambda>_. node) buf \<and>
             post (if b2 then (D md)((dir, n) \<mapsto> new_entry ino dir file n) else D md)
               (upd_extra 1 dir (if b1 then (I md)(ino \<mapsto> node) else I md))
               ((if b1 then [] else [PutInodeFailed ino]) @ (if b2 then [] else [AddEntryFailed dir n])) mi
               (Some (MakeCreate ino dir (new_mode file mode) uid gid (if file then DT_REG else DT_DIR) n len, BuildOverflow n len)) md md')"
    using C by blast
  from P [unfolded Let_def] show ?thesis
  proof (elim disjE exE conjE)
    assume p: "r = Result_mark (- EAGAIN)" "buf' = buf" "post (D md) (I md) [] (FreeInodeId ino mi) None md md'"
    then have "same_namespace dabs iabs md md'" "md_ok md'" using post_same [OF p(3)] okk by (auto simp: same_namespace_def)
    then show ?thesis using a p by (auto simp: Let_def)
  next
    fix b1 b2
    assume p: "r = Result_mark 0" "buf' = map_option (\<lambda>_. Inode_new ino 1 (new_mode (buf \<noteq> None) mode) uid gid now now now) buf"
      "post (if b2 then (D md)((dir, n) \<mapsto> new_entry ino dir (buf \<noteq> None) n) else D md)
               (upd_extra 1 dir (if b1 then (I md)(ino \<mapsto> Inode_new ino 1 (new_mode (buf \<noteq> None) mode) uid gid now now now) else I md))
               ((if b1 then [] else [PutInodeFailed ino]) @ (if b2 then [] else [AddEntryFailed dir n])) mi
               (Some (MakeCreate ino dir (new_mode (buf \<noteq> None) mode) uid gid (if buf \<noteq> None then DT_REG else DT_DIR) n (of_nat (length n)), BuildOverflow n (of_nat (length n)))) md md'"
    note L = post_logs [OF p(3)]
    have f: "md_failures md' = md_failures md \<Longrightarrow> b1 \<and> b2" using L by (auto split: if_splits)
    have "md_failures md' = md_failures md \<longrightarrow> md_ok md' \<and> D md' = (D md)((dir, n) \<mapsto> new_entry ino dir (buf \<noteq> None) n) \<and>
      I md' = upd_extra 1 dir ((I md)(ino \<mapsto> Inode_new ino 1 (new_mode (buf \<noteq> None) mode) uid gid now now now))"
    proof
      assume "md_failures md' = md_failures md"
      with f okk L show "md_ok md' \<and> D md' = (D md)((dir, n) \<mapsto> new_entry ino dir (buf \<noteq> None) n) \<and>
        I md' = upd_extra 1 dir ((I md)(ino \<mapsto> Inode_new ino 1 (new_mode (buf \<noteq> None) mode) uid gid now now now))" by simp
    qed
    with L p(1,2) show ?thesis unfolding Let_def
      by (intro exI [of _ ino] exI [of _ mi] conjI [OF a(1)] disjI2) (intro conjI, assumption+, blast, assumption)
  qed
qed

end

context metadata_service
begin

lemma rename_client:
  assumes ok: "md_ok md" and c: "last_common_dir 0 0 new old = Some dir" and lcd: "resolve (D md) kRootId (take dir old) = Reached lcd q0 e0"
    and old: "resolve (D md) lcd (drop dir old) = Reached ino op ent" and new: "resolve (D md) lcd (drop dir new) = Missing np nn True"
    and r: "md_Rename E now old new False md = Some (r, md')"
  shows "\<exists>e. ent = Some e \<and> d_id e = ino \<and> D md (op, d_name e) = Some e \<and>
    (r = - EAGAIN \<and> same_namespace dabs iabs md md' \<or>
     r = 0 \<and> logged (MakeRename ino op np (d_name e) (of_nat (length (d_name e))) nn (of_nat (length nn)) (d_type e))
         (BuildRenameOverflow (d_name e) (of_nat (length (d_name e))) nn (of_nat (length nn))) md md' \<and>
       (md_failures md' = md_failures md \<longrightarrow> D md' = (D md)((op, d_name e) := None, (np, nn) \<mapsto> moved_entry e np nn) \<and>
          I md' = (if op = np then I md else upd_extra 1 np (upd_extra (- 1) op (I md)))))"
proof -
  have nn: "\<not> \<not> True" by simp
  obtain e mda where e: "ent = Some e" "d_id e = ino" "D md (op, d_name e) = Some e" "D md (np, nn) = None" "I md np \<noteq> None"
    "eff (D md) (I md) [] md mda" "rename_move E now False (d_id e) e op nn np mda = Some (r, md')"
    using Rename_missing [OF ok c lcd old new r, unfolded if_not_P [OF nn]] by blast
  from rename_move_spec [OF ok e(6,3-5,7)] have "r = - EAGAIN \<and> same_namespace dabs iabs md md' \<or>
     r = 0 \<and> logged (MakeRename ino op np (d_name e) (of_nat (length (d_name e))) nn (of_nat (length nn)) (d_type e))
         (BuildRenameOverflow (d_name e) (of_nat (length (d_name e))) nn (of_nat (length nn))) md md' \<and>
       (md_failures md' = md_failures md \<longrightarrow> D md' = (D md)((op, d_name e) := None, (np, nn) \<mapsto> moved_entry e np nn) \<and>
          I md' = (if op = np then I md else upd_extra 1 np (upd_extra (- 1) op (I md))))"
    unfolding e(2)
  proof (elim disjE exE conjE)
    fix b
    assume z: "r = 0" and p: "post (if b then (D md)((op, d_name e) := None, (np, nn) \<mapsto> moved_entry e np nn) else (D md)((op, d_name e) := None))
      (if op = np then I md else upd_extra 1 np (upd_extra (- 1) op (I md))) (if b then [] else [AddEntryFailed np nn]) md
      (Some (MakeRename ino op np (d_name e) (of_nat (length (d_name e))) nn (of_nat (length nn)) (d_type e),
        BuildRenameOverflow (d_name e) (of_nat (length (d_name e))) nn (of_nat (length nn)))) md md'"
    note L = post_logs [OF p]
    have "md_failures md' = md_failures md \<Longrightarrow> b" using L by (auto split: if_splits)
    then show ?thesis using z L by (cases b) simp_all
  qed (use post_same in blast)
  then show ?thesis using e(1-3) by blast
qed

text \<open>A target that lies deeper than the last common directory is removed, and then looked for from the wrong
  directory.\<close>

lemma rename_lost:
  assumes ok: "md_ok md" and c: "last_common_dir 0 0 new old = Some dir" and lcd: "resolve (D md) kRootId (take dir old) = Reached lcd q0 e0"
    and old: "resolve (D md) lcd (drop dir old) = Reached ino op (Some e)" "op \<noteq> 0"
    and new: "resolve (D md) lcd (drop dir new) = Reached ino2 np (Some d)" "I md ino2 = Some i"
    and ne: "[] \<notin> set (names_of new)" and tail: "names_of (drop dir new) = n1 # n2 # ns" and no: "D md (np, n1) = None"
    and ty: "(d_type e = DT_DIR) = (d_type d = DT_DIR)" "\<not> unlink_error (d_type d = DT_DIR) i"
  shows "\<exists>r md'. md_Rename E now old new False md = Some (r, md') \<and>
    (r = - EAGAIN \<and> same_namespace dabs iabs md md' \<or> r = -1 \<and> D md' = (D md)((np, d_name d) := None))"
proof -
  obtain md1 md2 md3 where l: "LocateInode E (take dir old) 0 md = Some (loc_of (Reached lcd q0 e0), md1)"
    "LocateInode E (drop dir old) lcd md1 = Some (loc_of (resolve (D md) lcd (drop dir old)), md2)"
    "LocateInode E (drop dir new) lcd md2 = Some (loc_of (resolve (D md) lcd (drop dir new)), md3)"
    and s: "eff (D md) (I md) [] md md3" and n: "lcd \<noteq> 0" by (rule rename_walks [OF ok c lcd])
  have tne: "names_of (drop dir new) \<noteq> []" using tail by simp
  have full: "resolve (D md) kRootId new = Reached ino2 np (Some d)" using resolve_cut [OF c ne _ tne lcd] new(1) by simp
  have fne: "names_of new \<noteq> []" using names_cut [OF c ne _ tne] tne by simp
  note ok3 = look_ok [OF ok s] and e3 = effD [OF s]
  obtain d' i' res mdc where d': "Some d = Some d'" "d_id d' = ino2" "D md3 (np, d_name d') = Some d'" "I md3 ino2 = Some i'"
    and u: "md_Unlink E now new (d_type d = DT_DIR) md3 = Some (res, mdc)" "unlink_post (d_type d = DT_DIR) np d' i' md3 res mdc"
    using Unlink_reached [OF ok3 fne, unfolded e3(2), OF full] e3(2) by metis
  have d: "d' = d" "i' = i" "D md (np, d_name d) = Some d" using d' new(2) e3 by simp_all
  have np: "np \<noteq> 0" using fs_okD(4) [OF okD(2) [OF ok] d(3)] fs_okD(6) [OF okD(2) [OF ok]] by (auto simp: entry_ok_def)
  have okc: "md_ok mdc" using unlink_post_ok(1) [OF ok3 d'(3) _ u(2)] d'(2,4) by simp
  have R: "md_Rename E now old new False md = (do { (t, md) \<leftarrow> rename_cover E now new (drop dir new) (d_type e = DT_DIR) (d_type d = DT_DIR) np md3;
      case t of Inl rc \<Rightarrow> Some (rc, md) | Inr (new_res, new_parent) \<Rightarrow> if new_parent = 0 then Some (-1, md)
        else rename_move E now False ino e op (res_new_path new_res) new_parent md })"
    using l c old new(1) np by (simp add: md_Rename_def loc_of_def) (rule Option.bind_cong [OF refl], auto split: sum.splits)
  from u(2) consider (full) "res = Result_mark (- EAGAIN)" "same_namespace dabs iabs md3 mdc"
    | (removed) "res = Result_mark 0" "D mdc = (D md3)((np, d_name d) := None)"
    using ty(2) unfolding unlink_post_def Let_def d(1,2) by (elim disjE conjE) (auto dest: post_same post_logs)
  then show ?thesis
  proof cases
    case full
    then have "md_Rename E now old new False md = Some (- EAGAIN, mdc)" using R u(1) ty(1) by (simp add: rename_cover_def Result_mark_def)
    moreover have "same_namespace dabs iabs md mdc" using full(2) e3 by (simp add: same_namespace_def)
    ultimately show ?thesis by blast
  next
    case removed
    have "D mdc (np, n1) = None" using removed(2) no e3(2) by simp
    then have m: "resolve (D mdc) np (drop dir new) = Missing np n1 False" by (simp add: resolve_def tail)
    obtain md4 where l4: "LocateInode E (drop dir new) np mdc = Some (loc_of (Missing np n1 False), md4)"
      and s4: "eff (D mdc) (I mdc) [] mdc md4" using locate_from [OF eff_refl [OF okD(1) [OF okc]] np, of "drop dir new"] m by metis
    have "md_Rename E now old new False md = Some (-1, md4)"
      using R u(1) ty(1) removed(1) l4 by (simp add: rename_cover_def Result_mark_def loc_of_def EAGAIN_def)
    moreover have "D md4 = (D md)((np, d_name d) := None)" using effD(2) [OF s4] removed(2) e3(2) by simp
    ultimately show ?thesis by blast
  qed
qed

end

section \<open>The properties\<close>

abbreviation array_same ::
  "(u64 \<Rightarrow> u64) \<Rightarrow> (cstring \<Rightarrow> u64) \<Rightarrow> (Dirent hts, InodeArray \<times> CXLMem) Metadata \<Rightarrow> (Dirent hts, InodeArray \<times> CXLMem) Metadata \<Rightarrow> bool" where
  "array_same hash_u64 hash_string \<equiv> same_namespace (ht_map (dirent_traits hash_u64 hash_string)) array_map"

lemmas ex_simps = ex_dents_Some ex_inodes_at resolve_def names_of_def path_names.simps slash_def new_entry_def kRootId_def

lemma ex_root: "names_of [47] = []" "names_of [] = []"
  by (simp_all add: names_of_def slash_def path_names.simps)

lemma ex_names: "names_of [47, 98] = [[98]]" "names_of [47, 100] = [[100]]" "names_of [47, 97, 47, 99] = [[97], [99]]" "names_of [47, 97, 47, 100] = [[97], [100]]"
  by (simp_all add: names_of_def slash_def path_names.simps)

lemma ex_at: "dents_map ex_entries (2, [97]) = Some (new_entry 3 2 False [97])" "dents_map ex_entries (2, [98]) = Some (new_entry 4 2 True [98])"
  "dents_map ex_entries (3, [99]) = Some (new_entry 5 3 True [99])" "dents_map ex_entries (2, [100]) = None" "dents_map ex_entries (3, [97]) = None"
  "dents_map ex_entries (3, [100]) = None"
  by (simp_all add: dents_map_def ex_entries_def new_entry_def)

lemma ex_resolve:
  "resolve (dents_map ex_entries) 2 [] = Reached 2 0 None"
  "resolve (dents_map ex_entries) 2 [47, 98] = Reached 4 2 (Some (new_entry 4 2 True [98]))"
  "resolve (dents_map ex_entries) 2 [47, 100] = Missing 2 [100] True"
  "resolve (dents_map ex_entries) 2 [47, 97, 47, 99] = Reached 5 3 (Some (new_entry 5 3 True [99]))"
  "resolve (dents_map ex_entries) 2 [47, 97, 47, 100] = Missing 3 [100] True"
  by (simp_all add: resolve_def ex_names ex_root ex_at) (simp_all add: new_entry_def ex_at)

text \<open>C17: \<open>LocateInode\<close> returns, and what it returns is path resolution on the map of directory entries: the inode
  the path leads to with its entry and directory, or the first missing name; the name space is not changed.\<close>

theorem locate_inode_resolves:
  assumes "dequeues try_dequeue" "array_consistent hash_u64 hash_string n md"
  shows "\<exists>md'. LocateInode (array_env hash_u64 hash_string try_dequeue) path parent md =
      Some (loc_of (resolve (array_dents hash_u64 hash_string md) (if parent \<noteq> 0 then parent else kRootId) path), md') \<and>
    array_consistent hash_u64 hash_string n md' \<and> array_same hash_u64 hash_string md md'"
  using metadata_service.locate_client [OF array_service [OF assms(1)] assms(2) [unfolded array_consistent_def], of path parent]
  by (simp only: array_service_defs)

theorem locate_inode_resolves_witness:
  "\<exists>md md'. ex_server md \<and> LocateInode (array_env (\<lambda>x. x) (\<lambda>s. of_nat (length s)) fifo) [47, 97, 47, 99] 0 md =
    Some ((\<lparr>res_mark = 0, res_id = 5, res_new_path = []\<rparr>, 3, Some (new_entry 5 3 True [99])), md')"
proof -
  obtain md where md: "ex_server md" using ex_server_exists by blast
  from locate_inode_resolves [OF fifo_dequeues, of "\<lambda>x. x" "\<lambda>s. of_nat (length s)" 0 md "[47, 97, 47, 99]" 0] md
  show ?thesis by (auto simp: ex_server_def kRootId_def ex_resolve loc_of_def)
qed


lemma ex_small: "card (dom (dents_map ex_entries)) < kSlots"
  unfolding dents_map_def dom_map_of_conv_image_fst
  using card_length [of "map fst (map (\<lambda>e. ((d_pid e, d_name e), e)) ex_entries)"] by (simp add: ex_entries_def kSlots_def)

lemma ex_room: "ex_server md \<Longrightarrow> md_room (ht_map ex_traits) md"
proof -
  assume "ex_server md"
  then have e: "ht_map ex_traits (md_dhashtable md) = dents_map ex_entries" "md_min_unused_id md = 6" "md_max_id md = 2 ^ 50" by (simp_all add: ex_server_def ex_dents)
  show ?thesis unfolding md_room_def e using ex_small by (simp add: kSlots_def)
qed

lemma ex_create:
  assumes "ex_server md"
  shows "\<exists>r md'. md_Create ex_env now ms [47, 100] mode uid gid buf md = Some (r, md') \<and> md_failures md' = []"
proof -
  have e: "md_consistent (ht_ok ex_traits valid_dirent) (ht_map ex_traits) (array_ok 0) array_map (\<lambda>k. key_meta k = 0) md"
    "ht_map ex_traits (md_dhashtable md) = dents_map ex_entries" "md_min_unused_id md = 6" "md_max_id md = 2 ^ 50" "md_recycled_ids md = []" "md_failures md = []"
    using assms by (simp_all add: ex_server_def ex_dents ex_consistent)
  obtain mi where a: "AllocateInodeId ex_env md = (6, mi)"
    using e(3,5) by (simp add: AllocateInodeId_def Let_def ex_env_def array_env_def fifo_def)
  have put: "\<exists>i'. inode_insert (env_inodes ex_env) 6 v (md_ihashtable md) = Some (True, i')" for v
    using array_insert_first [of 0 "md_ihashtable md" 6 v] e(1) by (simp add: ex_env_def array_env_def md_consistent_def key_meta_def key_seg_def del: split_paired_Ex)
  have small: "finite (dom (dents_map ex_entries))" "card (dom (dents_map ex_entries)) < kSlots"
    using ex_small by (simp_all add: dents_map_def finite_dom_map_of)
  have add: "\<exists>d'. dent_insert (env_dents ex_env) (2, [100]) x d = Some (True, d')"
    if "ht_ok ex_traits valid_dirent d" "ht_map ex_traits d = ht_map ex_traits (md_dhashtable md)" "valid_dirent x" "d_pid x = 2" "d_name x = [100]" for d x
  proof -
    have "tr_extract ex_traits x = (2, [100])" using that by (simp add: ex_traits_def dirent_traits_def dirent_extract_def)
    then show ?thesis using dirents.table_insert_small [of "\<lambda>x. x" "\<lambda>s. of_nat (length s)" d x, folded ex_traits_def] that small e(2)
      by (simp add: ex_env_def array_env_def level_dents_def ex_traits_def [symmetric] del: split_paired_Ex)
  qed
  have m: "resolve (ht_map ex_traits (md_dhashtable md)) kRootId [47, 100] = Missing 2 [100] True" unfolding e(2) by (simp add: kRootId_def ex_resolve)
  have l: "md_min_unused_id md < md_max_id md" "length [100 :: byte] < 64" using e(3,4) by simp_all
  show ?thesis using ex.Create_returns [OF e(1) l(1) m l(2) a put add] unfolding e(6) by blast
qed






text \<open>C20: \<open>Create\<close> and \<open>Mkdir\<close> of a new name in a directory give the next id an inode and an entry, count it in the
  parent and log it, unless the log is full, in which case the id is given back and nothing changes.\<close>

theorem create_result:
  assumes "dequeues try_dequeue" "array_consistent hash_u64 hash_string n md" "md_room (ht_map (dirent_traits hash_u64 hash_string)) md"
    and "resolve (array_dents hash_u64 hash_string md) kRootId path = Missing dir name True" "dir_at (array_imap md) dir"
    and "buf \<noteq> None \<Longrightarrow> mode AND S_IFDIR = 0"
    and "md_Create (array_env hash_u64 hash_string try_dequeue) now ms path mode uid gid buf md = Some ((r, buf'), md')"
  shows "\<exists>ino mi. AllocateInodeId (array_env hash_u64 hash_string try_dequeue) md = (ino, mi) \<and>
    (let file = (buf \<noteq> None); node = Inode_new ino 1 (new_mode file mode) uid gid now now now; len = of_nat (length name) in
     r = Result_mark (- EAGAIN) \<and> buf' = buf \<and> array_consistent hash_u64 hash_string n md' \<and> array_same hash_u64 hash_string md md' \<or>
     r = Result_mark 0 \<and> buf' = map_option (\<lambda>_. node) buf \<and>
       logged (MakeCreate ino dir (new_mode file mode) uid gid (if file then DT_REG else DT_DIR) name len) (BuildOverflow name len) md md' \<and>
       (md_failures md' = md_failures md \<longrightarrow> array_consistent hash_u64 hash_string n md' \<and>
          array_dents hash_u64 hash_string md' = (array_dents hash_u64 hash_string md)((dir, name) \<mapsto> new_entry ino dir file name) \<and>
          array_imap md' = upd_extra 1 dir ((array_imap md)(ino \<mapsto> node))))"
  unfolding array_service_defs
  by (rule metadata_service.create_client [OF array_service [OF assms(1)] assms(2) [unfolded array_consistent_def] assms(3)
        assms(4) [unfolded array_dents_def] assms(5) [unfolded array_imap_def] assms(6,7)])

theorem create_result_witness:
  "\<exists>md r buf md'. ex_server md \<and>
    md_Create (array_env (\<lambda>x. x) (\<lambda>s. of_nat (length s)) fifo) 0 1 [47, 100] 0x1A4 1 2 (Some Inode_zero) md = Some ((r, buf), md') \<and>
    (r = Result_mark (- EAGAIN) \<or> r = Result_mark 0 \<and> array_dents (\<lambda>x. x) (\<lambda>s. of_nat (length s)) md' (2, [100]) \<noteq> None)"
proof -
  obtain md where md: "ex_server md" using ex_server_exists by blast
  then have s: "array_consistent (\<lambda>x. x) (\<lambda>s. of_nat (length s)) 0 md" "array_dents (\<lambda>x. x) (\<lambda>s. of_nat (length s)) md = dents_map ex_entries"
    "array_imap md = inodes_map ex_inodes" "md_failures md = []" by (simp_all add: ex_server_def)
  obtain r buf md' where c: "md_Create (array_env (\<lambda>x. x) (\<lambda>s. of_nat (length s)) fifo) 0 1 [47, 100] 0x1A4 1 2 (Some Inode_zero) md = Some ((r, buf), md')" "md_failures md' = []"
    using ex_create [OF md] unfolding ex_env_def by (metis surj_pair)
  have d: "dir_at (inodes_map ex_inodes) 2" by (simp add: dir_at_def ex_inodes_at is_dir_def Inode_new_def S_IFDIR_def)
  have m: "(0x1A4 :: u32) AND S_IFDIR = 0" by (simp add: S_IFDIR_def)
  have k: "resolve (dents_map ex_entries) kRootId [47, 100] = Missing 2 [100] True" by (simp add: kRootId_def ex_resolve)
  from create_result [OF fifo_dequeues s(1) ex_room [OF md, unfolded ex_traits_def], unfolded s(2,3), OF k d m c(1), unfolded c(2) s(4) Let_def]
  have "r = Result_mark (- EAGAIN) \<or> r = Result_mark 0 \<and> array_dents (\<lambda>x. x) (\<lambda>s. of_nat (length s)) md' (2, [100]) \<noteq> None"
    by (elim exE conjE disjE) simp_all
  with md c(1) show ?thesis by blast
qed

context metadata_service
begin

lemma alloc_client:
  assumes ok: "md_ok md" and room: "md_min_unused_id md < md_max_id md" and a: "AllocateInodeId E md = (ino, mi)"
  shows "own ino" "I md ino = None" "ino \<notin> set (md_recycled_ids mi)" "ino < md_min_unused_id mi" "ids_ok (I md) mi"
proof -
  note A = alloc_step [OF okD(3) [OF ok] room a]
  have "md_base_id md \<le> ino" "ino < md_max_id md" using A unfolding reserved_def ids_ok_def by (metis order_less_imp_le order_trans, metis order_less_le_trans)
  then show "own ino" by (rule okD(4) [OF ok])
  show "I md ino = None" "ino \<notin> set (md_recycled_ids mi)" "ino < md_min_unused_id mi" "ids_ok (I md) mi" using A(1,2) by (simp_all add: reserved_def)
qed

lemma Rename_returns:
  assumes ok: "md_ok md" and c: "last_common_dir 0 0 new old = Some dir" and lcd: "resolve (D md) kRootId (take dir old) = Reached lcd q0 e0"
    and old: "resolve (D md) lcd (drop dir old) = Reached ino op (Some e)" "op \<noteq> 0"
    and new: "resolve (D md) lcd (drop dir new) = Missing np nn True" "length nn < 64"
    and add: "\<And>d x. dinv d \<Longrightarrow> dabs d = (D md)((op, d_name e) := None) \<Longrightarrow> valid_dirent x \<Longrightarrow> d_pid x = np \<Longrightarrow> d_name x = nn \<Longrightarrow>
      \<exists>d'. dent_insert (env_dents E) (np, nn) x d = Some (True, d')"
  shows "\<exists>r md'. md_Rename E now old new False md = Some (r, md') \<and> md_failures md' = md_failures md"
proof -
  obtain md1 md2 md3 where l: "LocateInode E (take dir old) 0 md = Some (loc_of (Reached lcd q0 e0), md1)"
    "LocateInode E (drop dir old) lcd md1 = Some (loc_of (resolve (D md) lcd (drop dir old)), md2)"
    "LocateInode E (drop dir new) lcd md2 = Some (loc_of (resolve (D md) lcd (drop dir new)), md3)"
    and s: "eff (D md) (I md) [] md md3" and n: "lcd \<noteq> 0" by (rule rename_walks [OF ok c lcd])
  have il: "I md lcd \<noteq> None" using resolve_exists(2) [OF ok root_exists [OF ok] lcd] by auto
  note m = ok_missing [OF ok new(1) n] resolve_exists(1) [OF ok il new(1)]
  obtain e' where e': "Some e = Some e'" "d_id e' = ino" "D md (op, d_name e') = Some e'" by (rule source_entry [OF ok il old])
  then have e: "d_id e = ino" "D md (op, d_name e) = Some e" by simp_all
  have ve: "length (d_name e) < 64" using fs_okD(4) [OF okD(2) [OF ok] e(2)] by (simp add: entry_ok_def valid_dirent_def)
  have R: "md_Rename E now old new False md = rename_move E now False ino e op nn np md3"
    using l c old new(1) m(2) by (simp add: md_Rename_def loc_of_def)
  let ?ol = "of_nat (length (d_name e))" and ?nl = "of_nat (length nn)"
  let ?m = "MakeRename ino op np (d_name e) ?ol nn ?nl (d_type e)" and ?ov = "BuildRenameOverflow (d_name e) ?ol nn ?nl"
  have "on_wal (LogRename now ino op np (d_name e) ?ol nn ?nl (d_type e)) md3 = on_wal (append_entry now ?m ?ov) md3"
    using ve new(2) by (simp add: on_wal_def LogRename_def unat_of_nat)
  then obtain sq mdw where w: "on_wal (LogRename now ino op np (d_name e) ?ol nn ?nl (d_type e)) md3 = Some (sq, mdw)" and lg: "logs ?m ?ov sq md3 mdw"
    using log_step [of ?m ?ov now md3] short_rename_overflow [OF ve new(2)] by auto
  note ls = logs_same [OF lg] and e3 = effD [OF s]
  show ?thesis
  proof (cases "sq = 0")
    case True
    then show ?thesis using R w ls e3 by (simp add: rename_move_def)
  next
    case False
    have invw: "md_inv mdw" "D mdw = D md" "I mdw = I md" using ls e3 by (simp_all add: md_inv_def)
    have op: "I md op \<noteq> None" using fs_okD(4) [OF okD(2) [OF ok] e(2)] by (auto simp: entry_ok_def)
    obtain md5 where d5: "DeleteDirectoryEntry E e op (op \<noteq> np) mdw = Some md5"
      and s5: "eff ((D md)((op, d_name e) := None)) (if op \<noteq> np then upd_extra (- 1) op (I md) else I md) [] mdw md5"
      using delete_step [OF invw(1), of e op "op \<noteq> np"] invw(2,3) e(2) op by (auto cong: if_cong)
    have f5: "md_failures md5 = md_failures md" using effD(4) [OF s5] ls(3) e3(4) by simp
    have i5: "I md5 np \<noteq> None" using effD(3) [OF s5] m(3) by (simp add: upd_extra_def)
    define u where "u = (op \<noteq> np)"
    obtain md6 where u6: "on_inodes (inode_update_fn (env_inodes E) np (\<lambda>cur. cur\<lparr>i_extra := i_extra cur + 1\<rparr>)) md5 = Some (True, md6)"
      and s6: "eff (D md5) ((I md5)(np := map_option (\<lambda>cur. cur\<lparr>i_extra := i_extra cur + 1\<rparr>) (I md5 np))) [] md5 md6"
      using inode_update_step [OF effD(1) [OF s5], of "\<lambda>cur. cur\<lparr>i_extra := i_extra cur + 1\<rparr>" np] i5 by auto
    define md7 where "md7 = (if u then md6 else md5)"
    have m7: "dinv (md_dhashtable md7)" "D md7 = (D md)((op, d_name e) := None)" "md_failures md7 = md_failures md"
      using effD [OF s6] effD [OF s5] f5 by (auto simp: md7_def md_inv_def)
    obtain d' where d': "dent_insert (env_dents E) (np, nn) (moved_entry e np nn) (md_dhashtable md7) = Some (True, d')"
      using add [OF m7(1,2), of "moved_entry e np nn"] new(2) by auto
    have "AddDirectoryEntry E (moved_entry e np nn) np u md5 = Some (md7\<lparr>md_dhashtable := d'\<rparr>)"
      using u6 d' by (cases u) (simp_all add: AddDirectoryEntry_def on_dents_def report_def md7_def)
    then have "rename_move E now False ino e op nn np md3 = Some (0, md7\<lparr>md_dhashtable := d'\<rparr>)"
      using w False d5 new(2) by (simp add: rename_move_def Let_def kMaxFilenameLen_def moved_entry_def u_def)
    then show ?thesis using R m7(3) by simp
  qed
qed

end

text \<open>C21: With the segment of the new id in place, or room for it in the pool, and a table with fewer entries than a bucket has slots, creating a new
  name returns and no store refuses.\<close>

theorem create_returns:
  assumes "dequeues try_dequeue" "array_consistent hash_u64 hash_string n md" "md_min_unused_id md < md_max_id md"
    and "resolve (array_dents hash_u64 hash_string md) kRootId path = Missing dir name True" "length name < 64"
    and "card (dom (array_dents hash_u64 hash_string md)) < kSlots"
    and "key_seg (fst (AllocateInodeId (array_env hash_u64 hash_string try_dequeue) md)) < 1024"
    and "seg_at (ia_block_offs (fst (md_ihashtable md))) (snd (md_ihashtable md)) n (key_seg (fst (AllocateInodeId (array_env hash_u64 hash_string try_dequeue) md))) = 0 \<Longrightarrow>
      na_offset (cm_alloc (snd (md_ihashtable md))) + kSegmentSize \<le> na_capacity (cm_alloc (snd (md_ihashtable md)))"
  shows "\<exists>r md'. md_Create (array_env hash_u64 hash_string try_dequeue) now ms path mode uid gid buf md = Some (r, md') \<and>
    md_failures md' = md_failures md"
proof -
  let ?T = "dirent_traits hash_u64 hash_string" and ?E = "array_env hash_u64 hash_string try_dequeue"
  note S = array_service [OF assms(1), of hash_u64 hash_string n] and ok = assms(2) [unfolded array_consistent_def]
  obtain ino mi where a: "AllocateInodeId ?E md = (ino, mi)" by (rule prod.exhaust)
  have own: "key_meta ino = n" by (rule metadata_service.alloc_client(1) [OF S ok assms(3) a])
  have put: "\<exists>i'. inode_insert (env_inodes ?E) ino v (md_ihashtable md) = Some (True, i')" for v
  proof -
    obtain x m where x: "md_ihashtable md = (x, m)" by (cases "md_ihashtable md")
    have "ia_inv x m" "own_key x ino" "ia_meta_id x = n" using ok own by (auto simp: md_consistent_def array_ok_def x own_key_def)
    then obtain x' m' where "ia_insert ino v x m = Some (x', m')" using ia_insert_total [of x m ino v] assms(7,8) by (auto simp: a x)
    then show ?thesis by (simp add: array_env_def array_inodes_def x)
  qed
  have add: "\<exists>d'. dent_insert (env_dents ?E) (dir, name) e d = Some (True, d')"
    if "ht_ok ?T valid_dirent d" "ht_map ?T d = ht_map ?T (md_dhashtable md)" "valid_dirent e" "d_pid e = dir" "d_name e = name" for d e
  proof -
    have "finite (dom (ht_map ?T (md_dhashtable md)))" using ok by (simp add: md_consistent_def fs_ok_def entries_ok_def)
    moreover have "tr_extract ?T e = (dir, name)" using that by (simp add: dirent_traits_def dirent_extract_def)
    ultimately show ?thesis using dirents.table_insert_small [of hash_u64 hash_string d e] that assms(6)
      by (simp add: array_env_def level_dents_def array_dents_def del: split_paired_Ex)
  qed
  show ?thesis by (rule metadata_service.Create_returns [OF S ok assms(3) assms(4) [unfolded array_dents_def] assms(5) a put add])
qed

theorem create_returns_witness:
  "\<exists>md r md'. ex_server md \<and> md_Create (array_env (\<lambda>x. x) (\<lambda>s. of_nat (length s)) fifo) 0 1 [47, 100] 0x1A4 1 2 (Some Inode_zero) md = Some (r, md')"
proof -
  obtain md where md: "ex_server md" using ex_server_exists by blast
  let ?E = "array_env (\<lambda>x. x) (\<lambda>s. of_nat (length s)) fifo"
  have s: "array_consistent (\<lambda>x. x) (\<lambda>s. of_nat (length s)) 0 md" "array_dents (\<lambda>x. x) (\<lambda>s. of_nat (length s)) md = dents_map ex_entries"
    "md_min_unused_id md = 6" "md_max_id md = 2 ^ 50" "md_recycled_ids md = []" using md by (simp_all add: ex_server_def)
  have a: "fst (AllocateInodeId ?E md) = 6" using s by (simp add: AllocateInodeId_def Let_def array_env_def fifo_def)
  have k: "key_seg 6 = 0" by (simp add: key_seg_def)
  have seg: "seg_at (ia_block_offs (fst (md_ihashtable md))) (snd (md_ihashtable md)) 0 0 \<noteq> 0"
    using s(1) by (simp add: array_consistent_def md_consistent_def array_ok_def)
  have c: "card (dom (array_dents (\<lambda>x. x) (\<lambda>s. of_nat (length s)) md)) < kSlots"
    unfolding s(2) by (rule ex_small)
  have l: "md_min_unused_id md < md_max_id md" "length [100 :: byte] < 64" using s by simp_all
  have m: "resolve (array_dents (\<lambda>x. x) (\<lambda>s. of_nat (length s)) md) kRootId [47, 100] = Missing 2 [100] True" unfolding s(2) by (simp add: kRootId_def ex_resolve)
  have "\<exists>r md'. md_Create ?E 0 1 [47, 100] 0x1A4 1 2 (Some Inode_zero) md = Some (r, md') \<and> md_failures md' = md_failures md"
    by (rule create_returns [OF fifo_dequeues s(1) l(1) m l(2) c, unfolded a k]) (use seg in simp_all)
  with md show ?thesis by blast
qed

text \<open>C18: A rename to a new name moves the entry, with the inode and the type it had, to the new directory and name,
  and moves its count from the old directory to the new one; a full log leaves everything as it was.\<close>

theorem rename_result:
  assumes "dequeues try_dequeue" "array_consistent hash_u64 hash_string n md" "last_common_dir 0 0 new old = Some dir"
    and "resolve (array_dents hash_u64 hash_string md) kRootId (take dir old) = Reached lcd q0 e0"
    and "resolve (array_dents hash_u64 hash_string md) lcd (drop dir old) = Reached ino op ent"
    and "resolve (array_dents hash_u64 hash_string md) lcd (drop dir new) = Missing np nn True"
    and "md_Rename (array_env hash_u64 hash_string try_dequeue) now old new False md = Some (r, md')"
  shows "\<exists>e. ent = Some e \<and> d_id e = ino \<and> array_dents hash_u64 hash_string md (op, d_name e) = Some e \<and>
    (r = - EAGAIN \<and> array_same hash_u64 hash_string md md' \<or>
     r = 0 \<and> logged (MakeRename ino op np (d_name e) (of_nat (length (d_name e))) nn (of_nat (length nn)) (d_type e))
         (BuildRenameOverflow (d_name e) (of_nat (length (d_name e))) nn (of_nat (length nn))) md md' \<and>
       (md_failures md' = md_failures md \<longrightarrow>
          array_dents hash_u64 hash_string md' = (array_dents hash_u64 hash_string md)((op, d_name e) := None, (np, nn) \<mapsto> moved_entry e np nn) \<and>
          array_imap md' = (if op = np then array_imap md else upd_extra 1 np (upd_extra (- 1) op (array_imap md)))))"
  unfolding array_service_defs
  by (rule metadata_service.rename_client [OF array_service [OF assms(1)] assms(2) [unfolded array_consistent_def] assms(3) assms(4-6) [unfolded array_dents_def] assms(7)])

lemma ex_rename:
  assumes "ex_server md"
  shows "\<exists>r md'. md_Rename ex_env now [47, 98] [47, 97, 47, 100] False md = Some (r, md') \<and> md_failures md' = []"
proof -
  have e: "md_consistent (ht_ok ex_traits valid_dirent) (ht_map ex_traits) (array_ok 0) array_map (\<lambda>k. key_meta k = 0) md"
    "ht_map ex_traits (md_dhashtable md) = dents_map ex_entries" "md_failures md = []"
    using assms by (simp_all add: ex_server_def ex_dents ex_consistent)
  let ?D = "(dents_map ex_entries)((2, [98]) := None)"
  have fin: "finite (dom (dents_map ex_entries))" by (simp add: dents_map_def finite_dom_map_of)
  have small: "finite (dom ?D)" "card (dom ?D) < kSlots"
    using fin ex_small card_mono [OF fin, of "dom ?D"] by auto
  have add: "\<exists>d'. dent_insert (env_dents ex_env) (3, [100]) x d = Some (True, d')"
    if "ht_ok ex_traits valid_dirent d" "ht_map ex_traits d = (ht_map ex_traits (md_dhashtable md))((2, d_name (new_entry 4 2 True [98])) := None)"
      "valid_dirent x" "d_pid x = 3" "d_name x = [100]" for d x
  proof -
    have "tr_extract ex_traits x = (3, [100])" using that by (simp add: ex_traits_def dirent_traits_def dirent_extract_def)
    moreover have "ht_map ex_traits d = ?D" using that(2) by (simp add: e(2) new_entry_def)
    ultimately show ?thesis using dirents.table_insert_small [of "\<lambda>x. x" "\<lambda>s. of_nat (length s)" d x, folded ex_traits_def] that(1,3) small
      by (simp add: ex_env_def array_env_def level_dents_def ex_traits_def [symmetric] del: split_paired_Ex)
  qed
  have c: "last_common_dir 0 0 [47, 97, 47, 100] [47, 98] = Some 0" by (simp add: slash_def)
  have m: "resolve (ht_map ex_traits (md_dhashtable md)) kRootId (take 0 [47, 98]) = Reached 2 0 None"
    "resolve (ht_map ex_traits (md_dhashtable md)) 2 (drop 0 [47, 98]) = Reached 4 2 (Some (new_entry 4 2 True [98]))"
    "resolve (ht_map ex_traits (md_dhashtable md)) 2 (drop 0 [47, 97, 47, 100]) = Missing 3 [100] True"
    unfolding e(2) by (simp_all add: kRootId_def ex_resolve)
  have l: "(2 :: u64) \<noteq> 0" "length [100 :: byte] < 64" by simp_all
  show ?thesis using ex.Rename_returns [OF e(1) c m(1,2) l(1) m(3) l(2) add] unfolding e(3) by blast
qed

theorem rename_result_witness:
  "\<exists>md r md'. ex_server md \<and>
    md_Rename (array_env (\<lambda>x. x) (\<lambda>s. of_nat (length s)) fifo) 1 [47, 98] [47, 97, 47, 100] False md = Some (r, md') \<and>
    (r = - EAGAIN \<or> r = 0 \<and> array_dents (\<lambda>x. x) (\<lambda>s. of_nat (length s)) md' (3, [100]) = Some (moved_entry (new_entry 4 2 True [98]) 3 [100]))"
proof -
  obtain md where md: "ex_server md" using ex_server_exists by blast
  then have s: "array_consistent (\<lambda>x. x) (\<lambda>s. of_nat (length s)) 0 md" "array_dents (\<lambda>x. x) (\<lambda>s. of_nat (length s)) md = dents_map ex_entries"
    "md_failures md = []" by (simp_all add: ex_server_def)
  obtain r md' where c: "md_Rename (array_env (\<lambda>x. x) (\<lambda>s. of_nat (length s)) fifo) 1 [47, 98] [47, 97, 47, 100] False md = Some (r, md')" "md_failures md' = []"
    using ex_rename [OF md] unfolding ex_env_def by blast
  have l: "last_common_dir 0 0 [47, 97, 47, 100] [47, 98] = Some 0" by (simp add: slash_def)
  have m: "resolve (dents_map ex_entries) kRootId (take 0 [47, 98]) = Reached 2 0 None"
    "resolve (dents_map ex_entries) 2 (drop 0 [47, 98]) = Reached 4 2 (Some (new_entry 4 2 True [98]))"
    "resolve (dents_map ex_entries) 2 (drop 0 [47, 97, 47, 100]) = Missing 3 [100] True" by (simp_all add: kRootId_def ex_resolve)
  from rename_result [OF fifo_dequeues s(1) l, unfolded s(2), OF m c(1), unfolded c(2) s(3)]
  have "r = - EAGAIN \<or> r = 0 \<and> array_dents (\<lambda>x. x) (\<lambda>s. of_nat (length s)) md' (3, [100]) = Some (moved_entry (new_entry 4 2 True [98]) 3 [100])"
    by (elim exE conjE disjE) simp_all
  with md c(1) show ?thesis by blast
qed

text \<open>C23: A rename over an existing target that lies below the last common directory of the two paths removes the
  target and then fails: it looks for the target's path, relative to the common directory, from the
  target's own directory.\<close>

theorem rename_loses_target:
  assumes "dequeues try_dequeue" "array_consistent hash_u64 hash_string n md" "last_common_dir 0 0 new old = Some dir"
    and "resolve (array_dents hash_u64 hash_string md) kRootId (take dir old) = Reached lcd q0 e0"
    and "resolve (array_dents hash_u64 hash_string md) lcd (drop dir old) = Reached ino op (Some e)" "op \<noteq> 0"
    and "resolve (array_dents hash_u64 hash_string md) lcd (drop dir new) = Reached ino2 np (Some d)" "array_imap md ino2 = Some i"
    and "[] \<notin> set (names_of new)" "names_of (drop dir new) = n1 # n2 # ns" "array_dents hash_u64 hash_string md (np, n1) = None"
    and "(d_type e = DT_DIR) = (d_type d = DT_DIR)" "\<not> unlink_error (d_type d = DT_DIR) i"
  shows "\<exists>r md'. md_Rename (array_env hash_u64 hash_string try_dequeue) now old new False md = Some (r, md') \<and>
    (r = - EAGAIN \<and> array_same hash_u64 hash_string md md' \<or>
     r = -1 \<and> array_dents hash_u64 hash_string md' = (array_dents hash_u64 hash_string md)((np, d_name d) := None))"
  unfolding array_service_defs
  by (rule metadata_service.rename_lost [OF array_service [OF assms(1)] assms(2) [unfolded array_consistent_def] assms(3)
        assms(4-5) [unfolded array_dents_def] assms(6) assms(7,8) [unfolded array_dents_def array_imap_def] assms(9,10)
        assms(11) [unfolded array_dents_def] assms(12,13)])

theorem rename_loses_target_witness:
  "\<exists>md r md'. ex_server md \<and>
    md_Rename (array_env (\<lambda>x. x) (\<lambda>s. of_nat (length s)) fifo) 1 [47, 98] [47, 97, 47, 99] False md = Some (r, md') \<and>
    (r = - EAGAIN \<or> r = -1 \<and> array_dents (\<lambda>x. x) (\<lambda>s. of_nat (length s)) md' (3, [99]) = None)"
proof -
  obtain md where md: "ex_server md" using ex_server_exists by blast
  then have s: "array_consistent (\<lambda>x. x) (\<lambda>s. of_nat (length s)) 0 md" "array_dents (\<lambda>x. x) (\<lambda>s. of_nat (length s)) md = dents_map ex_entries"
    "array_imap md = inodes_map ex_inodes" by (simp_all add: ex_server_def)
  have l: "last_common_dir 0 0 [47, 97, 47, 99] [47, 98] = Some 0" by (simp add: slash_def)
  have m: "resolve (dents_map ex_entries) kRootId (take 0 [47, 98]) = Reached 2 0 None"
    "resolve (dents_map ex_entries) 2 (drop 0 [47, 98]) = Reached 4 2 (Some (new_entry 4 2 True [98]))"
    "resolve (dents_map ex_entries) 2 (drop 0 [47, 97, 47, 99]) = Reached 5 3 (Some (new_entry 5 3 True [99]))" by (simp_all add: kRootId_def ex_resolve)
  obtain i where i: "inodes_map ex_inodes 5 = Some i" "\<not> unlink_error (d_type (new_entry 5 3 True [99]) = DT_DIR) i"
    by (simp add: ex_inodes_at unlink_error_def Inode_new_def S_IFDIR_def new_entry_def DT_DIR_def DT_REG_def)
  have f: "(2 :: u64) \<noteq> 0" "[] \<notin> set (names_of [47, 97, 47, 99])" "names_of (drop 0 [47, 97, 47, 99]) = [97] # [99] # []"
    "(d_type (new_entry 4 2 True [98]) = DT_DIR) = (d_type (new_entry 5 3 True [99]) = DT_DIR)" by (simp_all add: ex_names new_entry_def)
  note R = rename_loses_target [OF fifo_dequeues s(1) l, unfolded s(2,3), OF m(1,2) f(1) m(3) i(1) f(2,3) ex_at(5) f(4) i(2), of 1]
  from R md show ?thesis by (elim exE conjE disjE) (auto simp: new_entry_def)
qed

text \<open>C25: \<open>Access\<close> returns and grants exactly what the permission bits of the inode grant to the owner, the group or the others.\<close>

theorem access_result:
  assumes "dequeues try_dequeue" "array_consistent hash_u64 hash_string n md"
  shows "\<exists>md'. md_Access (array_env hash_u64 hash_string try_dequeue) path mode uid gid md =
      Some (Result_mark (case resolve (array_dents hash_u64 hash_string md) kRootId path of Missing _ _ _ \<Rightarrow> -1
        | Reached ino _ _ \<Rightarrow> (case array_imap md ino of None \<Rightarrow> -1 | Some i \<Rightarrow> if access_ok mode uid gid i then 0 else -1)), md') \<and>
    array_consistent hash_u64 hash_string n md' \<and> array_same hash_u64 hash_string md md'"
  unfolding array_service_defs
  by (rule metadata_service.access_client [OF array_service [OF assms(1)] assms(2) [unfolded array_consistent_def]])

theorem access_result_witness:
  "\<exists>md md' md''. ex_server md \<and>
    md_Access (array_env (\<lambda>x. x) (\<lambda>s. of_nat (length s)) fifo) [47, 98] 6 1 9 md = Some (Result_mark 0, md') \<and>
    md_Access (array_env (\<lambda>x. x) (\<lambda>s. of_nat (length s)) fifo) [47, 98] 6 7 9 md = Some (Result_mark (-1), md'')"
proof -
  obtain md where md: "ex_server md" using ex_server_exists by blast
  then have s: "array_consistent (\<lambda>x. x) (\<lambda>s. of_nat (length s)) 0 md" "array_dents (\<lambda>x. x) (\<lambda>s. of_nat (length s)) md = dents_map ex_entries"
    "array_imap md = inodes_map ex_inodes" by (simp_all add: ex_server_def)
  have k: "resolve (dents_map ex_entries) kRootId [47, 98] = Reached 4 2 (Some (new_entry 4 2 True [98]))" by (simp add: kRootId_def ex_resolve)
  obtain i where i: "inodes_map ex_inodes 4 = Some i" "access_ok 6 1 9 i" "\<not> access_ok 6 7 9 i"
    by (simp add: ex_inodes_at access_ok_def Inode_new_def)
  from access_result [OF fifo_dequeues s(1), of "[47, 98]" 6 1 9] access_result [OF fifo_dequeues s(1), of "[47, 98]" 6 7 9] md
  show ?thesis unfolding s k by (auto simp: i)
qed

text \<open>C24: An id that is handed out belongs to the server, is the id of no inode and is not handed out again before it
  is given back.\<close>

theorem allocate_id_fresh:
  assumes "dequeues try_dequeue" "array_consistent hash_u64 hash_string n md" "md_min_unused_id md < md_max_id md"
    and "AllocateInodeId (array_env hash_u64 hash_string try_dequeue) md = (ino, md')"
  shows "key_meta ino = n \<and> array_imap md ino = None \<and> ino \<notin> set (md_recycled_ids md') \<and> ino < md_min_unused_id md'"
  using metadata_service.alloc_client [OF array_service [OF assms(1)] assms(2) [unfolded array_consistent_def] assms(3,4)]
  by (simp add: array_imap_def)

theorem allocate_id_fresh_witness:
  "\<exists>md. ex_server md \<and> (let (ino, md') = AllocateInodeId (array_env (\<lambda>x. x) (\<lambda>s. of_nat (length s)) fifo) md in
    key_meta ino = 0 \<and> array_imap md ino = None)"
proof -
  obtain md where md: "ex_server md" using ex_server_exists by blast
  then have s: "array_consistent (\<lambda>x. x) (\<lambda>s. of_nat (length s)) 0 md" "md_min_unused_id md < md_max_id md" by (simp_all add: ex_server_def)
  obtain ino md' where a: "AllocateInodeId (array_env (\<lambda>x. x) (\<lambda>s. of_nat (length s)) fifo) md = (ino, md')" by (rule prod.exhaust)
  from allocate_id_fresh [OF fifo_dequeues s a] md show ?thesis by (auto simp: a)
qed

end
