(* ===== verification/PageCache.thy ===== *)
theory PageCache
  imports Prelude
begin

text \<open>
  The write-back page cache that both persistent regions use (\<open>SSDDentRegion\<close> in
  \<open>src/include/server/dent_region.h\<close>, and with the same fields \<open>SSDInodeRegion\<close> in
  \<open>src/include/server/cxl_persistence.h\<close>): a pool of entries that are linked by index into a free list and a list of
  cached pages in the order of use, the table from page numbers to pool indices, and the flash file below
  (\<open>src/src/cxl/cxl_ssd.cc\<close>). A page is a value of a type parameter. An index beyond the page table is the outcome
  \<open>None\<close>. The invariant \<open>cache_inv\<close> says that the two lists partition the pool and that each clean page is the one in
  the file; \<open>pview\<close> is the contents that cache and file together have.
\<close>

section \<open>Files and cached pages\<close>

definition kPageSize :: nat where "kPageSize = 4096"
definition kNullIdx :: nat where "kNullIdx = 4294967295"

text \<open>A flash file that is read and written in whole pages. A read beyond its end leaves the buffer as it was; pages
  that were skipped read as zeroes, which is what \<open>ff_page\<close> has for them.\<close>

record 'p flash_file =
  ff_page :: "nat \<Rightarrow> 'p"
  ff_eof :: nat

definition flash_read :: "nat \<Rightarrow> 'p \<Rightarrow> 'p flash_file \<Rightarrow> 'p" where
  "flash_read offset buf f = (if offset < ff_eof f then ff_page f offset else buf)"

definition flash_write :: "nat \<Rightarrow> 'p \<Rightarrow> 'p flash_file \<Rightarrow> 'p flash_file" where
  "flash_write offset p f = f\<lparr>ff_page := (ff_page f)(offset := p), ff_eof := max (ff_eof f) (offset + kPageSize)\<rparr>"

record 'p PageCacheEntry =
  pce_offset :: nat
  pce_prev :: nat
  pce_next :: nat
  pce_dirty :: bool
  pce_page :: 'p

record 'p PageCache =
  pc_pool :: "nat \<Rightarrow> 'p PageCacheEntry"
  pc_slots :: "nat \<Rightarrow> nat"
  pc_num_slots :: nat
  pc_lru_head :: nat
  pc_lru_tail :: nat
  pc_free_head :: nat
  pc_evict_pages :: nat
  pc_evict_bytes :: nat
  pc_flash :: "'p flash_file"

definition pc_Init :: "'p \<Rightarrow> nat \<Rightarrow> nat \<Rightarrow> 'p flash_file \<Rightarrow> 'p PageCache" where
  "pc_Init zero max_pages num_slots f =
    \<lparr>pc_pool = (\<lambda>i. \<lparr>pce_offset = 0, pce_prev = kNullIdx, pce_next = (if i + 1 < max_pages then i + 1 else kNullIdx),
                    pce_dirty = False, pce_page = zero\<rparr>),
     pc_slots = (\<lambda>_. kNullIdx), pc_num_slots = num_slots, pc_lru_head = kNullIdx, pc_lru_tail = kNullIdx, pc_free_head = 0,
     pc_evict_pages = 0, pc_evict_bytes = 0, pc_flash = f\<rparr>"

section \<open>The list of cached pages\<close>

definition upd_entry :: "nat \<Rightarrow> ('p PageCacheEntry \<Rightarrow> 'p PageCacheEntry) \<Rightarrow> 'p PageCache \<Rightarrow> 'p PageCache" where
  "upd_entry i f c = c\<lparr>pc_pool := (pc_pool c)(i := f (pc_pool c i))\<rparr>"

definition LruUnlink :: "nat \<Rightarrow> 'p PageCache \<Rightarrow> 'p PageCache" where
  "LruUnlink idx c =
    (let e = pc_pool c idx;
         c = (if pce_prev e \<noteq> kNullIdx then upd_entry (pce_prev e) (\<lambda>x. x\<lparr>pce_next := pce_next e\<rparr>) c
              else c\<lparr>pc_lru_head := pce_next e\<rparr>);
         c = (if pce_next e \<noteq> kNullIdx then upd_entry (pce_next e) (\<lambda>x. x\<lparr>pce_prev := pce_prev e\<rparr>) c
              else c\<lparr>pc_lru_tail := pce_prev e\<rparr>)
     in upd_entry idx (\<lambda>x. x\<lparr>pce_prev := kNullIdx, pce_next := kNullIdx\<rparr>) c)"

definition LruPushFront :: "nat \<Rightarrow> 'p PageCache \<Rightarrow> 'p PageCache" where
  "LruPushFront idx c =
    (let c = upd_entry idx (\<lambda>x. x\<lparr>pce_prev := kNullIdx, pce_next := pc_lru_head c\<rparr>) c;
         c = (if pc_lru_head c \<noteq> kNullIdx then upd_entry (pc_lru_head c) (\<lambda>x. x\<lparr>pce_prev := idx\<rparr>) c
              else c\<lparr>pc_lru_tail := idx\<rparr>)
     in c\<lparr>pc_lru_head := idx\<rparr>)"

definition pc_hit :: "nat \<Rightarrow> 'p PageCache \<Rightarrow> 'p PageCache" where
  "pc_hit idx c = (if idx \<noteq> pc_lru_head c then LruPushFront idx (LruUnlink idx c) else c)"

definition pc_evict :: "'p PageCache \<Rightarrow> nat \<times> 'p PageCache" where
  "pc_evict c =
    (let idx = pc_lru_tail c; v = pc_pool c idx;
         c = (if pce_dirty v
              then c\<lparr>pc_flash := flash_write (pce_offset v) (pce_page v) (pc_flash c),
                     pc_evict_pages := pc_evict_pages c + 1, pc_evict_bytes := pc_evict_bytes c + kPageSize\<rparr>
              else c);
         c = c\<lparr>pc_slots := (pc_slots c)(pce_offset v div kPageSize := kNullIdx)\<rparr>
     in (idx, LruUnlink idx c))"

definition pc_take_free :: "'p PageCache \<Rightarrow> nat \<times> 'p PageCache" where
  "pc_take_free c =
    (let idx = pc_free_head c
     in (idx, upd_entry idx (\<lambda>x. x\<lparr>pce_next := kNullIdx\<rparr>) (c\<lparr>pc_free_head := pce_next (pc_pool c idx)\<rparr>)))"

definition TakePoolSlot :: "'p PageCache \<Rightarrow> nat \<times> 'p PageCache" where
  "TakePoolSlot c = (if pc_free_head c \<noteq> kNullIdx then pc_take_free c else pc_evict c)"

text \<open>The end of both ways to bring a page in: the entry gets its offset, is filled by \<open>fill\<close> and linked.\<close>

definition pc_install :: "nat \<Rightarrow> nat \<Rightarrow> ('p \<Rightarrow> 'p) \<Rightarrow> 'p PageCache \<Rightarrow> 'p PageCache" where
  "pc_install offset idx fill c =
    LruPushFront idx
      ((upd_entry idx (\<lambda>x. x\<lparr>pce_offset := offset, pce_dirty := False, pce_page := fill (pce_page x)\<rparr>) c)
        \<lparr>pc_slots := (pc_slots c)(offset div kPageSize := idx)\<rparr>)"

definition LoadPageSlot :: "nat \<Rightarrow> 'p PageCache \<Rightarrow> (nat \<times> 'p PageCache) option" where
  "LoadPageSlot offset c =
    (if offset div kPageSize \<ge> pc_num_slots c then None else
     let pool_idx = pc_slots c (offset div kPageSize) in
     if pool_idx \<noteq> kNullIdx then Some (pool_idx, pc_hit pool_idx c)
     else let (idx, c) = TakePoolSlot c in Some (idx, pc_install offset idx (\<lambda>buf. flash_read offset buf (pc_flash c)) c))"

definition LoadPageSlotForFresh :: "nat \<Rightarrow> 'p PageCache \<Rightarrow> (nat \<times> 'p PageCache) option" where
  "LoadPageSlotForFresh offset c =
    (if offset div kPageSize \<ge> pc_num_slots c then None else
     let pool_idx = pc_slots c (offset div kPageSize) in
     if pool_idx \<noteq> kNullIdx then Some (pool_idx, pc_hit pool_idx c)
     else let (idx, c) = TakePoolSlot c in Some (idx, pc_install offset idx (\<lambda>buf. buf) c))"

definition ReadPage :: "'p \<Rightarrow> nat \<Rightarrow> 'p PageCache \<Rightarrow> 'p option" where
  "ReadPage zero offset c =
    (if offset div kPageSize \<ge> pc_num_slots c then None else
     let pool_idx = pc_slots c (offset div kPageSize) in
     Some (if pool_idx \<noteq> kNullIdx then pce_page (pc_pool c pool_idx) else flash_read offset zero (pc_flash c)))"

record PageFlushStats =
  pfs_pages :: nat
  pfs_bytes :: nat

definition flush_entry :: "nat \<Rightarrow> PageFlushStats \<times> 'p PageCache \<Rightarrow> PageFlushStats \<times> 'p PageCache" where
  "flush_entry idx sc = (case sc of (s, c) \<Rightarrow>
     let e = pc_pool c idx in
     if pce_dirty e
     then (s\<lparr>pfs_pages := pfs_pages s + 1, pfs_bytes := pfs_bytes s + kPageSize\<rparr>,
           upd_entry idx (\<lambda>x. x\<lparr>pce_dirty := False\<rparr>) (c\<lparr>pc_flash := flash_write (pce_offset e) (pce_page e) (pc_flash c)\<rparr>))
     else (s, c))"

partial_function (option) flush_loop :: "nat \<Rightarrow> PageFlushStats \<times> 'p PageCache \<Rightarrow> (PageFlushStats \<times> 'p PageCache) option" where
  "flush_loop idx sc =
    (if idx = kNullIdx then Some sc
     else let sc = flush_entry idx sc in flush_loop (pce_next (pc_pool (snd sc) idx)) sc)"

definition FlushDirty :: "'p PageCache \<Rightarrow> (PageFlushStats \<times> 'p PageCache) option" where
  "FlushDirty c =
    flush_loop (pc_lru_head c)
      (\<lparr>pfs_pages = pc_evict_pages c, pfs_bytes = pc_evict_bytes c\<rparr>, c\<lparr>pc_evict_pages := 0, pc_evict_bytes := 0\<rparr>)"

lemma kPageSize_pos [simp]: "0 < kPageSize" "kPageSize \<noteq> 0"
  by (simp_all add: kPageSize_def)

section \<open>Doubly linked lists\<close>

definition first :: "nat list \<Rightarrow> nat \<Rightarrow> nat" where "first xs b = (case xs of [] \<Rightarrow> b | y # _ \<Rightarrow> y)"
definition final :: "nat \<Rightarrow> nat list \<Rightarrow> nat" where "final a xs = (if xs = [] then a else last xs)"

lemma first_simps [simp]: "first [] b = b" "first (y # ys) b = y" "first (xs @ ys) b = first xs (first ys b)"
  by (simp_all add: first_def split: list.splits)

lemma final_simps [simp]: "final a [] = a" "final a (y # ys) = final y ys" "final a (xs @ ys) = final (final a xs) ys"
  by (simp_all add: final_def)

fun linked :: "(nat \<Rightarrow> 'p PageCacheEntry) \<Rightarrow> nat \<Rightarrow> nat list \<Rightarrow> nat \<Rightarrow> bool" where
  "linked P a [] b \<longleftrightarrow> True"
| "linked P a (x # xs) b \<longleftrightarrow> pce_prev (P x) = a \<and> pce_next (P x) = first xs b \<and> linked P x xs b"

lemma linked_append: "linked P a (xs @ ys) b \<longleftrightarrow> linked P a xs (first ys b) \<and> linked P (final a xs) ys b"
  by (induction xs arbitrary: a) auto

lemma linked_cong:
  "(\<And>i. i \<in> set xs \<Longrightarrow> pce_prev (Q i) = pce_prev (P i) \<and> pce_next (Q i) = pce_next (P i)) \<Longrightarrow> linked P a xs b \<longleftrightarrow> linked Q a xs b"
  by (induction xs arbitrary: a) auto

lemma linked_upd [simp]: "x \<notin> set xs \<Longrightarrow> linked (P(x := e)) a xs b \<longleftrightarrow> linked P a xs b"
  by (rule linked_cong) auto

fun free_chain :: "(nat \<Rightarrow> 'p PageCacheEntry) \<Rightarrow> nat list \<Rightarrow> nat \<Rightarrow> bool" where
  "free_chain P [] h \<longleftrightarrow> h = kNullIdx"
| "free_chain P (x # xs) h \<longleftrightarrow> h = x \<and> free_chain P xs (pce_next (P x))"

lemma free_chain_cong: "(\<And>i. i \<in> set xs \<Longrightarrow> pce_next (Q i) = pce_next (P i)) \<Longrightarrow> free_chain P xs h \<longleftrightarrow> free_chain Q xs h"
  by (induction xs arbitrary: h) auto

lemma free_chain_upd [simp]: "x \<notin> set xs \<Longrightarrow> free_chain (P(x := e)) xs h \<longleftrightarrow> free_chain P xs h"
  by (rule free_chain_cong) auto

definition lru_ok :: "'p PageCache \<Rightarrow> nat list \<Rightarrow> bool" where
  "lru_ok c xs \<longleftrightarrow> linked (pc_pool c) kNullIdx xs kNullIdx \<and> pc_lru_head c = first xs kNullIdx \<and> pc_lru_tail c = final kNullIdx xs \<and>
    distinct xs \<and> kNullIdx \<notin> set xs"

text \<open>A step that changes the links of the entries in \<open>X\<close> and the ends of the list, and nothing else.\<close>

definition relinks :: "nat set \<Rightarrow> 'p PageCache \<Rightarrow> 'p PageCache \<Rightarrow> bool" where
  "relinks X c c' \<longleftrightarrow> (\<forall>j. pce_offset (pc_pool c' j) = pce_offset (pc_pool c j) \<and> pce_dirty (pc_pool c' j) = pce_dirty (pc_pool c j) \<and>
      pce_page (pc_pool c' j) = pce_page (pc_pool c j) \<and> (j \<notin> X \<longrightarrow> pc_pool c' j = pc_pool c j)) \<and>
    pc_slots c' = pc_slots c \<and> pc_num_slots c' = pc_num_slots c \<and> pc_free_head c' = pc_free_head c \<and>
    pc_evict_pages c' = pc_evict_pages c \<and> pc_evict_bytes c' = pc_evict_bytes c \<and> pc_flash c' = pc_flash c"

lemma relinks_trans: "relinks X c c1 \<Longrightarrow> relinks Y c1 c2 \<Longrightarrow> X \<subseteq> Z \<Longrightarrow> Y \<subseteq> Z \<Longrightarrow> relinks Z c c2"
  unfolding relinks_def by (metis (no_types, lifting) subset_iff)

lemma LruUnlink_ok:
  assumes "lru_ok c (ys @ i # zs)"
  shows "lru_ok (LruUnlink i c) (ys @ zs)" "relinks (set (ys @ i # zs)) c (LruUnlink i c)"
proof -
  have l: "linked (pc_pool c) kNullIdx ys i" "pce_prev (pc_pool c i) = final kNullIdx ys" "pce_next (pc_pool c i) = first zs kNullIdx"
    "linked (pc_pool c) i zs kNullIdx" and d: "distinct ys" "distinct zs" "i \<notin> set ys" "i \<notin> set zs" "set ys \<inter> set zs = {}"
    "kNullIdx \<notin> set ys" "kNullIdx \<notin> set zs" "i \<noteq> kNullIdx"
    and h: "pc_lru_head c = first ys i" "pc_lru_tail c = final i zs"
    using assms by (auto simp: lru_ok_def linked_append)
  note S = LruUnlink_def Let_def upd_entry_def lru_ok_def linked_append relinks_def
  have "lru_ok (LruUnlink i c) (ys @ zs) \<and> relinks (set (ys @ i # zs)) c (LruUnlink i c)"
  proof (cases ys rule: rev_cases)
    case Nil
    show ?thesis
    proof (cases zs)
      case Nil
      then show ?thesis using l d h \<open>ys = []\<close> by (auto simp: S)
    next
      case (Cons z zs')
      then show ?thesis using l d h \<open>ys = []\<close> by (auto simp: S)
    qed
  next
    case (snoc ys' y)
    show ?thesis
    proof (cases zs)
      case Nil
      then show ?thesis using l d h snoc by (auto simp: S)
    next
      case (Cons z zs')
      then show ?thesis using l d h snoc by (auto simp: S)
    qed
  qed
  then show "lru_ok (LruUnlink i c) (ys @ zs)" "relinks (set (ys @ i # zs)) c (LruUnlink i c)" by blast+
qed

lemma LruPushFront_ok:
  assumes "lru_ok c xs" "i \<notin> set xs" "i \<noteq> kNullIdx"
  shows "lru_ok (LruPushFront i c) (i # xs)" "relinks (set (i # xs)) c (LruPushFront i c)"
proof -
  have "lru_ok (LruPushFront i c) (i # xs) \<and> relinks (set (i # xs)) c (LruPushFront i c)"
  proof (cases xs)
    case Nil
    then show ?thesis using assms by (auto simp: LruPushFront_def Let_def upd_entry_def lru_ok_def relinks_def)
  next
    case (Cons x xs')
    then show ?thesis using assms by (auto simp: LruPushFront_def Let_def upd_entry_def lru_ok_def relinks_def)
  qed
  then show "lru_ok (LruPushFront i c) (i # xs)" "relinks (set (i # xs)) c (LruPushFront i c)" by blast+
qed

section \<open>The invariant of the cache\<close>

text \<open>
  The pool entries below \<open>N\<close> except \<open>H\<close> are in the list of cached pages \<open>lru\<close> or in the free list \<open>fr\<close>, in the order
  of the lists; the slot table has exactly the cached pages; a cached page that is not dirty is what the file
  has, except for the entries in \<open>X\<close>; free entries and the file beyond its end are zero.
\<close>

definition cache_inv :: "nat \<Rightarrow> 'p \<Rightarrow> nat set \<Rightarrow> nat set \<Rightarrow> 'p PageCache \<Rightarrow> nat list \<Rightarrow> nat list \<Rightarrow> bool" where
  "cache_inv N zero H X c lru fr \<longleftrightarrow> lru_ok c lru \<and> free_chain (pc_pool c) fr (pc_free_head c) \<and>
    distinct (lru @ fr) \<and> set (lru @ fr) = {..<N} - H \<and> 0 < N \<and> N \<le> kNullIdx \<and>
    (\<forall>i\<in>set lru. \<exists>p<pc_num_slots c. pce_offset (pc_pool c i) = p * kPageSize \<and> pc_slots c p = i) \<and>
    (\<forall>p. pc_slots c p \<noteq> kNullIdx \<longrightarrow> p < pc_num_slots c \<and> pc_slots c p \<in> set lru \<and> pce_offset (pc_pool c (pc_slots c p)) = p * kPageSize) \<and>
    (\<forall>i\<in>set lru - X. \<not> pce_dirty (pc_pool c i) \<longrightarrow> pce_page (pc_pool c i) = ff_page (pc_flash c) (pce_offset (pc_pool c i))) \<and>
    (\<forall>i\<in>set fr. pce_page (pc_pool c i) = zero) \<and> (\<forall>off\<ge>ff_eof (pc_flash c). ff_page (pc_flash c) off = zero)"

lemma cache_invD:
  assumes "cache_inv N zero H X c lru fr"
  shows "lru_ok c lru" "free_chain (pc_pool c) fr (pc_free_head c)" "distinct (lru @ fr)" "set (lru @ fr) = {..<N} - H" "0 < N" "N \<le> kNullIdx"
    "\<And>i. i \<in> set lru \<Longrightarrow> \<exists>p<pc_num_slots c. pce_offset (pc_pool c i) = p * kPageSize \<and> pc_slots c p = i"
    "\<And>p. pc_slots c p \<noteq> kNullIdx \<Longrightarrow> p < pc_num_slots c \<and> pc_slots c p \<in> set lru \<and> pce_offset (pc_pool c (pc_slots c p)) = p * kPageSize"
    "\<And>i. i \<in> set lru \<Longrightarrow> i \<notin> X \<Longrightarrow> \<not> pce_dirty (pc_pool c i) \<Longrightarrow> pce_page (pc_pool c i) = ff_page (pc_flash c) (pce_offset (pc_pool c i))"
    "\<And>i. i \<in> set fr \<Longrightarrow> pce_page (pc_pool c i) = zero" "\<And>off. off \<ge> ff_eof (pc_flash c) \<Longrightarrow> ff_page (pc_flash c) off = zero"
  using assms unfolding cache_inv_def by blast+

text \<open>The contents of a page, wherever they are.\<close>

definition pview :: "'p PageCache \<Rightarrow> nat \<Rightarrow> 'p" where
  "pview c p = (if pc_slots c p \<noteq> kNullIdx then pce_page (pc_pool c (pc_slots c p)) else ff_page (pc_flash c) (p * kPageSize))"

lemma relinks_pview: "relinks X c c' \<Longrightarrow> pview c' = pview c"
  by (rule ext) (simp add: pview_def relinks_def)

lemma relinks_inv:
  assumes I: "cache_inv N zero H X c lru fr" and r: "relinks (set lru') c c'" and l: "lru_ok c' lru'" "set lru' = set lru"
  shows "cache_inv N zero H X c' lru' fr"
proof -
  note D = cache_invD [OF I]
  have f: "pc_pool c' j = pc_pool c j" if "j \<in> set fr" for j using that D(3) r l(2) by (auto simp: relinks_def)
  then have "free_chain (pc_pool c') fr (pc_free_head c')" using D(2) free_chain_cong [of fr "pc_pool c'" "pc_pool c"] r by (simp add: relinks_def)
  moreover have "distinct (lru' @ fr)" using D(3) l by (auto simp: lru_ok_def)
  ultimately show ?thesis using I r l f unfolding cache_inv_def relinks_def by auto
qed

lemma pc_hit_ok:
  assumes I: "cache_inv N zero {} X c lru fr" and i: "i \<in> set lru"
  shows "\<exists>lru'. cache_inv N zero {} X (pc_hit i c) lru' fr \<and> set lru' = set lru \<and> pview (pc_hit i c) = pview c \<and>
    pc_slots (pc_hit i c) = pc_slots c \<and> pc_num_slots (pc_hit i c) = pc_num_slots c \<and> pc_flash (pc_hit i c) = pc_flash c \<and>
    pce_page (pc_pool (pc_hit i c) i) = pce_page (pc_pool c i)"
proof (cases "i = pc_lru_head c")
  case True
  then show ?thesis using I by (intro exI [of _ lru]) (simp add: pc_hit_def)
next
  case False
  obtain ys zs where xs: "lru = ys @ i # zs" using i by (meson split_list)
  have i': "i \<noteq> kNullIdx" using cache_invD(1) [OF I] i by (auto simp: lru_ok_def)
  note U = LruUnlink_ok [OF cache_invD(1) [OF I, unfolded xs]]
  have n: "i \<notin> set (ys @ zs)" using cache_invD(1) [OF I] by (auto simp: lru_ok_def xs)
  note P = LruPushFront_ok [OF U(1) n i']
  have h: "pc_hit i c = LruPushFront i (LruUnlink i c)" using False by (simp add: pc_hit_def)
  have r: "relinks (set (i # ys @ zs)) c (pc_hit i c)" unfolding h by (rule relinks_trans [OF U(2) P(2)]) auto
  then have "cache_inv N zero {} X (pc_hit i c) (i # ys @ zs) fr" using relinks_inv [OF I] P(1) h xs by auto
  moreover have "pview (pc_hit i c) = pview c" by (rule relinks_pview [OF r])
  ultimately show ?thesis using r xs by (intro exI [of _ "i # ys @ zs"]) (auto simp: relinks_def)
qed

lemma slots_inj: "kPageSize * p = kPageSize * q \<longleftrightarrow> p = q" "p * kPageSize = q * kPageSize \<longleftrightarrow> p = q" "p * kPageSize div kPageSize = p"
  by simp_all

lemma take_free_ok:
  assumes I: "cache_inv N zero {} X c lru (i # fr)"
  shows "fst (pc_take_free c) = i" "cache_inv N zero {i} X (snd (pc_take_free c)) lru fr" "pview (snd (pc_take_free c)) = pview c"
    "pce_page (pc_pool (snd (pc_take_free c)) i) = zero" "pc_slots (snd (pc_take_free c)) = pc_slots c" "pc_num_slots (snd (pc_take_free c)) = pc_num_slots c"
    "pc_flash (snd (pc_take_free c)) = pc_flash c" "i \<noteq> kNullIdx"
proof -
  note D = cache_invD [OF I]
  have h: "pc_free_head c = i" "free_chain (pc_pool c) fr (pce_next (pc_pool c i))" using D(2) by auto
  have n: "i \<notin> set lru" "i \<notin> set fr" "i \<in> {..<N}" using D(3,4) by auto
  show "fst (pc_take_free c) = i" by (simp add: pc_take_free_def Let_def h)
  have e: "snd (pc_take_free c) = c\<lparr>pc_free_head := pce_next (pc_pool c i), pc_pool := (pc_pool c)(i := (pc_pool c i)\<lparr>pce_next := kNullIdx\<rparr>)\<rparr>"
    by (simp add: pc_take_free_def Let_def h upd_entry_def)
  show nn: "i \<noteq> kNullIdx" using n(3) D(6) by auto
  have ns: "pc_slots c p \<noteq> i" for p using D(8) [of p] nn n(1) by auto
  show "pview (snd (pc_take_free c)) = pview c" by (rule ext) (simp add: e pview_def)
  show "pce_page (pc_pool (snd (pc_take_free c)) i) = zero" using D(10) [of i] by (simp add: e)
  have l: "lru_ok (snd (pc_take_free c)) lru" using D(1) n by (simp add: e lru_ok_def)
  have s: "set (lru @ fr) = {..<N} - {i}" using D(3,4) by auto
  show "cache_inv N zero {i} X (snd (pc_take_free c)) lru fr"
    unfolding cache_inv_def using l s D h n ns by (auto simp: e)
  show "pc_slots (snd (pc_take_free c)) = pc_slots c" "pc_num_slots (snd (pc_take_free c)) = pc_num_slots c" "pc_flash (snd (pc_take_free c)) = pc_flash c"
    by (simp_all add: e)
qed

lemma evict_ok:
  assumes I: "cache_inv N zero {} {} c lru []"
  shows "\<exists>lru'. cache_inv N zero {fst (pc_evict c)} {} (snd (pc_evict c)) lru' [] \<and> pview (snd (pc_evict c)) = pview c \<and>
    pc_num_slots (snd (pc_evict c)) = pc_num_slots c \<and> fst (pc_evict c) < N \<and> ff_eof (pc_flash c) \<le> ff_eof (pc_flash (snd (pc_evict c))) \<and>
    (\<forall>p. pc_slots c p = kNullIdx \<longrightarrow> pc_slots (snd (pc_evict c)) p = kNullIdx)"
proof -
  note D = cache_invD [OF I]
  have "0 \<in> set lru" using D(4,5) by simp
  then have "lru \<noteq> []" by force
  then obtain xs i where x: "lru = xs @ [i]" by (metis append_butlast_last_id)
  have t: "pc_lru_tail c = i" using D(1) by (simp add: lru_ok_def x)
  have "i \<in> set (lru @ [])" by (simp add: x)
  then have "i < N" unfolding D(4) by simp
  then have n: "i \<notin> set xs" "i < N" "i \<noteq> kNullIdx" using D(3,6) by (simp_all add: x)
  obtain p where p: "p < pc_num_slots c" "pce_offset (pc_pool c i) = p * kPageSize" "pc_slots c p = i" using D(7) [of i] by (auto simp: x)
  define f where "f = (if pce_dirty (pc_pool c i) then flash_write (p * kPageSize) (pce_page (pc_pool c i)) (pc_flash c) else pc_flash c)"
  define c1 where "c1 = (if pce_dirty (pc_pool c i)
      then c\<lparr>pc_flash := flash_write (pce_offset (pc_pool c i)) (pce_page (pc_pool c i)) (pc_flash c),
             pc_evict_pages := pc_evict_pages c + 1, pc_evict_bytes := pc_evict_bytes c + kPageSize\<rparr>
      else c)\<lparr>pc_slots := (pc_slots c)(p := kNullIdx)\<rparr>"
  have e: "pc_evict c = (i, LruUnlink i c1)" by (simp add: pc_evict_def Let_def t p c1_def slots_inj)
  have c1: "pc_pool c1 = pc_pool c" "pc_slots c1 = (pc_slots c)(p := kNullIdx)" "pc_num_slots c1 = pc_num_slots c" "pc_flash c1 = f"
    "pc_free_head c1 = pc_free_head c" "pc_lru_head c1 = pc_lru_head c" "pc_lru_tail c1 = pc_lru_tail c"
    by (simp_all add: c1_def f_def p)
  have fp: "ff_page f (p * kPageSize) = pce_page (pc_pool c i)" "\<And>off. off \<noteq> p * kPageSize \<Longrightarrow> ff_page f off = ff_page (pc_flash c) off"
    "ff_eof (pc_flash c) \<le> ff_eof f" using D(9) [of i] p by (auto simp: f_def flash_write_def x)
  have z: "ff_page f off = zero" if "ff_eof f \<le> off" for off
    using that D(11) [of off] fp(3) by (auto simp: f_def flash_write_def kPageSize_def split: if_splits)
  have l1: "lru_ok c1 (xs @ i # [])" using D(1) by (simp add: lru_ok_def c1 x)
  note U = LruUnlink_ok [OF l1]
  have R: "\<And>j. pce_offset (pc_pool (LruUnlink i c1) j) = pce_offset (pc_pool c j) \<and> pce_dirty (pc_pool (LruUnlink i c1) j) = pce_dirty (pc_pool c j) \<and>
      pce_page (pc_pool (LruUnlink i c1) j) = pce_page (pc_pool c j)" "pc_slots (LruUnlink i c1) = (pc_slots c)(p := kNullIdx)"
    "pc_num_slots (LruUnlink i c1) = pc_num_slots c" "pc_free_head (LruUnlink i c1) = pc_free_head c" "pc_flash (LruUnlink i c1) = f"
    using U(2) by (simp_all add: relinks_def c1)
  have off: "pce_offset (pc_pool c j) \<noteq> p * kPageSize" if "j \<in> set xs" for j
    using D(7) [of j] that p n x slots_inj(2) by (metis UnCI set_append)
  have own: "\<exists>q<pc_num_slots c. pce_offset (pc_pool c j) = q * kPageSize \<and> ((pc_slots c)(p := kNullIdx)) q = j" if "j \<in> set xs" for j
    using D(7) [of j] that off [OF that] by (auto simp: x)
  have bk: "q < pc_num_slots c \<and> ((pc_slots c)(p := kNullIdx)) q \<in> set xs \<and> pce_offset (pc_pool c (((pc_slots c)(p := kNullIdx)) q)) = q * kPageSize"
    if "((pc_slots c)(p := kNullIdx)) q \<noteq> kNullIdx" for q
  proof -
    have q: "q \<noteq> p" "pc_slots c q \<noteq> kNullIdx" using that by (auto split: if_splits)
    note B = D(8) [OF q(2)]
    have "pc_slots c q \<noteq> i" using B p(2) q(1) slots_inj(2) by metis
    then show ?thesis using B q by (simp add: x)
  qed
  have "cache_inv N zero {i} {} (LruUnlink i c1) xs []"
    unfolding cache_inv_def R(2-5)
    using U(1) D n own bk off fp z by (auto simp: R(1) x)
  moreover have "pview (LruUnlink i c1) = pview c"
    using fp p n(3) by (auto simp: fun_eq_iff pview_def R)
  ultimately show ?thesis using n fp(3) R(2,3,5) unfolding e by (intro exI [of _ xs]) auto
qed

text \<open>Taking a slot of the pool leaves the contents of all pages as they are.\<close>

lemma TakePoolSlot_ok:
  assumes I: "cache_inv N zero {} {} c lru fr"
  shows "\<exists>i c' lru' fr'. TakePoolSlot c = (i, c') \<and> cache_inv N zero {i} {} c' lru' fr' \<and> fr' = tl fr \<and> i < N \<and> pview c' = pview c \<and>
    pc_num_slots c' = pc_num_slots c \<and> (fr \<noteq> [] \<longrightarrow> pce_page (pc_pool c' i) = zero) \<and> ff_eof (pc_flash c) \<le> ff_eof (pc_flash c') \<and>
    (\<forall>p. pc_slots c p = kNullIdx \<longrightarrow> pc_slots c' p = kNullIdx)"
proof (cases fr)
  case Nil
  then have "pc_free_head c = kNullIdx" using cache_invD(2) [OF I] by simp
  then have "TakePoolSlot c = (fst (pc_evict c), snd (pc_evict c))" by (simp add: TakePoolSlot_def)
  moreover have "[] = tl fr" using Nil by simp
  ultimately show ?thesis using evict_ok [OF I [unfolded Nil]] Nil by blast
next
  case (Cons i fr')
  note T = take_free_ok [OF I [unfolded Cons]]
  have h: "pc_free_head c = i" using cache_invD(2) [OF I] by (simp add: Cons)
  have "i \<in> set (lru @ fr)" by (simp add: Cons)
  then have "i < N" unfolding cache_invD(4) [OF I] by simp
  moreover have "TakePoolSlot c = (i, snd (pc_take_free c))" using T(1,8) h by (simp add: TakePoolSlot_def prod_eq_iff)
  moreover have "fr' = tl fr" using Cons by simp
  ultimately show ?thesis using T by auto
qed

lemma install_ok:
  fixes fill :: "'p \<Rightarrow> 'p"
  assumes I: "cache_inv N zero {i} {} c lru fr" and i: "i < N" and p: "p < pc_num_slots c" "pc_slots c p = kNullIdx"
  defines "c' \<equiv> pc_install (p * kPageSize) i fill c"
  shows "cache_inv N zero {} (if fill (pce_page (pc_pool c i)) = pview c p then {} else {i}) c' (i # lru) fr"
    "pview c' = (pview c)(p := fill (pce_page (pc_pool c i)))" "pc_slots c' p = i" "pc_num_slots c' = pc_num_slots c" "pc_flash c' = pc_flash c"
    "pce_page (pc_pool c' i) = fill (pce_page (pc_pool c i))"
proof -
  note D = cache_invD [OF I]
  have n: "i \<notin> set lru" "i \<notin> set fr" using D(4) by auto
  have nn: "i \<noteq> kNullIdx" using i D(6) by simp
  define c1 where "c1 = (upd_entry i (\<lambda>x. x\<lparr>pce_offset := p * kPageSize, pce_dirty := False, pce_page := fill (pce_page x)\<rparr>) c)\<lparr>pc_slots := (pc_slots c)(p := i)\<rparr>"
  have c1: "pc_pool c1 = (pc_pool c)(i := (pc_pool c i)\<lparr>pce_offset := p * kPageSize, pce_dirty := False, pce_page := fill (pce_page (pc_pool c i))\<rparr>)"
    "pc_slots c1 = (pc_slots c)(p := i)" "pc_num_slots c1 = pc_num_slots c" "pc_flash c1 = pc_flash c" "pc_free_head c1 = pc_free_head c"
    "pc_lru_head c1 = pc_lru_head c" "pc_lru_tail c1 = pc_lru_tail c" by (simp_all add: c1_def upd_entry_def)
  have c': "c' = LruPushFront i c1" by (simp add: c'_def pc_install_def c1_def)
  have "lru_ok c1 lru" using D(1) n by (simp add: lru_ok_def c1)
  note P = LruPushFront_ok [OF this n(1) nn, folded c']
  have R: "\<And>j. pce_offset (pc_pool c' j) = pce_offset (pc_pool c1 j)" "\<And>j. pce_dirty (pc_pool c' j) = pce_dirty (pc_pool c1 j)"
      "\<And>j. pce_page (pc_pool c' j) = pce_page (pc_pool c1 j)" "\<And>j. j \<notin> set (i # lru) \<Longrightarrow> pc_pool c' j = pc_pool c1 j"
    "pc_slots c' = (pc_slots c)(p := i)" "pc_num_slots c' = pc_num_slots c" "pc_free_head c' = pc_free_head c" "pc_flash c' = pc_flash c"
    using P(2) by (simp_all add: relinks_def c1)
  have sl: "pc_slots c q \<noteq> i" for q using D(8) [of q] nn n(1) by auto
  have fl: "pc_pool c' j = pc_pool c j" if "j \<in> set fr" for j using R(4) [of j] that D(3) n by (auto simp: c1)
  then have fr: "free_chain (pc_pool c') fr (pc_free_head c')" using D(2) free_chain_cong [of fr "pc_pool c'" "pc_pool c"] by (simp add: R)
  have st: "set ((i # lru) @ fr) = {..<N} - {}" "distinct ((i # lru) @ fr)" using D(3,4) i n by auto
  have own: "\<exists>q<pc_num_slots c. pce_offset (pc_pool c1 j) = q * kPageSize \<and> ((pc_slots c)(p := i)) q = j" if "j \<in> set (i # lru)" for j
  proof (cases "j = i")
    case True
    then show ?thesis using p by (intro exI [of _ p]) (simp add: c1)
  next
    case False
    then have jl: "j \<in> set lru" using that by simp
    then obtain q where "q < pc_num_slots c" "pce_offset (pc_pool c j) = q * kPageSize" "pc_slots c q = j" using D(7) [of j] by auto
    moreover from this have "q \<noteq> p" using p(2) D(1) jl by (auto simp: lru_ok_def)
    ultimately show ?thesis using False by (intro exI [of _ q]) (simp add: c1)
  qed
  have bk: "q < pc_num_slots c \<and> ((pc_slots c)(p := i)) q \<in> set (i # lru) \<and> pce_offset (pc_pool c1 (((pc_slots c)(p := i)) q)) = q * kPageSize"
    if "((pc_slots c)(p := i)) q \<noteq> kNullIdx" for q
    using that D(8) [of q] sl [of q] p(1) by (auto simp: c1)
  have pv: "pview c p = ff_page (pc_flash c) (p * kPageSize)" using p by (simp add: pview_def)
  show "cache_inv N zero {} (if fill (pce_page (pc_pool c i)) = pview c p then {} else {i}) c' (i # lru) fr"
    unfolding cache_inv_def R(1-3,5-8)
    using P(1) fr st D(5,6) own bk D(9,10,11) n pv by (auto simp: c1 R)
  show "pview c' = (pview c)(p := fill (pce_page (pc_pool c i)))"
    using nn sl by (auto simp: fun_eq_iff pview_def R c1)
  show "pc_slots c' p = i" "pc_num_slots c' = pc_num_slots c" "pc_flash c' = pc_flash c" "pce_page (pc_pool c' i) = fill (pce_page (pc_pool c i))"
    by (simp_all add: R c1)
qed

section \<open>The operations\<close>

lemma LoadPageSlot_ok:
  assumes I: "cache_inv N zero {} {} c lru fr" and p: "p < pc_num_slots c"
    and there: "pc_slots c p \<noteq> kNullIdx \<or> p * kPageSize < ff_eof (pc_flash c) \<or> fr \<noteq> []"
  shows "\<exists>i c' lru' fr'. LoadPageSlot (p * kPageSize) c = Some (i, c') \<and> cache_inv N zero {} {} c' lru' fr' \<and>
    fr' = (if pc_slots c p = kNullIdx then tl fr else fr) \<and> pview c' = pview c \<and>
    pc_slots c' p = i \<and> i \<noteq> kNullIdx \<and> pce_page (pc_pool c' i) = pview c p \<and> pc_num_slots c' = pc_num_slots c \<and>
    ff_eof (pc_flash c) \<le> ff_eof (pc_flash c')"
proof (cases "pc_slots c p = kNullIdx")
  case False
  have i: "pc_slots c p \<in> set lru" using cache_invD(8) [OF I False] by blast
  have "LoadPageSlot (p * kPageSize) c = Some (pc_slots c p, pc_hit (pc_slots c p) c)" using p False by (simp add: LoadPageSlot_def Let_def)
  then show ?thesis using pc_hit_ok [OF I i] False by (auto simp: pview_def)
next
  case True
  obtain i c1 lru1 fr1 where t: "TakePoolSlot c = (i, c1)" "cache_inv N zero {i} {} c1 lru1 fr1" "i < N" "pview c1 = pview c"
    "pc_num_slots c1 = pc_num_slots c" and fr1: "fr1 = tl fr" and tt: "fr \<noteq> [] \<longrightarrow> pce_page (pc_pool c1 i) = zero" "ff_eof (pc_flash c) \<le> ff_eof (pc_flash c1)" "pc_slots c1 p = kNullIdx"
    using TakePoolSlot_ok [OF I] True by blast
  let ?fill = "\<lambda>buf. flash_read (p * kPageSize) buf (pc_flash c1)"
  have "?fill (pce_page (pc_pool c1 i)) = pview c1 p"
    using there True tt cache_invD(11) [OF t(2), of "p * kPageSize"] by (auto simp: flash_read_def pview_def)
  note F = install_ok [OF t(2,3) p [folded t(5)] tt(3), of ?fill, unfolded this]
  have e: "LoadPageSlot (p * kPageSize) c = Some (i, pc_install (p * kPageSize) i ?fill c1)" using p True t(1) by (simp add: LoadPageSlot_def Let_def)
  have "i \<noteq> kNullIdx" using t(3) cache_invD(6) [OF t(2)] by simp
  then show ?thesis using F e t(4,5) tt(2) fr1 True by (auto simp: fun_upd_idem)
qed

lemma LoadPageSlotForFresh_ok:
  assumes I: "cache_inv N zero {} {} c lru fr" and p: "p < pc_num_slots c"
  shows "\<exists>i c' lru' fr' pg. LoadPageSlotForFresh (p * kPageSize) c = Some (i, c') \<and> cache_inv N zero {} {i} c' lru' fr' \<and> pview c' = (pview c)(p := pg) \<and>
    pc_slots c' p = i \<and> i \<noteq> kNullIdx \<and> pc_num_slots c' = pc_num_slots c \<and> ff_eof (pc_flash c) \<le> ff_eof (pc_flash c')"
proof (cases "pc_slots c p = kNullIdx")
  case False
  have i: "pc_slots c p \<in> set lru" using cache_invD(8) [OF I False] by blast
  have "cache_inv N zero {} {pc_slots c p} c lru fr" using I unfolding cache_inv_def by blast
  from pc_hit_ok [OF this i] obtain lru' where H: "cache_inv N zero {} {pc_slots c p} (pc_hit (pc_slots c p) c) lru' fr"
    "pview (pc_hit (pc_slots c p) c) = (pview c)(p := pview c p)" "pc_slots (pc_hit (pc_slots c p) c) p = pc_slots c p"
    "pc_num_slots (pc_hit (pc_slots c p) c) = pc_num_slots c" "ff_eof (pc_flash c) \<le> ff_eof (pc_flash (pc_hit (pc_slots c p) c))"
    by auto
  have "LoadPageSlotForFresh (p * kPageSize) c = Some (pc_slots c p, pc_hit (pc_slots c p) c)" using p False by (simp add: LoadPageSlotForFresh_def Let_def)
  then show ?thesis using H False by blast
next
  case True
  obtain i c1 lru1 fr1 where t: "TakePoolSlot c = (i, c1)" "cache_inv N zero {i} {} c1 lru1 fr1" "i < N" "pview c1 = pview c"
    "pc_num_slots c1 = pc_num_slots c" "ff_eof (pc_flash c) \<le> ff_eof (pc_flash c1)" "pc_slots c1 p = kNullIdx"
    using TakePoolSlot_ok [OF I] True by blast
  note F = install_ok [OF t(2,3) p [folded t(5)] t(7), of "\<lambda>buf. buf"]
  have e: "LoadPageSlotForFresh (p * kPageSize) c = Some (i, pc_install (p * kPageSize) i (\<lambda>buf. buf) c1)" using p True t(1) by (simp add: LoadPageSlotForFresh_def Let_def)
  have "i \<noteq> kNullIdx" using t(3) cache_invD(6) [OF t(2)] by simp
  moreover have "cache_inv N zero {} {i} (pc_install (p * kPageSize) i (\<lambda>buf. buf) c1) (i # lru1) fr1"
    using F(1) unfolding cache_inv_def by (auto split: if_splits)
  ultimately show ?thesis using F(2-5) e t(4,5,6) by auto
qed

text \<open>Copying \<open>data\<close> into the bytes of a page at \<open>off\<close>.\<close>

definition page_write :: "nat \<Rightarrow> byte list \<Rightarrow> byte list \<Rightarrow> byte list" where
  "page_write off data pg = take off pg @ data @ drop (off + length data) pg"

lemma page_write_length: "off + length d \<le> length pg \<Longrightarrow> length (page_write off d pg) = length pg"
  by (simp add: page_write_def)

text \<open>Changing a cached page in place.\<close>

definition pc_put :: "nat \<Rightarrow> ('p \<Rightarrow> 'p) \<Rightarrow> 'p PageCache \<Rightarrow> 'p PageCache" where
  "pc_put i f c = upd_entry i (\<lambda>x. x\<lparr>pce_page := f (pce_page x), pce_dirty := True\<rparr>) c"

lemma pc_put_ok:
  assumes I: "cache_inv N zero {} X c lru fr" and X: "X \<subseteq> {i}" and i: "pc_slots c p = i" "i \<noteq> kNullIdx"
  shows "cache_inv N zero {} {} (pc_put i f c) lru fr" "pview (pc_put i f c) = (pview c)(p := f (pview c p))"
    "pc_num_slots (pc_put i f c) = pc_num_slots c" "pc_slots (pc_put i f c) = pc_slots c" "pc_flash (pc_put i f c) = pc_flash c"
proof -
  note D = cache_invD [OF I]
  have il: "i \<in> set lru" "pce_offset (pc_pool c i) = p * kPageSize" using D(8) [of p] i by auto
  have n: "i \<notin> set fr" using D(3) il by auto
  have cl: "pce_page (pc_pool c j) = ff_page (pc_flash c) (pce_offset (pc_pool c j))" if "j \<in> set lru" "j \<noteq> i" "\<not> pce_dirty (pc_pool c j)" for j
    using D(9) [of j] that X by blast
  have "linked ((pc_pool c)(i := e)) a xs b = linked (pc_pool c) a xs b" if "pce_prev e = pce_prev (pc_pool c i)" "pce_next e = pce_next (pc_pool c i)" for e a xs b
    by (rule linked_cong [symmetric]) (use that in auto)
  then have "lru_ok (pc_put i f c) lru" using D(1) by (simp add: lru_ok_def pc_put_def upd_entry_def)
  then show "cache_inv N zero {} {} (pc_put i f c) lru fr"
    unfolding cache_inv_def using D(2-8,10,11) cl n by (auto simp: pc_put_def upd_entry_def)
  have uniq: "q = p" if "pc_slots c q = i" for q using D(8) [of q] that i il(2) by auto
  have "pview (pc_put i f c) q = ((pview c)(p := f (pview c p))) q" for q
  proof (cases "q = p")
    case False
    then have "pc_slots c q \<noteq> i" using uniq by blast
    then show ?thesis using False by (simp add: pview_def pc_put_def upd_entry_def)
  qed (use i in \<open>simp add: pview_def pc_put_def upd_entry_def\<close>)
  then show "pview (pc_put i f c) = (pview c)(p := f (pview c p))" ..
  show "pc_num_slots (pc_put i f c) = pc_num_slots c" "pc_slots (pc_put i f c) = pc_slots c" "pc_flash (pc_put i f c) = pc_flash c"
    by (simp_all add: pc_put_def upd_entry_def)
qed

lemma ReadPage_ok:
  assumes I: "cache_inv N zero {} {} c lru fr" and p: "p < pc_num_slots c"
  shows "ReadPage zero (p * kPageSize) c = Some (pview c p)"
  using p cache_invD(11) [OF I, of "p * kPageSize"] by (simp add: ReadPage_def Let_def pview_def flash_read_def)

lemma pc_Init_ok:
  assumes "0 < N" "N \<le> kNullIdx" "\<And>off. off \<ge> ff_eof f \<Longrightarrow> ff_page f off = zero"
  shows "cache_inv N zero {} {} (pc_Init zero N M f) [] [0..<N]" "pview (pc_Init zero N M f) p = ff_page f (p * kPageSize)"
    "pc_num_slots (pc_Init zero N M f) = M" "pc_flash (pc_Init zero N M f) = f"
proof -
  have "free_chain (pc_pool (pc_Init zero N M f)) [k..<N] (if k < N then k else kNullIdx)" if "k \<le> N" for k
    using that
  proof (induction "N - k" arbitrary: k)
    case (Suc d)
    then have "k < N" by simp
    then have u: "[k..<N] = k # [Suc k..<N]" by (simp add: upt_rec)
    show ?case using Suc.hyps(1) [of "Suc k"] Suc.hyps(2) \<open>k < N\<close> unfolding u by (auto simp: pc_Init_def split: if_splits)
  qed simp
  from this [of 0] have "free_chain (pc_pool (pc_Init zero N M f)) [0..<N] 0" using assms(1) by simp
  then show "cache_inv N zero {} {} (pc_Init zero N M f) [] [0..<N]"
    using assms by (auto simp: cache_inv_def pc_Init_def lru_ok_def)
  show "pview (pc_Init zero N M f) p = ff_page f (p * kPageSize)" "pc_num_slots (pc_Init zero N M f) = M" "pc_flash (pc_Init zero N M f) = f"
    by (simp_all add: pview_def pc_Init_def)
qed

text \<open>Flushing writes the dirty pages and nothing else changes; afterwards the file has the contents of all pages.\<close>

lemma flush_entry_ok:
  assumes I: "cache_inv N zero {} {} c lru fr" and i: "i \<in> set lru" and e: "flush_entry i (s, c) = (s', c')"
  shows "cache_inv N zero {} {} c' lru fr" "pview c' = pview c" "pc_slots c' = pc_slots c" "pc_num_slots c' = pc_num_slots c"
    "pce_next (pc_pool c' j) = pce_next (pc_pool c j)" "pce_dirty (pc_pool c' j) = (j \<noteq> i \<and> pce_dirty (pc_pool c j))"
    "ff_eof (pc_flash c) \<le> ff_eof (pc_flash c')"
proof -
  note D = cache_invD [OF I]
  obtain p where p: "p < pc_num_slots c" "pce_offset (pc_pool c i) = p * kPageSize" "pc_slots c p = i" using D(7) [OF i] by blast
  have nn: "i \<noteq> kNullIdx" using D(1) i by (auto simp: lru_ok_def)
  have uniq: "j = i" if "j \<in> set lru" "pce_offset (pc_pool c j) = p * kPageSize" for j
    using D(7) [OF that(1)] that(2) p(3) by auto
  have "cache_inv N zero {} {} c' lru fr \<and> pview c' = pview c \<and> pc_slots c' = pc_slots c \<and> pc_num_slots c' = pc_num_slots c \<and>
    pce_next (pc_pool c' j) = pce_next (pc_pool c j) \<and> pce_dirty (pc_pool c' j) = (j \<noteq> i \<and> pce_dirty (pc_pool c j)) \<and> ff_eof (pc_flash c) \<le> ff_eof (pc_flash c')"
  proof (cases "pce_dirty (pc_pool c i)")
    case False
    then have "c' = c" using e by (simp add: flush_entry_def)
    then show ?thesis using I False by auto
  next
    case True
    define f where "f = flash_write (p * kPageSize) (pce_page (pc_pool c i)) (pc_flash c)"
    have c': "c' = c\<lparr>pc_flash := f, pc_pool := (pc_pool c)(i := (pc_pool c i)\<lparr>pce_dirty := False\<rparr>)\<rparr>"
      using e True by (simp add: flush_entry_def Let_def upd_entry_def f_def p)
    have f: "ff_page f (p * kPageSize) = pce_page (pc_pool c i)" "\<And>off. off \<noteq> p * kPageSize \<Longrightarrow> ff_page f off = ff_page (pc_flash c) off"
      "ff_eof (pc_flash c) \<le> ff_eof f" "\<And>off. ff_eof f \<le> off \<Longrightarrow> ff_page f off = zero"
      using D(11) by (auto simp: f_def flash_write_def kPageSize_def)
    have "linked ((pc_pool c)(i := (pc_pool c i)\<lparr>pce_dirty := False\<rparr>)) a xs b = linked (pc_pool c) a xs b" for a xs b
      by (rule linked_cong [symmetric]) auto
    then have "lru_ok c' lru" using D(1) by (simp add: lru_ok_def c')
    moreover have "free_chain (pc_pool c') fr (pc_free_head c')" using D(2) free_chain_cong [of fr "pc_pool c'" "pc_pool c"] by (simp add: c')
    moreover have "pce_page (pc_pool c j) = ff_page f (pce_offset (pc_pool c j))" if "j \<in> set lru" "\<not> (j \<noteq> i \<and> pce_dirty (pc_pool c j))" for j
    proof (cases "j = i")
      case False
      then show ?thesis using that D(9) [of j] f(2) uniq [of j] by force
    qed (simp add: p(2) f(1))
    moreover have q: "pce_offset (pc_pool c' j) = pce_offset (pc_pool c j)" "pce_page (pc_pool c' j) = pce_page (pc_pool c j)"
      "pce_dirty (pc_pool c' j) = (j \<noteq> i \<and> pce_dirty (pc_pool c j))" "pc_slots c' = pc_slots c" "pc_num_slots c' = pc_num_slots c" "pc_flash c' = f" for j
      by (simp_all add: c')
    ultimately have "cache_inv N zero {} {} c' lru fr"
      unfolding cache_inv_def q using D(3-8,10) f(4) by blast
    moreover have "pview c' x = pview c x" for x using f(2) [of "x * kPageSize"] p(3) nn by (cases "x = p") (simp_all add: pview_def q)
    then have "pview c' = pview c" ..
    ultimately show ?thesis using f(3) by (simp add: c')
  qed
  then show "cache_inv N zero {} {} c' lru fr" "pview c' = pview c" "pc_slots c' = pc_slots c" "pc_num_slots c' = pc_num_slots c"
    "pce_next (pc_pool c' j) = pce_next (pc_pool c j)" "pce_dirty (pc_pool c' j) = (j \<noteq> i \<and> pce_dirty (pc_pool c j))"
    "ff_eof (pc_flash c) \<le> ff_eof (pc_flash c')" by blast+
qed

lemma flush_loop_ok:
  assumes "cache_inv N zero {} {} c (ys @ zs) fr" "\<forall>i\<in>set ys. \<not> pce_dirty (pc_pool c i)"
  shows "\<exists>s' c'. flush_loop (first zs kNullIdx) (s, c) = Some (s', c') \<and> cache_inv N zero {} {} c' (ys @ zs) fr \<and> pview c' = pview c \<and>
    pc_slots c' = pc_slots c \<and> pc_num_slots c' = pc_num_slots c \<and> (\<forall>i\<in>set (ys @ zs). \<not> pce_dirty (pc_pool c' i)) \<and> ff_eof (pc_flash c) \<le> ff_eof (pc_flash c')"
  using assms
proof (induction zs arbitrary: ys s c)
  case Nil
  then show ?case by (simp add: flush_loop.simps)
next
  case (Cons z zs)
  have l: "linked (pc_pool c) kNullIdx (ys @ z # zs) kNullIdx" "z \<noteq> kNullIdx" using cache_invD(1) [OF Cons.prems(1)] by (auto simp: lru_ok_def)
  then have nx: "pce_next (pc_pool c z) = first zs kNullIdx" by (simp add: linked_append)
  obtain s1 c1 where e: "flush_entry z (s, c) = (s1, c1)" by (rule prod.exhaust)
  have zi: "z \<in> set (ys @ z # zs)" by simp
  note F = flush_entry_ok [OF Cons.prems(1) zi e]
  have "cache_inv N zero {} {} c1 ((ys @ [z]) @ zs) fr" "\<forall>i\<in>set (ys @ [z]). \<not> pce_dirty (pc_pool c1 i)" using F(1,6) Cons.prems(2) by auto
  from Cons.IH [OF this, of s1] obtain s' c' where r: "flush_loop (first zs kNullIdx) (s1, c1) = Some (s', c')" "cache_inv N zero {} {} c' (ys @ z # zs) fr"
    "pview c' = pview c1" "pc_slots c' = pc_slots c1" "pc_num_slots c' = pc_num_slots c1" "\<forall>i\<in>set (ys @ z # zs). \<not> pce_dirty (pc_pool c' i)"
    "ff_eof (pc_flash c1) \<le> ff_eof (pc_flash c')" by auto
  have "flush_loop (first (z # zs) kNullIdx) (s, c) = flush_loop (first zs kNullIdx) (s1, c1)"
    using l(2) e F(5) nx by (subst flush_loop.simps) (simp add: Let_def)
  then show ?case using r F by auto
qed

lemma FlushDirty_ok:
  assumes I: "cache_inv N zero {} {} c lru fr"
  shows "\<exists>s c'. FlushDirty c = Some (s, c') \<and> cache_inv N zero {} {} c' lru fr \<and> pview c' = pview c \<and> pc_slots c' = pc_slots c \<and>
    pc_num_slots c' = pc_num_slots c \<and> (\<forall>p. ff_page (pc_flash c') (p * kPageSize) = pview c p) \<and> ff_eof (pc_flash c) \<le> ff_eof (pc_flash c')"
proof -
  let ?c = "c\<lparr>pc_evict_pages := 0, pc_evict_bytes := 0\<rparr>"
  have I0: "cache_inv N zero {} {} ?c ([] @ lru) fr" using I by (simp add: cache_inv_def lru_ok_def)
  have h: "pc_lru_head c = first lru kNullIdx" using cache_invD(1) [OF I] by (simp add: lru_ok_def)
  obtain s' c' where r: "FlushDirty c = Some (s', c')" "cache_inv N zero {} {} c' lru fr" "pview c' = pview c" "pc_slots c' = pc_slots c"
    "pc_num_slots c' = pc_num_slots c" "\<forall>i\<in>set lru. \<not> pce_dirty (pc_pool c' i)" "ff_eof (pc_flash c) \<le> ff_eof (pc_flash c')"
    using flush_loop_ok [OF I0, of "\<lparr>pfs_pages = pc_evict_pages c, pfs_bytes = pc_evict_bytes c\<rparr>"] by (auto simp: FlushDirty_def h pview_def fun_eq_iff)
  have "ff_page (pc_flash c') (p * kPageSize) = pview c' p" for p
    using cache_invD(8) [OF r(2), of p] cache_invD(9) [OF r(2), of "pc_slots c' p"] r(6) by (auto simp: pview_def)
  then show ?thesis using r by auto
qed

end
