(* ===== verification/InodeRegion.thy ===== *)
theory InodeRegion
  imports InodeArray PageCache
begin

unbundle bit_operations_syntax

text \<open>
  The persistent inode region (\<open>SSDInodeRegion\<close> in \<open>src/include/server/cxl_persistence.h\<close>): slots of 128 bytes, 32 in
  a page, behind the page cache. The region is shown to be an array of slots, and the case in which it is not is
  characterised.
\<close>

section \<open>The region\<close>

definition kSlotSize_ir :: nat where "kSlotSize_ir = 128"
definition kSlotsPerPage_ir :: nat where "kSlotsPerPage_ir = kPageSize div kSlotSize_ir"
definition kPageCacheMaxPages_ir :: nat where "kPageCacheMaxPages_ir = 64 * 1024"

lemmas ir_consts = kSlotSize_ir_def kSlotsPerPage_ir_def kPageCacheMaxPages_ir_def kPageSize_def

definition zero_page :: "byte list" where "zero_page = replicate kPageSize 0"

text \<open>\<open>ir_max_pages\<close> is \<open>kPageCacheMaxPages\<close>.\<close>

record SSDInodeRegion =
  ir_cache :: "byte list PageCache"
  ir_max_pages :: nat
  ir_capacity :: nat
  ir_max_inodes :: nat
  ir_num_cached :: nat

definition ir_Init :: "byte list flash_file \<Rightarrow> nat \<Rightarrow> SSDInodeRegion" where
  "ir_Init f capacity_bytes =
    \<lparr>ir_cache = pc_Init zero_page kPageCacheMaxPages_ir (capacity_bytes div kPageSize) f, ir_max_pages = kPageCacheMaxPages_ir,
     ir_capacity = capacity_bytes, ir_max_inodes = capacity_bytes div kSlotSize_ir, ir_num_cached = 0\<rparr>"

definition ir_PageOffset :: "SSDInodeRegion \<Rightarrow> u64 \<Rightarrow> nat" where
  "ir_PageOffset r inode_id = (let slot = unat inode_id mod ir_max_inodes r in slot div kSlotsPerPage_ir * kPageSize)"

definition ir_InPageOffset :: "SSDInodeRegion \<Rightarrow> u64 \<Rightarrow> nat" where
  "ir_InPageOffset r inode_id = unat inode_id mod ir_max_inodes r mod kSlotsPerPage_ir * kSlotSize_ir"

definition ir_LoadPage :: "u64 \<Rightarrow> SSDInodeRegion \<Rightarrow> (nat \<times> SSDInodeRegion) option" where
  "ir_LoadPage inode_id r =
    (let off = ir_PageOffset r inode_id; c = ir_cache r in
     if off div kPageSize \<ge> pc_num_slots c then None else
     let pool_idx = pc_slots c (off div kPageSize) in
     if pool_idx \<noteq> kNullIdx then Some (pool_idx, r\<lparr>ir_cache := pc_hit pool_idx c\<rparr>)
     else
       let (idx, c, n) = (if ir_num_cached r \<ge> ir_max_pages r then (case pc_evict c of (idx, c) \<Rightarrow> (idx, c, ir_num_cached r))
                          else (case pc_take_free c of (idx, c) \<Rightarrow> (idx, c, ir_num_cached r + 1)))
       in Some (idx, r\<lparr>ir_cache := pc_install off idx (\<lambda>buf. flash_read off buf (pc_flash c)) c, ir_num_cached := n\<rparr>))"

definition ir_WriteInode :: "u64 \<Rightarrow> byte list \<Rightarrow> SSDInodeRegion \<Rightarrow> SSDInodeRegion option" where
  "ir_WriteInode inode_id data r =
    do { (idx, r) \<leftarrow> ir_LoadPage inode_id r;
         Some (r\<lparr>ir_cache := pc_put idx (page_write (ir_InPageOffset r inode_id) data) (ir_cache r)\<rparr>) }"

definition ir_ReadInode :: "u64 \<Rightarrow> nat \<Rightarrow> SSDInodeRegion \<Rightarrow> (byte list \<times> SSDInodeRegion) option" where
  "ir_ReadInode inode_id len r =
    do { (idx, r) \<leftarrow> ir_LoadPage inode_id r;
         Some (take len (drop (ir_InPageOffset r inode_id) (pce_page (pc_pool (ir_cache r) idx))), r) }"

definition inode_bytes :: "Inode \<Rightarrow> byte list" where
  "inode_bytes i = words_bytes (inode_words i)"

definition bytes_inode :: "byte list \<Rightarrow> Inode" where
  "bytes_inode bs = words_inode (bytes_words 11 bs)"

definition ir_MutateInode :: "u64 \<Rightarrow> (Inode \<Rightarrow> Inode) \<Rightarrow> SSDInodeRegion \<Rightarrow> (bool \<times> SSDInodeRegion) option" where
  "ir_MutateInode inode_id fn r =
    do { (idx, r) \<leftarrow> ir_LoadPage inode_id r;
         let inode = bytes_inode (take 88 (drop (ir_InPageOffset r inode_id) (pce_page (pc_pool (ir_cache r) idx))));
         if i_id inode = 0 then Some (False, r)
         else Some (True, r\<lparr>ir_cache := pc_put idx (page_write (ir_InPageOffset r inode_id) (inode_bytes (fn inode))) (ir_cache r)\<rparr>) }"

definition ir_FlushDirty :: "SSDInodeRegion \<Rightarrow> (PageFlushStats \<times> SSDInodeRegion) option" where
  "ir_FlushDirty r = do { (s, c) \<leftarrow> FlushDirty (ir_cache r); Some (s, r\<lparr>ir_cache := c\<rparr>) }"

section \<open>The region as an array of slots\<close>

definition ir_inv :: "SSDInodeRegion \<Rightarrow> bool" where
  "ir_inv r \<longleftrightarrow> (\<exists>lru fr. cache_inv (ir_max_pages r) zero_page {} {} (ir_cache r) lru fr \<and> ir_num_cached r = length lru) \<and>
    pc_num_slots (ir_cache r) = ir_capacity r div kPageSize \<and> ir_max_inodes r = ir_capacity r div kSlotSize_ir \<and> 0 < ir_capacity r \<and>
    kPageSize dvd ir_capacity r \<and> (\<forall>p. length (pview (ir_cache r) p) = kPageSize)"

text \<open>The 128 bytes of a slot.\<close>

definition slot_at :: "SSDInodeRegion \<Rightarrow> nat \<Rightarrow> byte list" where
  "slot_at r s = take kSlotSize_ir (drop (s mod kSlotsPerPage_ir * kSlotSize_ir) (pview (ir_cache r) (s div kSlotsPerPage_ir)))"

text \<open>A page that is loaded is cached, in the file, or there is a free entry for it.\<close>

definition ir_loads :: "SSDInodeRegion \<Rightarrow> u64 \<Rightarrow> bool" where
  "ir_loads r inode_id \<longleftrightarrow> pc_slots (ir_cache r) (ir_PageOffset r inode_id div kPageSize) \<noteq> kNullIdx \<or>
    ir_PageOffset r inode_id < ff_eof (pc_flash (ir_cache r)) \<or> ir_num_cached r < ir_max_pages r"

lemma lists_length: "cache_inv N zero {} X c lru fr \<Longrightarrow> length lru + length fr = N"
  using distinct_card [of "lru @ fr"] cache_invD(3,4) [of N zero "{}" X c lru fr] by simp

lemma ir_LoadPage_eq:
  assumes "cache_inv (ir_max_pages r) zero_page {} {} (ir_cache r) lru fr" "ir_num_cached r = length lru"
  shows "ir_LoadPage ino r = (case LoadPageSlot (ir_PageOffset r ino) (ir_cache r) of None \<Rightarrow> None | Some (i, c) \<Rightarrow>
    Some (i, r\<lparr>ir_cache := c, ir_num_cached := (if pc_slots (ir_cache r) (ir_PageOffset r ino div kPageSize) = kNullIdx \<and> fr \<noteq> [] then length lru + 1 else length lru)\<rparr>))"
proof -
  have "ir_num_cached r \<ge> ir_max_pages r \<longleftrightarrow> fr = []" using lists_length [OF assms(1)] assms(2) by (cases fr) auto
  moreover have "pc_free_head (ir_cache r) \<noteq> kNullIdx \<longleftrightarrow> fr \<noteq> []"
    using cache_invD(2,3,4,6) [OF assms(1)] by (cases fr) auto
  ultimately show ?thesis
    using assms(2) by (auto simp: ir_LoadPage_def LoadPageSlot_def TakePoolSlot_def Let_def split: prod.splits)
qed

lemma ir_page_bound:
  assumes "ir_inv r"
  shows "unat ino mod ir_max_inodes r div kSlotsPerPage_ir < pc_num_slots (ir_cache r)" "0 < ir_max_inodes r"
proof -
  obtain k where k: "ir_capacity r = 4096 * k" "0 < k" using assms by (auto simp: ir_inv_def ir_consts elim!: dvdE)
  have m: "ir_max_inodes r = 32 * k" "pc_num_slots (ir_cache r) = k" using assms k by (simp_all add: ir_inv_def ir_consts)
  then show "0 < ir_max_inodes r" using k by simp
  have "unat ino mod ir_max_inodes r < 32 * k" using k m by simp
  then show "unat ino mod ir_max_inodes r div kSlotsPerPage_ir < pc_num_slots (ir_cache r)"
    unfolding m(2) by (simp add: ir_consts less_mult_imp_div_less mult.commute)
qed

definition same_geometry :: "SSDInodeRegion \<Rightarrow> SSDInodeRegion \<Rightarrow> bool" where
  "same_geometry r r' \<longleftrightarrow> ir_max_pages r' = ir_max_pages r \<and> ir_capacity r' = ir_capacity r \<and> ir_max_inodes r' = ir_max_inodes r"

lemma ir_LoadPage_ok:
  assumes inv: "ir_inv r" and l: "ir_loads r ino"
  defines "p \<equiv> unat ino mod ir_max_inodes r div kSlotsPerPage_ir"
  shows "\<exists>i r'. ir_LoadPage ino r = Some (i, r') \<and> ir_inv r' \<and> same_geometry r r' \<and> pview (ir_cache r') = pview (ir_cache r) \<and>
    pc_slots (ir_cache r') p = i \<and> i \<noteq> kNullIdx \<and> pce_page (pc_pool (ir_cache r') i) = pview (ir_cache r) p"
proof -
  obtain lru fr where I: "cache_inv (ir_max_pages r) zero_page {} {} (ir_cache r) lru fr" "ir_num_cached r = length lru" using inv by (auto simp: ir_inv_def)
  have off: "ir_PageOffset r ino = p * kPageSize" by (simp add: ir_PageOffset_def p_def Let_def)
  have p: "p < pc_num_slots (ir_cache r)" using ir_page_bound(1) [OF inv] by (simp add: p_def)
  have "pc_slots (ir_cache r) p \<noteq> kNullIdx \<or> p * kPageSize < ff_eof (pc_flash (ir_cache r)) \<or> fr \<noteq> []"
    using l lists_length [OF I(1)] I(2) unfolding ir_loads_def off by auto
  from LoadPageSlot_ok [OF I(1) p this] obtain i c' lru' fr' where L: "LoadPageSlot (p * kPageSize) (ir_cache r) = Some (i, c')"
    "cache_inv (ir_max_pages r) zero_page {} {} c' lru' fr'" "fr' = (if pc_slots (ir_cache r) p = kNullIdx then tl fr else fr)" "pview c' = pview (ir_cache r)"
    "pc_slots c' p = i" "i \<noteq> kNullIdx" "pce_page (pc_pool c' i) = pview (ir_cache r) p" "pc_num_slots c' = pc_num_slots (ir_cache r)" by blast
  let ?n = "if pc_slots (ir_cache r) p = kNullIdx \<and> fr \<noteq> [] then length lru + 1 else length lru"
  have e: "ir_LoadPage ino r = Some (i, r\<lparr>ir_cache := c', ir_num_cached := ?n\<rparr>)" using ir_LoadPage_eq [OF I, of ino] L(1) by (simp add: off)
  have "?n = length lru'" using lists_length [OF I(1)] lists_length [OF L(2)] L(3) by (cases fr) (auto split: if_splits)
  then have "ir_inv (r\<lparr>ir_cache := c', ir_num_cached := ?n\<rparr>)" using inv L(2,4,8) by (auto simp: ir_inv_def)
  then show ?thesis using e L(4-7) by (auto simp: same_geometry_def)
qed

text \<open>Writing into one slot of a page leaves the other slots.\<close>

lemma page_write_slot:
  assumes "length pg = kPageSize" "j < kSlotsPerPage_ir" "k < kSlotsPerPage_ir" "length d \<le> kSlotSize_ir"
  shows "take kSlotSize_ir (drop (j * kSlotSize_ir) (page_write (k * kSlotSize_ir) d pg)) =
    (if j = k then d @ drop (length d) (take kSlotSize_ir (drop (j * kSlotSize_ir) pg)) else take kSlotSize_ir (drop (j * kSlotSize_ir) pg))"
proof -
  have b: "k * 128 + length d \<le> length pg" "length d \<le> 128" using assms by (simp_all add: ir_consts)
  consider "j < k" | "j = k" | "k < j" by linarith
  then show ?thesis
  proof cases
    case 1
    then have le: "j * 128 + 128 \<le> k * 128" by simp
    have "take 128 (drop (j * 128) (page_write (k * 128) d pg)) = take 128 (drop (j * 128) (take (k * 128) pg))"
      using le b by (simp add: page_write_def min_def)
    also have "\<dots> = take 128 (drop (j * 128) pg)" using le by (simp add: drop_take min_def)
    finally show ?thesis using 1 by (simp add: kSlotSize_ir_def)
  next
    case 2
    then show ?thesis using b by (simp add: page_write_def kSlotSize_ir_def min_def drop_take add.commute)
  next
    case 3
    then have le: "k * 128 + 128 \<le> j * 128" by simp
    then have "k * 128 + length d \<le> j * 128" using b by linarith
    then have "drop (j * 128) (page_write (k * 128) d pg) = drop (j * 128) pg"
      using b by (simp add: page_write_def min_def)
    then show ?thesis using 3 by (simp add: kSlotSize_ir_def)
  qed
qed

lemma put_slot:
  assumes inv: "ir_inv r" and i: "pc_slots (ir_cache r) (unat ino mod ir_max_inodes r div kSlotsPerPage_ir) = i" "i \<noteq> kNullIdx"
    and d: "length d \<le> kSlotSize_ir"
  defines "r' \<equiv> r\<lparr>ir_cache := pc_put i (page_write (ir_InPageOffset r ino) d) (ir_cache r)\<rparr>" and "s \<equiv> unat ino mod ir_max_inodes r"
  shows "ir_inv r'" "slot_at r' = (slot_at r)(s := d @ drop (length d) (slot_at r s))"
proof -
  obtain lru fr where I: "cache_inv (ir_max_pages r) zero_page {} {} (ir_cache r) lru fr" "ir_num_cached r = length lru" using inv by (auto simp: ir_inv_def)
  note P = pc_put_ok [OF I(1) _ i, of "page_write (ir_InPageOffset r ino) d"]
  let ?k = "s mod kSlotsPerPage_ir" and ?p = "s div kSlotsPerPage_ir"
  have off: "ir_InPageOffset r ino = ?k * kSlotSize_ir" by (simp add: ir_InPageOffset_def s_def)
  have len: "length (pview (ir_cache r) q) = kPageSize" for q using inv by (simp add: ir_inv_def)
  have k: "?k < kSlotsPerPage_ir" by (simp add: ir_consts)
  have "?k * kSlotSize_ir + length d \<le> kPageSize" using k d by (simp add: ir_consts)
  then have l: "length (page_write (?k * kSlotSize_ir) d (pview (ir_cache r) ?p)) = kPageSize" using len by (simp add: page_write_length)
  show "ir_inv r'" using inv I(2) P(1-3) l len unfolding ir_inv_def r'_def off s_def by auto
  show "slot_at r' = (slot_at r)(s := d @ drop (length d) (slot_at r s))"
  proof
    fix t
    show "slot_at r' t = ((slot_at r)(s := d @ drop (length d) (slot_at r s))) t"
    proof (cases "t div kSlotsPerPage_ir = ?p")
      case True
      have t: "t = s \<longleftrightarrow> t mod kSlotsPerPage_ir = ?k" using True by (metis div_mult_mod_eq)
      have "slot_at r' t = take kSlotSize_ir (drop (t mod kSlotsPerPage_ir * kSlotSize_ir) (page_write (?k * kSlotSize_ir) d (pview (ir_cache r) ?p)))"
        using P(2) True by (simp add: slot_at_def r'_def off [symmetric] s_def [symmetric])
      then show ?thesis using page_write_slot [OF len _ k d, of "t mod kSlotsPerPage_ir" ?p] True t by (simp add: slot_at_def ir_consts)
    next
      case False
      then show ?thesis using P(2) by (auto simp: slot_at_def r'_def s_def)
    qed
  qed
qed

lemma bytes_words_bytes: "bytes_words (length ws) (words_bytes ws @ xs) = ws"
  by (induction ws) (simp_all add: words_bytes_Cons)

lemma inode_bytes_facts [simp]: "length (inode_bytes i) = 88" "bytes_inode (inode_bytes i @ xs) = i"
  using bytes_words_bytes [of "inode_words i" xs] by (simp_all add: inode_bytes_def bytes_inode_def)

section \<open>The operations on the array of slots\<close>

datatype ir_cmd = IrWrite u64 "byte list" | IrRead u64 nat | IrMutate u64 "Inode \<Rightarrow> Inode" | IrFlush
datatype ir_res = IrDone | IrBytes "byte list" | IrFound bool

fun ir_exec :: "ir_cmd \<Rightarrow> SSDInodeRegion \<Rightarrow> (ir_res \<times> SSDInodeRegion) option" where
  "ir_exec (IrWrite ino d) r = do { r \<leftarrow> ir_WriteInode ino d r; Some (IrDone, r) }"
| "ir_exec (IrRead ino len) r = do { (bs, r) \<leftarrow> ir_ReadInode ino len r; Some (IrBytes bs, r) }"
| "ir_exec (IrMutate ino fn) r = do { (b, r) \<leftarrow> ir_MutateInode ino fn r; Some (IrFound b, r) }"
| "ir_exec IrFlush r = do { (_, r) \<leftarrow> ir_FlushDirty r; Some (IrDone, r) }"

fun ir_spec :: "nat \<Rightarrow> ir_cmd \<Rightarrow> (nat \<Rightarrow> byte list) \<Rightarrow> ir_res \<times> (nat \<Rightarrow> byte list)" where
  "ir_spec M (IrWrite ino d) A = (let s = unat ino mod M in (IrDone, A(s := d @ drop (length d) (A s))))"
| "ir_spec M (IrRead ino len) A = (IrBytes (take len (A (unat ino mod M))), A)"
| "ir_spec M (IrMutate ino fn) A =
    (let s = unat ino mod M; i = bytes_inode (take 88 (A s)) in
     if i_id i = 0 then (IrFound False, A) else (IrFound True, A(s := inode_bytes (fn i) @ drop 88 (A s))))"
| "ir_spec M IrFlush A = (IrDone, A)"

fun ir_ok :: "SSDInodeRegion \<Rightarrow> ir_cmd \<Rightarrow> bool" where
  "ir_ok r (IrWrite ino d) = (ir_loads r ino \<and> length d \<le> kSlotSize_ir)"
| "ir_ok r (IrRead ino len) = (ir_loads r ino \<and> len \<le> kSlotSize_ir)"
| "ir_ok r (IrMutate ino fn) = ir_loads r ino"
| "ir_ok r IrFlush = True"

lemma slot_same: "pview (ir_cache r') = pview (ir_cache r) \<Longrightarrow> slot_at r' = slot_at r"
  by (simp add: slot_at_def fun_eq_iff)

lemma ir_exec_ok:
  assumes inv: "ir_inv r" and ok: "ir_ok r c"
  shows "\<exists>x r'. ir_exec c r = Some (x, r') \<and> ir_inv r' \<and> ir_max_inodes r' = ir_max_inodes r \<and> ir_spec (ir_max_inodes r) c (slot_at r) = (x, slot_at r')"
proof -
  let ?p = "\<lambda>ino. unat ino mod ir_max_inodes r div kSlotsPerPage_ir"
  have load: "\<exists>i r'. ir_LoadPage ino r = Some (i, r') \<and> ir_inv r' \<and> ir_max_inodes r' = ir_max_inodes r \<and> slot_at r' = slot_at r \<and>
      pc_slots (ir_cache r') (?p ino) = i \<and> i \<noteq> kNullIdx \<and>
      take kSlotSize_ir (drop (ir_InPageOffset r' ino) (pce_page (pc_pool (ir_cache r') i))) = slot_at r (unat ino mod ir_max_inodes r)"
    if "ir_loads r ino" for ino
  proof -
    note L = ir_LoadPage_ok [OF inv that]
    obtain i r' where l: "ir_LoadPage ino r = Some (i, r')" "ir_inv r'" "same_geometry r r'" "pview (ir_cache r') = pview (ir_cache r)"
      "pc_slots (ir_cache r') (?p ino) = i" "i \<noteq> kNullIdx" "pce_page (pc_pool (ir_cache r') i) = pview (ir_cache r) (?p ino)"
      using L by blast
    have "ir_max_inodes r' = ir_max_inodes r" using l(3) by (simp add: same_geometry_def)
    moreover from this have "take kSlotSize_ir (drop (ir_InPageOffset r' ino) (pce_page (pc_pool (ir_cache r') i))) = slot_at r (unat ino mod ir_max_inodes r)"
      by (simp add: slot_at_def ir_InPageOffset_def l(7))
    ultimately show ?thesis using l slot_same [OF l(4)] by blast
  qed
  show ?thesis
  proof (cases c)
    case (IrWrite ino d)
    with ok obtain i r1 where l: "ir_LoadPage ino r = Some (i, r1)" "ir_inv r1" "ir_max_inodes r1 = ir_max_inodes r" "slot_at r1 = slot_at r"
      "pc_slots (ir_cache r1) (?p ino) = i" "i \<noteq> kNullIdx" using load [of ino] by auto
    have "length d \<le> kSlotSize_ir" using ok IrWrite by simp
    from put_slot [OF l(2) l(5) [folded l(3)] l(6) this] l show ?thesis by (simp add: IrWrite ir_WriteInode_def Let_def)
  next
    case (IrRead ino len)
    with ok obtain i r1 where l: "ir_LoadPage ino r = Some (i, r1)" "ir_inv r1" "ir_max_inodes r1 = ir_max_inodes r" "slot_at r1 = slot_at r"
      "take kSlotSize_ir (drop (ir_InPageOffset r1 ino) (pce_page (pc_pool (ir_cache r1) i))) = slot_at r (unat ino mod ir_max_inodes r)" using load [of ino] by auto
    have "min len kSlotSize_ir = len" using ok IrRead by simp
    then have "take len (drop (ir_InPageOffset r1 ino) (pce_page (pc_pool (ir_cache r1) i))) = take len (slot_at r (unat ino mod ir_max_inodes r))"
      unfolding l(5) [symmetric] by (simp only: take_take)
    then show ?thesis using l(1-4) by (simp add: IrRead ir_ReadInode_def)
  next
    case (IrMutate ino fn)
    with ok obtain i r1 where l: "ir_LoadPage ino r = Some (i, r1)" "ir_inv r1" "ir_max_inodes r1 = ir_max_inodes r" "slot_at r1 = slot_at r"
      "pc_slots (ir_cache r1) (?p ino) = i" "i \<noteq> kNullIdx"
      "take kSlotSize_ir (drop (ir_InPageOffset r1 ino) (pce_page (pc_pool (ir_cache r1) i))) = slot_at r (unat ino mod ir_max_inodes r)" using load [of ino] by auto
    have t: "take 88 (drop (ir_InPageOffset r1 ino) (pce_page (pc_pool (ir_cache r1) i))) = take 88 (slot_at r (unat ino mod ir_max_inodes r))"
      unfolding l(7) [symmetric] by (simp add: kSlotSize_ir_def)
    show ?thesis
    proof (cases "i_id (bytes_inode (take 88 (slot_at r (unat ino mod ir_max_inodes r)))) = 0")
      case True
      then show ?thesis using l t by (simp add: IrMutate ir_MutateInode_def Let_def)
    next
      case False
      have "length (inode_bytes (fn (bytes_inode (take 88 (slot_at r (unat ino mod ir_max_inodes r)))))) \<le> kSlotSize_ir" by (simp add: kSlotSize_ir_def)
      from put_slot [OF l(2) l(5) [folded l(3)] l(6) this] l t False show ?thesis by (simp add: IrMutate ir_MutateInode_def Let_def)
    qed
  next
    case IrFlush
    obtain lru fr where I: "cache_inv (ir_max_pages r) zero_page {} {} (ir_cache r) lru fr" "ir_num_cached r = length lru" using inv by (auto simp: ir_inv_def)
    obtain s c' where f: "FlushDirty (ir_cache r) = Some (s, c')" "cache_inv (ir_max_pages r) zero_page {} {} c' lru fr" "pview c' = pview (ir_cache r)"
      "pc_num_slots c' = pc_num_slots (ir_cache r)" using FlushDirty_ok [OF I(1)] by blast
    have "ir_inv (r\<lparr>ir_cache := c'\<rparr>)" using inv I(2) f(2-4) by (auto simp: ir_inv_def)
    then show ?thesis using f(1) slot_same [of "r\<lparr>ir_cache := c'\<rparr>" r] f(3) by (simp add: IrFlush ir_FlushDirty_def)
  qed
qed

interpretation ireg: total_refinement "\<lambda>r. ir_inv r \<and> ir_max_inodes r = M" slot_at ir_ok ir_exec "ir_spec M" "\<lambda>_. k" for M k
proof (unfold_locales, goal_cases)
  case (1 s c r s')
  then show ?case using ir_exec_ok [of s c] by auto
next
  case (2 s c r s')
  then show ?case using ir_exec_ok [of s c] by auto
next
  case (3 s c)
  then show ?case using ir_exec_ok [of s c] by auto
qed

section \<open>Starting, and regions that fit in the cache\<close>

lemma ir_Init_inv:
  assumes "0 < cap" "kPageSize dvd cap" "\<And>off. length (ff_page f off) = kPageSize" "\<And>off. ff_eof f \<le> off \<Longrightarrow> ff_page f off = zero_page"
  shows "ir_inv (ir_Init f cap)" "slot_at (ir_Init f cap) s = take kSlotSize_ir (drop (s mod kSlotsPerPage_ir * kSlotSize_ir) (ff_page f (s div kSlotsPerPage_ir * kPageSize)))"
proof -
  have n: "0 < kPageCacheMaxPages_ir" "kPageCacheMaxPages_ir \<le> kNullIdx" by (simp_all add: kPageCacheMaxPages_ir_def kNullIdx_def)
  note I = pc_Init_ok [OF n assms(4), of "cap div kPageSize"]
  show "ir_inv (ir_Init f cap)" using I assms(1-3) by (auto simp: ir_inv_def ir_Init_def)
  show "slot_at (ir_Init f cap) s = take kSlotSize_ir (drop (s mod kSlotsPerPage_ir * kSlotSize_ir) (ff_page f (s div kSlotsPerPage_ir * kPageSize)))"
    using I(2) by (simp add: slot_at_def ir_Init_def)
qed

lemma small_loads:
  assumes inv: "ir_inv r" and small: "pc_num_slots (ir_cache r) \<le> ir_max_pages r"
  shows "ir_loads r ino"
proof (cases "pc_slots (ir_cache r) (ir_PageOffset r ino div kPageSize) = kNullIdx")
  case True
  obtain lru fr where I: "cache_inv (ir_max_pages r) zero_page {} {} (ir_cache r) lru fr" "ir_num_cached r = length lru" using inv by (auto simp: ir_inv_def)
  let ?p = "ir_PageOffset r ino div kPageSize" and ?n = "pc_num_slots (ir_cache r)"
  have p: "?p < ?n" using ir_page_bound(1) [OF inv, of ino] by (simp add: ir_PageOffset_def Let_def)
  have "set lru \<subseteq> pc_slots (ir_cache r) ` ({..<?n} - {?p})"
  proof
    fix i
    assume i: "i \<in> set lru"
    then obtain q where q: "q < ?n" "pc_slots (ir_cache r) q = i" using cache_invD(7) [OF I(1)] by blast
    moreover have "i \<noteq> kNullIdx" using cache_invD(1) [OF I(1)] i by (auto simp: lru_ok_def)
    ultimately show "i \<in> pc_slots (ir_cache r) ` ({..<?n} - {?p})" using True by (intro image_eqI [of _ _ q]) auto
  qed
  then have "card (set lru) \<le> card ({..<?n} - {?p})" by (meson card_image_le card_mono finite_Diff finite_imageI finite_lessThan le_trans)
  then have "length lru < ?n" using p cache_invD(3) [OF I(1)] distinct_card [of lru] by simp
  then show ?thesis using small I(2) by (simp add: ir_loads_def)
qed (simp add: ir_loads_def)

fun cmd_fits :: "ir_cmd \<Rightarrow> bool" where
  "cmd_fits (IrWrite ino d) = (length d \<le> kSlotSize_ir)"
| "cmd_fits (IrRead ino len) = (len \<le> kSlotSize_ir)"
| "cmd_fits _ = True"

lemma ir_exec_sizes:
  assumes "ir_inv r" "ir_ok r c" "ir_exec c r = Some (x, r')"
  shows "ir_max_pages r' = ir_max_pages r \<and> ir_capacity r' = ir_capacity r"
proof -
  have "ir_max_pages r1 = ir_max_pages r \<and> ir_capacity r1 = ir_capacity r" if "ir_LoadPage ino r = Some (i, r1)" for ino i r1
    using that by (auto simp: ir_LoadPage_def Let_def split: if_splits prod.splits)
  then show ?thesis using assms(3)
    by (cases c) (auto simp: ir_WriteInode_def ir_ReadInode_def ir_MutateInode_def ir_FlushDirty_def Let_def split: bind_splits if_splits)
qed

lemma small_run_ok:
  assumes "ir_inv r" "ir_capacity r div kPageSize \<le> ir_max_pages r" "list_all cmd_fits cs"
  shows "run_ok ir_exec ir_ok cs r"
  using assms
proof (induction cs arbitrary: r)
  case (Cons c cs)
  have "ir_loads r ino" for ino using small_loads [OF Cons.prems(1)] Cons.prems(1,2) by (simp add: ir_inv_def)
  then have ok: "ir_ok r c" using Cons.prems(3) by (cases c) auto
  have "run_ok ir_exec ir_ok cs r'" if e: "ir_exec c r = Some (x, r')" for x r'
    using Cons.IH [of r'] ir_exec_sizes [OF Cons.prems(1) ok e] ir_exec_ok [OF Cons.prems(1) ok] e Cons.prems(2,3) by auto
  then show ?case using ok by (auto split: option.splits)
qed simp

section \<open>The properties\<close>

definition empty_file :: "byte list flash_file" where
  "empty_file = \<lparr>ff_page = (\<lambda>_. zero_page), ff_eof = 0\<rparr>"



text \<open>C27: After a flush the file alone has every slot: a region started on it has the same slots.\<close>

theorem inode_flush_persists:
  assumes "ir_inv r"
  shows "\<exists>s r'. ir_FlushDirty r = Some (s, r') \<and> slot_at r' = slot_at r \<and> slot_at (ir_Init (pc_flash (ir_cache r')) (ir_capacity r)) = slot_at r"
proof -
  obtain lru fr where I: "cache_inv (ir_max_pages r) zero_page {} {} (ir_cache r) lru fr" using assms by (auto simp: ir_inv_def)
  obtain s c' where f: "FlushDirty (ir_cache r) = Some (s, c')" "cache_inv (ir_max_pages r) zero_page {} {} c' lru fr" "pview c' = pview (ir_cache r)"
    "\<forall>p. ff_page (pc_flash c') (p * kPageSize) = pview (ir_cache r) p" using FlushDirty_ok [OF I] by blast
  have "slot_at (ir_Init (pc_flash c') (ir_capacity r)) = slot_at r"
    using f(4) by (simp add: fun_eq_iff slot_at_def ir_Init_def pc_Init_def pview_def)
  then show ?thesis using f(1,3) slot_same [of "r\<lparr>ir_cache := c'\<rparr>" r] by (simp add: ir_FlushDirty_def)
qed

theorem inode_flush_persists_witness:
  "\<exists>r s r'. ir_WriteInode 5 (inode_bytes ((Inode_zero)\<lparr>i_id := 5\<rparr>)) (ir_Init empty_file 8192) = Some r \<and> ir_FlushDirty r = Some (s, r') \<and>
    take 88 (slot_at (ir_Init (pc_flash (ir_cache r')) 8192) 5) = inode_bytes ((Inode_zero)\<lparr>i_id := 5\<rparr>)"
proof -
  let ?d = "inode_bytes ((Inode_zero)\<lparr>i_id := 5\<rparr>)"
  have i: "ir_inv (ir_Init empty_file 8192)" by (rule ir_Init_inv) (simp_all add: empty_file_def zero_page_def kPageSize_def)
  have c: "ir_ok (ir_Init empty_file 8192) (IrWrite 5 ?d)" by (simp add: ir_loads_def ir_Init_def ir_consts)
  have m: "ir_max_inodes (ir_Init empty_file 8192) = 64" "ir_capacity (ir_Init empty_file 8192) = 8192" by (simp_all add: ir_Init_def ir_consts)
  obtain r where r: "ir_WriteInode 5 ?d (ir_Init empty_file 8192) = Some r" "ir_inv r"
    "slot_at r = (slot_at (ir_Init empty_file 8192))(5 := ?d @ drop 88 (slot_at (ir_Init empty_file 8192) 5))"
    using ir_exec_ok [OF i c] by (auto simp: m Let_def split: bind_splits)
  have k: "ir_capacity r = 8192" using ir_exec_sizes [OF i c] r(1) m(2) by simp
  from inode_flush_persists [OF r(2)] obtain s r' where "ir_FlushDirty r = Some (s, r')" "slot_at (ir_Init (pc_flash (ir_cache r')) 8192) = slot_at r" unfolding k by blast
  then show ?thesis using r(1,3) by (intro exI [of _ r] exI [of _ s] exI [of _ r']) simp
qed

text \<open>C28: A page beyond the end of the file that is read in when the cache is full does not read as the zeroes the slots
  have: the read leaves the buffer as it was, and the buffer is the page that was evicted.\<close>

theorem inode_page_stale:
  assumes "ir_inv r" "ir_num_cached r = ir_max_pages r"
    and "pc_slots (ir_cache r) (ir_PageOffset r ino div kPageSize) = kNullIdx"
    and "ir_PageOffset r ino \<ge> ff_eof (pc_flash (snd (pc_evict (ir_cache r))))"
  shows "(\<exists>r'. ir_ReadInode ino len r =
      Some (take len (drop (ir_InPageOffset r ino) (pce_page (pc_pool (ir_cache r) (pc_lru_tail (ir_cache r))))), r')) \<and>
    slot_at r (unat ino mod ir_max_inodes r) = replicate kSlotSize_ir 0"
proof
  let ?off = "ir_PageOffset r ino"
  obtain i c1 where e: "pc_evict (ir_cache r) = (i, c1)" by (rule prod.exhaust)
  obtain lru fr where I: "cache_inv (ir_max_pages r) zero_page {} {} (ir_cache r) lru fr" "ir_num_cached r = length lru" using assms(1) by (auto simp: ir_inv_def)
  have fr: "fr = []" using lists_length [OF I(1)] I(2) assms(2) by simp
  have it: "i = pc_lru_tail (ir_cache r)" using e by (auto simp: pc_evict_def Let_def split: if_splits)
  have "lru \<noteq> []" using cache_invD(5) [OF I(1)] I(2) assms(2) by auto
  then obtain xs x where x: "lru = xs @ [x]" by (metis append_butlast_last_id)
  have t: "pc_lru_tail (ir_cache r) = x" using cache_invD(1) [OF I(1)] by (simp add: lru_ok_def x)
  obtain c0 where c0: "c1 = LruUnlink x c0" "pc_pool c0 = pc_pool (ir_cache r)" "lru_ok c0 (xs @ x # [])"
    using e cache_invD(1) [OF I(1)] t x by (auto simp: pc_evict_def Let_def lru_ok_def split: if_splits)
  have pg: "pce_page (pc_pool c1 i) = pce_page (pc_pool (ir_cache r) (pc_lru_tail (ir_cache r)))"
    using LruUnlink_ok(2) [OF c0(3)] c0(1,2) it t by (simp add: relinks_def)
  have p: "ir_PageOffset r ino div kPageSize < pc_num_slots (ir_cache r)" using ir_page_bound(1) [OF assms(1)] by (simp add: ir_PageOffset_def Let_def)
  have l: "ir_LoadPage ino r = Some (i, r\<lparr>ir_cache := pc_install ?off i (\<lambda>buf. flash_read ?off buf (pc_flash c1)) c1, ir_num_cached := ir_num_cached r\<rparr>)"
    using assms(2,3) p e by (simp add: ir_LoadPage_def Let_def)
  have n: "pc_slots c1 (?off div kPageSize) = kNullIdx" "pc_num_slots c1 = pc_num_slots (ir_cache r)"
    using e assms(3) by (auto simp: pc_evict_def Let_def LruUnlink_def upd_entry_def split: if_splits)
  obtain lru' where J: "cache_inv (ir_max_pages r) zero_page {i} {} c1 lru' []" "i < ir_max_pages r" using evict_ok [OF I(1) [unfolded fr]] e by auto
  have off: "?off = ?off div kPageSize * kPageSize" by (simp add: ir_PageOffset_def Let_def)
  have "pce_page (pc_pool (pc_install ?off i (\<lambda>buf. flash_read ?off buf (pc_flash c1)) c1) i) = pce_page (pc_pool c1 i)"
    using install_ok(6) [OF J(1,2) p [folded n(2)] n(1), of "\<lambda>buf. flash_read ?off buf (pc_flash c1)"] assms(4) e off by (simp add: flash_read_def)
  then show "\<exists>r'. ir_ReadInode ino len r =
    Some (take len (drop (ir_InPageOffset r ino) (pce_page (pc_pool (ir_cache r) (pc_lru_tail (ir_cache r))))), r')"
    using l pg by (simp add: ir_ReadInode_def ir_InPageOffset_def)
  have "ff_eof (pc_flash (ir_cache r)) \<le> ff_eof (pc_flash c1)" using e by (auto simp: pc_evict_def Let_def LruUnlink_def upd_entry_def flash_write_def split: if_splits)
  then have "ff_page (pc_flash (ir_cache r)) ?off = zero_page" using cache_invD(11) [OF I(1)] assms(4) e by simp
  then have "pview (ir_cache r) (?off div kPageSize) = zero_page" using assms(3) off by (simp add: pview_def)
  moreover have "?off div kPageSize = unat ino mod ir_max_inodes r div kSlotsPerPage_ir" by (simp add: ir_PageOffset_def Let_def)
  moreover have "k mod 32 * 128 + 128 \<le> (4096::nat)" for k using mod_less_divisor [of 32 k] by (simp del: mod_less_divisor)
  ultimately show "slot_at r (unat ino mod ir_max_inodes r) = replicate kSlotSize_ir 0"
    by (simp add: slot_at_def zero_page_def ir_consts min_def)
qed

text \<open>A cache of one page that holds the first page of a file of one page.\<close>

definition one_page :: "byte list \<Rightarrow> SSDInodeRegion" where
  "one_page pg = \<lparr>ir_cache = \<lparr>pc_pool = (\<lambda>_. \<lparr>pce_offset = 0, pce_prev = kNullIdx, pce_next = kNullIdx, pce_dirty = False, pce_page = pg\<rparr>),
      pc_slots = (\<lambda>p. if p = 0 then 0 else kNullIdx), pc_num_slots = 2, pc_lru_head = 0, pc_lru_tail = 0, pc_free_head = kNullIdx,
      pc_evict_pages = 0, pc_evict_bytes = 0, pc_flash = \<lparr>ff_page = (\<lambda>off. if off = 0 then pg else zero_page), ff_eof = 4096\<rparr>\<rparr>,
    ir_max_pages = 1, ir_capacity = 8192, ir_max_inodes = 64, ir_num_cached = 1\<rparr>"

theorem inode_page_stale_witness:
  "\<exists>r'. ir_ReadInode 32 88 (one_page (inode_bytes ((Inode_zero)\<lparr>i_id := 64\<rparr>) @ replicate 4008 0)) =
    Some (inode_bytes ((Inode_zero)\<lparr>i_id := 64\<rparr>), r')"
proof -
  let ?r = "one_page (inode_bytes ((Inode_zero)\<lparr>i_id := 64\<rparr>) @ replicate 4008 0)"
  have nz: "kNullIdx \<noteq> 0" "kNullIdx > 1" by (simp_all add: kNullIdx_def)
  have "cache_inv 1 zero_page {} {} (ir_cache ?r) [0] []"
    using nz by (auto simp: cache_inv_def one_page_def lru_ok_def)
  moreover have "length (pview (ir_cache ?r) p) = kPageSize" for p using nz by (simp add: one_page_def pview_def zero_page_def kPageSize_def)
  ultimately have i: "ir_inv ?r" unfolding ir_inv_def by (auto simp: one_page_def ir_consts)
  have e: "pc_flash (snd (pc_evict (ir_cache ?r))) = \<lparr>ff_page = (\<lambda>off. if off = 0 then inode_bytes ((Inode_zero)\<lparr>i_id := 64\<rparr>) @ replicate 4008 0 else zero_page), ff_eof = 4096\<rparr>"
    using nz by (simp add: pc_evict_def Let_def LruUnlink_def upd_entry_def one_page_def)
  have o: "ir_PageOffset ?r 32 = 4096" "ir_InPageOffset ?r 32 = 0" by (simp_all add: ir_PageOffset_def ir_InPageOffset_def one_page_def ir_consts Let_def)
  have "\<exists>r'. ir_ReadInode 32 88 ?r = Some (take 88 (drop (ir_InPageOffset ?r 32) (pce_page (pc_pool (ir_cache ?r) (pc_lru_tail (ir_cache ?r))))), r')"
    by (rule conjunct1 [OF inode_page_stale [OF i]]) (simp_all add: e o, simp_all add: one_page_def kPageSize_def)
  then show ?thesis unfolding o by (simp add: one_page_def)
qed

end
