(* ===== verification/Spec2Isabelle.thy ===== *)
theory Spec2Isabelle
  imports CxlMem MetadataTypes CompactWAL WalProtocol InodeArray InodeCluster LevelHashtableMap MetadataService InodeRegion
begin

text \<open>
  StaxFS is a distributed file system whose metadata servers share CXL memory. A client intercepts the
  system calls of a program and sends them to a metadata server. The server keeps directory entries in a
  two-level hash table and inodes in an inode array, both in the shared memory, so that every server can read
  the inodes of the others; it logs each change in a write-ahead log ring in the DRAM of a CXL-SSD, and a
  checkpoint thread moves logged changes to pages on flash. This library models the server side from the memory
  up to the name space operations, and the page cache and the inode region of the flash side. The names of the
  definitions are those of the sources, with a prefix where a name occurs more than once or is one of HOL.

  \<^bold>\<open>How the code is modelled.\<close> An operation is a function from its arguments and the state to its result and the new
  state. The result is optional where the code may not return: process exit when the memory pool is exhausted, an
  access outside the pool or outside an array, a write past a fixed buffer, a loop that never ends
  (\<open>partial_function (option)\<close>). Machine integers that can wrap around are words of their width; structures in shared
  memory are bytes and 64-bit words at offsets, as in the code. Hash functions of the C++ library, clocks and the
  queue of freed ids are arguments of the definitions.

  \<^bold>\<open>Shared by all.\<close> \<open>Prelude\<close> has the machine types, the little-endian layout of words with its round trips, and the
  locales \<open>refinement\<close>, \<open>total_refinement\<close> and \<open>permitted_runs\<close>, which lift a simulation of one command to sequences
  of commands. \<open>MetadataTypes\<close> has the structures of \<open>include/common/metadata_types.h\<close>.

  \<^bold>\<open>Memory.\<close> \<open>CxlMem\<close> models \<open>cxl_allocator.cc\<close> (\<open>CXLMallocOffset\<close>, \<open>CXLFree\<close>), \<open>cxl_mem.h\<close> (\<open>cm_Read\<close>, \<open>cm_Write\<close>,
  \<open>cm_Cas\<close>, \<open>cm_Alloc\<close>) and the DRAM part of \<open>cxl_ssd.cc\<close>. Regions handed out are aligned, disjoint and inside the pool;
  a write of whole lines is read back and changes nothing else.

  \<^bold>\<open>Write-ahead log.\<close> \<open>CompactWAL\<close> models \<open>include/server/compact_wal.h\<close> and the log helpers of \<open>cxl_persistence.cc\<close>: the
  byte layout of slots, long names in continuation slots, the ring, and the hybrid logical clock. Records read back
  with all fields and names; versions grow; an append to a full ring changes nothing. \<open>WalProtocol\<close> has the
  interleavings of appending threads with the scan of the checkpoint thread as the step relation \<open>wal_step\<close>; by rule
  induction the scan delivers the reserved records in order, and it can always go on once the writers have finished.
  \<open>skip_step\<close> is the treatment of a slot that stays unready, which loses the record of a slow writer.

  \<^bold>\<open>Inodes.\<close> \<open>InodeArray\<close> models \<open>include/server/inode_array.h\<close>: blocks, segments, slots with a control word, the cache
  of foreign segments, insert, find, update and erase on the words of the memory. \<open>InodeCluster\<close> puts up to eight servers
  on one memory and shows that all their arrays together are one map from ids to inodes.

  \<^bold>\<open>Directory entries.\<close> \<open>TagHint\<close> models \<open>include/server/tag_hint.h\<close>. \<open>LevelHashtable\<close> has all operations of
  \<open>include/server/level_hashtable.h\<close>: lock words, candidate buckets, insertion with displacement inside a level and to the
  level above, the phases of a probe, and the resize protocol with its migration. \<open>LevelHashtableCells\<close> defines the bag of
  stored values and the placement invariant; \<open>LevelHashtableInsert\<close> shows that an insertion adds exactly its value,
  \<open>LevelHashtableProbe\<close> (locales \<open>prober\<close>, \<open>key_traits\<close>, \<open>bucket_worker\<close>) what find, update and erase do,
  \<open>LevelHashtableResize\<close> that a resize keeps the bag, and \<open>LevelHashtableMap\<close> that the public operations are those of a
  map and return.

  \<^bold>\<open>Metadata service.\<close> \<open>Metadata\<close> models \<open>metadata.cc\<close> over two records of store operations, as the class does with its
  template parameters: the path walk, the entry and inode primitives, id allocation, and the operations \<open>md_Create\<close>,
  \<open>md_Unlink\<close>, \<open>md_Rename\<close>, \<open>md_Stat\<close>, \<open>md_Access\<close>, \<open>md_Chmod\<close>, \<open>md_Link\<close>, \<open>md_OpenDir\<close>, \<open>md_Init\<close>. \<open>Namespace\<close> is the
  abstract name space, two maps, with path resolution and consistency. \<open>MetadataOps\<close> has the contracts of the stores
  (locales \<open>dent_store\<close>, \<open>inode_store\<close>, \<open>metadata_service\<close>) and the operations on consistent states, \<open>MetadataRename\<close>
  the rename. \<open>MetadataStores\<close> interprets the contracts on the level hash table and the inode array, and
  \<open>MetadataService\<close> states what each operation does on these stores and that every permitted run keeps the name space
  consistent.

  \<^bold>\<open>Flash.\<close> \<open>PageCache\<close> models the page cache of \<open>include/server/dent_region.h\<close> and \<open>include/server/cxl_persistence.h\<close> with
  its lists threaded through pool indices, and the flash files; \<open>InodeRegion\<close> models \<open>SSDInodeRegion\<close>. The region is an
  array of slots through hits, misses, evictions and flushes, and after a flush the file has all of it, except that a
  page beyond the end of the file that is read into a full cache shows the page that was evicted.

  \<^bold>\<open>Bounds.\<close> The constants of the sources are kept (segment and bucket sizes, eight servers, the ring, names of 64
  bytes, the number of cached pages), with the one exception that the size of the cache is a field of the region, which
  \<open>ir_Init\<close> sets to the constant. Loops with a bound of the code run on that bound: the retries of the hash table, the
  wait for a lock, and the displacement search have the limits the code has. The loops without one (the retries of a torn
  read or a lost compare-and-swap, the waits for a segment or a layout that another server announces, the walk along the
  list of cached pages) are partial functions, and the theorems on the operations that run them show that they
  return. A room hypothesis on insertions (\<open>cluster_room\<close>, the room of the hash table) says that the pool has space for
  what the insertions allocate; without it the code exits.

  \<^bold>\<open>Not modelled.\<close> Threads interfere in the log only: the operations of the hash table, of the inode array and of the
  metadata service run one at a time, with a lock bit left behind as the only trace of another thread. Of
  \<open>cxl_persistence.cc\<close> the checkpoint, recovery and the remote inode log are missing, of \<open>dent_region.h\<close> the directory
  pages, and of \<open>metadata.cc\<close> the directory listing (\<open>GetDents\<close>, \<open>GetDentViews\<close>), the hybrid hash table set-up and the
  remote inode changes that wait for the log. The object store (\<open>data.cc\<close>), the RPC server and client, the POSIX client
  and the system call hook are not modelled: they call eRPC, flatbuffers and the operating system. The alternative hash
  table (\<open>concurrent_level_hashtable.h\<close>) is not built. A write to flash succeeds, and the order in which writes become
  durable is not modelled. Profiling, logging and configuration have no effect on the modelled state.
\<close>

end
